(* ===== verification/Ufs_Prelude.thy ===== *)
theory Ufs_Prelude
  imports Main "HOL-Library.Word"
begin

text \<open>
  Shared vocabulary of the development.

  \<^item> The outcome of a C function: a value and the new state (\<open>Inr\<close>), or one of the four ways
    a call of this program does not return: the process exits (\<open>UEHANDLE\<close>, \<open>EHANDLE\<close> and
    \<open>exit\<close> of \<open>system/include/dlog.h\<close>), it spins forever, it leaves defined behaviour
    (a null or out-of-range pointer, a \<open>memcpy\<close> or \<open>strcpy\<close> past its buffer), or an assertion of
    \<open>system/include/glibccall.h\<close> fails.
  \<^item> Machine integers: 32-bit data-bucket indices are words, \<open>size_t\<close> subtraction is written
    out with its wrap-around.
  \<^item> Byte buffers as functions from offsets to bytes, with ranged reads and writes.
  \<^item> The \<open>string.h\<close> functions the sources use, on NUL-free character lists.
\<close>

section \<open>Outcomes\<close>

datatype abort =
    Exit   \<comment> \<open>the process terminates with \<open>exit(EXIT_FAILURE)\<close>\<close>
  | Hang   \<comment> \<open>a loop of the call never ends\<close>
  | Fault  \<comment> \<open>undefined behaviour: bad pointer or buffer overrun\<close>
  | Abort  \<comment> \<open>an \<open>assert\<close> fails and the process ends with \<open>abort\<close>\<close>

type_synonym 'a res = "abort + 'a"

fun andthen :: "'a res \<Rightarrow> ('a \<Rightarrow> 'b res) \<Rightarrow> 'b res" where
  "andthen (Inl e) f = Inl e"
| "andthen (Inr x) f = f x"

lemma andthen_eq_Inr:
  "andthen m f = Inr y \<longleftrightarrow> (\<exists>x. m = Inr x \<and> f x = Inr y)"
  by (cases m) auto

lemma andthen_eq_Inl:
  "andthen m f = Inl e \<longleftrightarrow> m = Inl e \<or> (\<exists>x. m = Inr x \<and> f x = Inl e)"
  by (cases m) auto

lemma andthenE:
  assumes "andthen m f = Inr y"
  obtains x where "m = Inr x" "f x = Inr y"
  using assms by (auto simp: andthen_eq_Inr)

lemma andthen_assoc: "andthen (andthen m f) g = andthen m (\<lambda>x. andthen (f x) g)"
  by (cases m) auto

text \<open>Facts the component proofs rewrite with: the configuration constants of \<open>config.h\<close>,
  and the effect of one store on one object.\<close>

named_theorems ufs_config "unfoldings of the compile-time constants"
named_theorems ufs_store "reads after writes of the shared arrays"

section \<open>Machine integers\<close>

type_synonym u32 = "32 word"
type_synonym u64 = "64 word"
type_synonym byte = "8 word"

text \<open>The index \<open>(unsigned int) -1\<close> that ends a chain of data buckets.\<close>

abbreviation nil_ix :: u32 where
  "nil_ix \<equiv> - 1"

lemma unat_nil_ix [simp]: "unat nil_ix = 4294967295"
  by (simp add: unsigned_minus_1_eq_mask mask_eq_exp_minus_1)

lemma unat_of_nat_u32: "n < 4294967296 \<Longrightarrow> unat (of_nat n :: u32) = n"
  by (simp add: unat_of_nat)

text \<open>Subtraction of two \<open>size_t\<close> values.\<close>

definition sz_sub :: "nat \<Rightarrow> nat \<Rightarrow> nat" where
  "sz_sub a b = (if b \<le> a then a - b else 2 ^ 64 - (b - a))"

lemma sz_sub_le [simp]: "b \<le> a \<Longrightarrow> sz_sub a b = a - b"
  by (simp add: sz_sub_def)

lemma sz_sub_is_wrapped:
  assumes "a < 2 ^ 64" "b < 2 ^ 64"
  shows "sz_sub a b = nat ((int a - int b) mod 2 ^ 64)"
proof (cases "b \<le> a")
  case True
  then have "(int a - int b) mod 2 ^ 64 = int a - int b"
    using assms by (intro mod_pos_pos_trivial) auto
  then show ?thesis using True by (simp add: sz_sub_def)
next
  case False
  have "(int a - int b) mod 2 ^ 64 = (int a - int b + 2 ^ 64) mod 2 ^ 64" by simp
  also have "\<dots> = int a - int b + 2 ^ 64"
    using False assms by (intro mod_pos_pos_trivial) auto
  finally have "nat ((int a - int b) mod 2 ^ 64) = nat (int a - int b + 2 ^ 64)" by simp
  also have "\<dots> = 2 ^ 64 - (b - a)" using False assms by (simp add: nat_eq_iff of_nat_diff)
  finally show ?thesis using False by (simp add: sz_sub_def)
qed

text \<open>Conversion of an \<open>off_t\<close> to \<open>int\<close>, and C's division and remainder, which truncate
  towards zero.\<close>

definition to_int32 :: "int \<Rightarrow> int" where
  "to_int32 x = (x + 2 ^ 31) mod 2 ^ 32 - 2 ^ 31"

definition c_div :: "int \<Rightarrow> int \<Rightarrow> int" where
  "c_div a b = sgn a * sgn b * (\<bar>a\<bar> div \<bar>b\<bar>)"

definition c_rem :: "int \<Rightarrow> int \<Rightarrow> int" where
  "c_rem a b = a - b * c_div a b"

lemma to_int32_small: "- (2 ^ 31) \<le> x \<Longrightarrow> x < 2 ^ 31 \<Longrightarrow> to_int32 x = x"
  by (simp add: to_int32_def)

lemma c_div_nonneg: "0 \<le> a \<Longrightarrow> 0 < b \<Longrightarrow> c_div a b = a div b"
  by (cases "a = 0") (auto simp: c_div_def)

lemma c_rem_nonneg: "0 \<le> a \<Longrightarrow> 0 < b \<Longrightarrow> c_rem a b = a mod b"
  by (simp add: c_rem_def c_div_nonneg minus_mult_div_eq_mod)

section \<open>Byte buffers\<close>

type_synonym buffer = "nat \<Rightarrow> byte"

text \<open>\<open>memcpy(dst, b + off, len)\<close> as the bytes it delivers, and \<open>memcpy(b + off, src, len)\<close>.\<close>

definition mem_read :: "buffer \<Rightarrow> nat \<Rightarrow> nat \<Rightarrow> byte list" where
  "mem_read b off len = map b [off ..< off + len]"

definition mem_write :: "buffer \<Rightarrow> nat \<Rightarrow> byte list \<Rightarrow> buffer" where
  "mem_write b off d = (\<lambda>i. if off \<le> i \<and> i < off + length d then d ! (i - off) else b i)"

lemma length_mem_read [simp]: "length (mem_read b off len) = len"
  by (simp add: mem_read_def)

lemma mem_read_0 [simp]: "mem_read b off 0 = []"
  by (simp add: mem_read_def)

lemma nth_mem_read [simp]: "i < len \<Longrightarrow> mem_read b off len ! i = b (off + i)"
  by (simp add: mem_read_def)

lemma take_mem_read: "k \<le> len \<Longrightarrow> take k (mem_read b off len) = mem_read b off k"
  by (rule nth_equalityI) auto

lemma drop_mem_read: "drop k (mem_read b off len) = mem_read b (off + k) (len - k)"
  by (rule nth_equalityI) (auto simp: add.assoc)

lemma mem_read_append:
  "mem_read b off (m + n) = mem_read b off m @ mem_read b (off + m) n"
  by (rule nth_equalityI) (auto simp: nth_append)

lemma mem_write_Nil [simp]: "mem_write b off [] = b"
  by (rule ext) (auto simp: mem_write_def)

lemma mem_read_write_before:
  "off + len \<le> off' \<Longrightarrow> mem_read (mem_write b off' d) off len = mem_read b off len"
  by (rule nth_equalityI) (auto simp: mem_write_def)

lemma mem_read_write_after:
  "off' + length d \<le> off \<Longrightarrow> mem_read (mem_write b off' d) off len = mem_read b off len"
  by (rule nth_equalityI) (auto simp: mem_write_def)

lemma mem_read_write_same [simp]:
  "mem_read (mem_write b off d) off (length d) = d"
  by (rule nth_equalityI) (auto simp: mem_write_def)

text \<open>Overwriting \<open>d\<close> at \<open>off\<close> in a buffer whose first \<open>n\<close> bytes count: what the first
  \<open>max n (off + length d)\<close> bytes are afterwards.\<close>

lemma mem_read_write_prefix:
  assumes "off \<le> n"
  shows "mem_read (mem_write b off d) 0 (max n (off + length d)) =
    take off (mem_read b 0 n) @ d @ drop (off + length d) (mem_read b 0 n)"
proof (rule nth_equalityI)
  show "length (mem_read (mem_write b off d) 0 (max n (off + length d))) =
    length (take off (mem_read b 0 n) @ d @ drop (off + length d) (mem_read b 0 n))"
    using assms by auto
next
  fix i
  assume "i < length (mem_read (mem_write b off d) 0 (max n (off + length d)))"
  then have i: "i < max n (off + length d)" by simp
  show "mem_read (mem_write b off d) 0 (max n (off + length d)) ! i =
    (take off (mem_read b 0 n) @ d @ drop (off + length d) (mem_read b 0 n)) ! i"
    using i assms by (auto simp: mem_write_def nth_append)
qed

section \<open>C strings\<close>

text \<open>\<open>!strncmp(a, b, n)\<close> on the characters before the terminating NUL.\<close>

definition strncmp_eq :: "string \<Rightarrow> string \<Rightarrow> nat \<Rightarrow> bool" where
  "strncmp_eq a b n \<longleftrightarrow> take n a = take n b"

lemma strncmp_eq_refl [simp]: "strncmp_eq a a n"
  by (simp add: strncmp_eq_def)

lemma strncmp_eq_short:
  "length a \<le> n \<Longrightarrow> length b \<le> n \<Longrightarrow> strncmp_eq a b n \<longleftrightarrow> a = b"
  by (simp add: strncmp_eq_def)

text \<open>\<open>strstr(hay, needle) != NULL\<close>.\<close>

fun strstr :: "string \<Rightarrow> string \<Rightarrow> bool" where
  "strstr hay needle =
     (take (length needle) hay = needle \<or>
      (case hay of [] \<Rightarrow> False | _ # rest \<Rightarrow> strstr rest needle))"

declare strstr.simps [simp del]

lemma strstr_iff: "strstr hay needle \<longleftrightarrow> (\<exists>xs ys. hay = xs @ needle @ ys)"
proof (induction hay)
  case Nil
  show ?case by (subst strstr.simps) auto
next
  case (Cons c hay)
  have "take (length needle) (c # hay) = needle \<longleftrightarrow> (\<exists>ys. c # hay = needle @ ys)"
    by (metis append_eq_conv_conj append_take_drop_id)
  then have "strstr (c # hay) needle \<longleftrightarrow>
      (\<exists>ys. c # hay = needle @ ys) \<or> (\<exists>xs ys. hay = xs @ needle @ ys)"
    using Cons.IH by (subst strstr.simps) simp
  also have "\<dots> \<longleftrightarrow> (\<exists>xs ys. c # hay = xs @ needle @ ys)"
    by (metis append_Cons append_Nil list.exhaust list.inject)
  finally show ?case .
qed

section \<open>Lists\<close>

lemma distinct_bounded_length:
  assumes "distinct xs" "\<And>x. x \<in> set xs \<Longrightarrow> x < n"
  shows "length xs \<le> n"
proof -
  have "length xs = card (set xs)" using assms(1) by (simp add: distinct_card)
  also have "\<dots> \<le> card {..<n}" by (rule card_mono) (auto intro: assms(2))
  finally show ?thesis by simp
qed

end
