(* ===== verification/Ufs_Data.thy ===== *)
theory Ufs_Data
  imports Ufs_Prelude
begin

text \<open>
  \<open>system/util/data_shm.c\<close>: the shared array of data buckets, its growth in steps, and the
  five bucket allocators.

  The array \<open>data_steps[step][mod]\<close> is one store \<open>dbs\<close> indexed by the logical bucket number
  \<open>step * DATA_BUCKETS_STEP + mod\<close>; a pointer to a bucket is that number. Beside it the state
  keeps which shared-memory segments exist (\<open>segs\<close>), which of them this process has mapped
  (\<open>data_steps\<close>, a null pointer being \<open>False\<close>), the \<open>sys_glob\<close> block, the per-core block, and
  the two sources of outside values, \<open>rand()\<close> and \<open>sched_getcpu()\<close>, as arbitrary sequences
  with a read position. The operations are those of one process that runs alone; the claim of
  a bucket under interleaving is in \<open>Ufs_Claim\<close>.
\<close>

section \<open>Configuration and state\<close>

definition DATA_BUCKETS_STEP :: nat where
  [ufs_config]: "DATA_BUCKETS_STEP = 262144"

definition TOTAL_STEPS_ALLOWED :: nat where
  [ufs_config]: "TOTAL_STEPS_ALLOWED = 2"

definition MAX_DATA_BUCKETS_STEPS :: nat where
  [ufs_config]: "MAX_DATA_BUCKETS_STEPS = 2"

definition DBUCKET_BUF_SIZE :: nat where
  [ufs_config]: "DBUCKET_BUF_SIZE = 4096"

lemma buf_size_pos [simp]: "0 < DBUCKET_BUF_SIZE"
  by (simp add: ufs_config)

lemma step_pos [simp]: "0 < DATA_BUCKETS_STEP"
  by (simp add: ufs_config)

record data_bucket =
  db_in_use :: bool
  db_next_ix :: u32
  db_buf :: buffer
  db_bytes :: nat
  db_lock :: bool

record core_st =
  cs_in_use :: bool
  core_n :: int
  rough_ind :: u32
  cs_lock :: bool

record sys_glob =
  dbucket_steps :: int
  dbucket_rough_index :: u32
  dbuckets_in_use :: u32
  sg_lock :: bool
  ncores :: int
  alloc_method :: int

record dstate =
  rand_src :: "nat \<Rightarrow> nat"
  rand_pos :: nat
  cpu_src :: "nat \<Rightarrow> int"
  cpu_pos :: nat
  sysg :: sys_glob
  segs :: "nat \<Rightarrow> bool"
  dbs :: "nat \<Rightarrow> data_bucket"
  data_steps :: "nat \<Rightarrow> bool"
  cores_seg :: bool
  cmem_mapped :: bool
  cmem :: "nat \<Rightarrow> core_st"
  last_core_num :: int
  last_core_ix :: int
  alloc_method_ind :: int

text \<open>\<open>rand()\<close> and \<open>sched_getcpu()\<close>: the next value of an arbitrary sequence.\<close>

definition next_rand :: "'z dstate_scheme \<Rightarrow> nat \<times> 'z dstate_scheme" where
  "next_rand s = (rand_src s (rand_pos s) mod 2 ^ 31, s\<lparr>rand_pos := Suc (rand_pos s)\<rparr>)"

definition sched_getcpu :: "'z dstate_scheme \<Rightarrow> int \<times> 'z dstate_scheme" where
  "sched_getcpu s = (cpu_src s (cpu_pos s), s\<lparr>cpu_pos := Suc (cpu_pos s)\<rparr>)"

definition upd_db :: "nat \<Rightarrow> (data_bucket \<Rightarrow> data_bucket) \<Rightarrow> 'z dstate_scheme \<Rightarrow> 'z dstate_scheme" where
  "upd_db p f s = s\<lparr>dbs := (dbs s)(p := f (dbs s p))\<rparr>"

definition upd_sysg :: "(sys_glob \<Rightarrow> sys_glob) \<Rightarrow> 'z dstate_scheme \<Rightarrow> 'z dstate_scheme" where
  "upd_sysg f s = s\<lparr>sysg := f (sysg s)\<rparr>"

definition upd_core :: "nat \<Rightarrow> (core_st \<Rightarrow> core_st) \<Rightarrow> 'z dstate_scheme \<Rightarrow> 'z dstate_scheme" where
  "upd_core i f s = s\<lparr>cmem := (cmem s)(i := f (cmem s i))\<rparr>"

section \<open>Mapping the steps\<close>

definition init_dbucket :: "data_bucket \<Rightarrow> data_bucket" where
  "init_dbucket db = db\<lparr>db_in_use := False, db_next_ix := - 1, db_bytes := 0, db_lock := False\<rparr>"

definition open_map_datastep :: "int \<Rightarrow> 'z dstate_scheme \<Rightarrow> 'z dstate_scheme res" where
  "open_map_datastep index s =
     (if index < 0 \<or> \<not> segs s (nat index) then Inl Exit
      else if int MAX_DATA_BUCKETS_STEPS \<le> index then Inl Fault
      else Inr (s\<lparr>data_steps := (data_steps s)(nat index := True)\<rparr>))"

fun map_steps :: "int list \<Rightarrow> 'z dstate_scheme \<Rightarrow> 'z dstate_scheme res" where
  "map_steps [] s = Inr s"
| "map_steps (i # is) s = andthen (open_map_datastep i s) (map_steps is)"

definition open_map_global_memd :: "'z dstate_scheme \<Rightarrow> 'z dstate_scheme res" where
  "open_map_global_memd s =
     (let s = (if alloc_method (sysg s) = 3 \<or> alloc_method (sysg s) = 4
               then s\<lparr>last_core_num := - 1, last_core_ix := - 1, cmem_mapped := False\<rparr> else s)
      in map_steps [0 .. dbucket_steps (sysg s) - 1] s)"

definition create_map_dbucket_step :: "int \<Rightarrow> 'z dstate_scheme \<Rightarrow> 'z dstate_scheme res" where
  "create_map_dbucket_step index s =
     (if 0 \<le> index \<and> segs s (nat index) then Inl Exit
      else if index < 0 \<or> int MAX_DATA_BUCKETS_STEPS \<le> index then Inl Fault
      else let k = nat index in
        Inr (upd_sysg (\<lambda>g. g\<lparr>dbucket_steps := dbucket_steps g + 1\<rparr>)
          (s\<lparr>segs := (segs s)(k := True), data_steps := (data_steps s)(k := True),
             dbs := (\<lambda>p. if p div DATA_BUCKETS_STEP = k then init_dbucket (dbs s p)
                         else dbs s p)\<rparr>)))"

definition try_create_step :: "int \<Rightarrow> 'z dstate_scheme \<Rightarrow> 'z dstate_scheme res" where
  "try_create_step steps_read s =
     (if steps_read = int MAX_DATA_BUCKETS_STEPS then Inl Exit
      else if dbucket_steps (sysg s) > steps_read then open_map_datastep steps_read s
      else if sg_lock (sysg s) then
        (if dbucket_steps (sysg s) = steps_read then Inl Hang else Inl Exit)
      else
        andthen (create_map_dbucket_step steps_read (upd_sysg (\<lambda>g. g\<lparr>sg_lock := True\<rparr>) s))
          (\<lambda>s. Inr (upd_sysg (\<lambda>g. g\<lparr>sg_lock := False\<rparr>) s)))"

definition get_dbucket_ptr :: "u32 \<Rightarrow> 'z dstate_scheme \<Rightarrow> (nat \<times> 'z dstate_scheme) res" where
  "get_dbucket_ptr ix s =
     (let step_num = unat ix div DATA_BUCKETS_STEP;
          steps_read = dbucket_steps (sysg s);
          md = unat ix mod DATA_BUCKETS_STEP
      in if int step_num > steps_read - 1 then Inl Exit
         else if data_steps s step_num then Inr (step_num * DATA_BUCKETS_STEP + md, s)
         else let i = length (takeWhile (data_steps s) [0 ..< MAX_DATA_BUCKETS_STEPS]) in
           andthen (map_steps [int i - 1 .. steps_read - 1] s)
             (\<lambda>s. if data_steps s step_num then Inr (step_num * DATA_BUCKETS_STEP + md, s)
                  else Inl Fault))"

section \<open>Claiming and releasing one bucket\<close>

text \<open>The body of every allocation loop: skip a bucket in use, try its lock, look again, mark
  it, unlock.\<close>

definition claim_dbucket :: "data_bucket \<Rightarrow> bool \<times> data_bucket" where
  "claim_dbucket db =
     (if db_in_use db then (False, db)
      else if db_lock db then (False, db)
      else let db = db\<lparr>db_lock := True\<rparr> in
        if db_in_use db then (False, db\<lparr>db_lock := False\<rparr>)
        else let db = db\<lparr>db_in_use := True\<rparr> in (True, db\<lparr>db_lock := False\<rparr>))"

definition release_dbucket :: "nat \<Rightarrow> 'z dstate_scheme \<Rightarrow> int \<times> 'z dstate_scheme" where
  "release_dbucket p s =
     (if \<not> db_in_use (dbs s p) then (- 1, s)
      else (0, upd_sysg (\<lambda>g. g\<lparr>dbuckets_in_use := dbuckets_in_use g - 1\<rparr>)
                 (upd_db p (\<lambda>db. db\<lparr>db_in_use := False\<rparr>) s)))"

section \<open>The allocators\<close>

text \<open>The walk \<open>for (i = 0; i < n; i++)\<close> over \<open>data_steps[j / STEP][j % STEP]\<close> with \<open>j\<close> given by
  the loop counter.\<close>

function walk_dbuckets ::
  "(nat \<Rightarrow> nat) \<Rightarrow> nat \<Rightarrow> nat \<Rightarrow> 'z dstate_scheme \<Rightarrow> (nat option \<times> 'z dstate_scheme) res" where
  "walk_dbuckets idx n i s =
     (if i < n then
        (let j = idx i in
         if \<not> data_steps s (j div DATA_BUCKETS_STEP) then Inl Fault
         else case claim_dbucket (dbs s j) of (ok, db) \<Rightarrow>
           (let s = s\<lparr>dbs := (dbs s)(j := db)\<rparr> in
            if ok then Inr (Some j, s) else walk_dbuckets idx n (Suc i) s))
      else Inr (None, s))"
  by pat_completeness auto
termination
  by (relation "measure (\<lambda>(idx, n, i, s). n - i)") auto

declare walk_dbuckets.simps [simp del]

definition tot_buckets :: nat where
  "tot_buckets = DATA_BUCKETS_STEP * TOTAL_STEPS_ALLOWED"

definition alloc_walk_random :: "'z dstate_scheme \<Rightarrow> (nat \<times> 'z dstate_scheme) res" where
  "alloc_walk_random s =
     (if unat (dbuckets_in_use (sysg s)) = tot_buckets then Inl Exit
      else case next_rand s of (r, s) \<Rightarrow>
        (let dindex = r mod tot_buckets in
         andthen (walk_dbuckets (\<lambda>i. (dindex + i) mod tot_buckets) tot_buckets 0 s)
           (\<lambda>(res, s). case res of None \<Rightarrow> Inl Exit | Some j \<Rightarrow> Inr (j, s))))"

definition alloc_walk_rough_ind :: "'z dstate_scheme \<Rightarrow> (nat \<times> 'z dstate_scheme) res" where
  "alloc_walk_rough_ind s =
     (let s = (if unat (dbucket_rough_index (sysg s)) \<ge> tot_buckets
               then upd_sysg (\<lambda>g. g\<lparr>dbucket_rough_index :=
                      of_nat (unat (dbucket_rough_index g) mod tot_buckets)\<rparr>) s
               else s);
          ri = unat (dbucket_rough_index (sysg s))
      in andthen (walk_dbuckets (\<lambda>i. (ri + i) mod tot_buckets) tot_buckets 0 s)
           (\<lambda>(res, s). case res of None \<Rightarrow> Inl Exit
              | Some j \<Rightarrow> Inr (j, upd_sysg (\<lambda>g. g\<lparr>dbucket_rough_index := of_nat j\<rparr>) s)))"

text \<open>\<open>get_set_core_index\<close>: the slot of the per-core block that belongs to the current CPU.\<close>

function walk_cores :: "int \<Rightarrow> nat \<Rightarrow> 'z dstate_scheme \<Rightarrow> nat option \<times> 'z dstate_scheme" where
  "walk_cores cnum i s =
     (if int i < ncores (sysg s) then
        (if cs_in_use (cmem s i) then
           (if core_n (cmem s i) = cnum then (Some i, s) else walk_cores cnum (Suc i) s)
         else if cs_lock (cmem s i) then walk_cores cnum (Suc i) s
         else (Some i, upd_core i (\<lambda>c. c\<lparr>cs_in_use := True, core_n := cnum\<rparr>) s))
      else (None, s))"
  by pat_completeness auto
termination
  by (relation "measure (\<lambda>(cnum, i, s). nat (ncores (sysg s)) - i)") auto

declare walk_cores.simps [simp del]

definition get_set_core_index :: "'z dstate_scheme \<Rightarrow> (int \<times> 'z dstate_scheme) res" where
  "get_set_core_index s =
     andthen (if cmem_mapped s then Inr s
              else if cores_seg s then Inr (s\<lparr>cmem_mapped := True\<rparr>) else Inl Exit)
       (\<lambda>s. case sched_getcpu s of (cnum, s) \<Rightarrow>
          (if cnum = last_core_num s then Inr (last_core_ix s, s)
           else case walk_cores cnum 0 s of (res, s) \<Rightarrow>
             (case res of None \<Rightarrow> Inl Exit
              | Some i \<Rightarrow> Inr (int i, s\<lparr>last_core_ix := int i, last_core_num := cnum\<rparr>))))"

definition bkts_per_core :: "'z dstate_scheme \<Rightarrow> nat res" where
  "bkts_per_core s =
     (let n = nat (ncores (sysg s) mod 2 ^ 32) in
      if n = 0 then Inl Fault
      else if tot_buckets div n = 0 then Inl Fault
      else Inr (tot_buckets div n))"

definition alloc_walk_per_core_random :: "'z dstate_scheme \<Rightarrow> (nat \<times> 'z dstate_scheme) res" where
  "alloc_walk_per_core_random s =
     andthen (get_set_core_index s) (\<lambda>(core_ix, s).
     andthen (bkts_per_core s) (\<lambda>bpc.
       (let my_start = nat ((int bpc * core_ix) mod 2 ^ 32) in
        case next_rand s of (r, s) \<Rightarrow>
          (let dindex = r mod bpc in
           andthen (walk_dbuckets (\<lambda>i. (dindex + i) mod bpc + my_start) bpc 0 s)
             (\<lambda>(res, s). case res of None \<Rightarrow> Inl Exit | Some j \<Rightarrow> Inr (j, s))))))"

definition alloc_walk_per_core_rough_ind :: "'z dstate_scheme \<Rightarrow> (nat \<times> 'z dstate_scheme) res" where
  "alloc_walk_per_core_rough_ind s =
     andthen (get_set_core_index s) (\<lambda>(core_ix, s).
     andthen (bkts_per_core s) (\<lambda>bpc.
       if core_ix < 0 then Inl Fault else
       (let my_start = nat ((int bpc * core_ix) mod 2 ^ 32);
            c = nat core_ix;
            s = (if unat (rough_ind (cmem s c)) \<ge> bpc
                 then upd_core c (\<lambda>k. k\<lparr>rough_ind := of_nat (unat (rough_ind k) mod bpc)\<rparr>) s
                 else s);
            cri = unat (rough_ind (cmem s c))
        in andthen (walk_dbuckets (\<lambda>i. (cri + i) mod bpc + my_start) bpc 0 s)
             (\<lambda>(res, s). case res of None \<Rightarrow> Inl Exit
                | Some j \<Rightarrow> Inr (j, upd_core c (\<lambda>k. k\<lparr>rough_ind := of_nat (j - my_start)\<rparr>) s)))))"

text \<open>\<open>ALLOC_STEPS\<close>: the walk goes through \<open>get_dbucket_ptr\<close>, hands out the unreduced index
  \<open>local_ix\<close>, and clears the bucket. The result is that index and the bucket it was taken from.\<close>

function walk_steps ::
  "u32 \<Rightarrow> nat \<Rightarrow> nat \<Rightarrow> 'z dstate_scheme \<Rightarrow> ((u32 \<times> nat) option \<times> 'z dstate_scheme) res" where
  "walk_steps j n i s =
     (if i < n then
        (let local_ix = of_nat i + j in
         andthen (get_dbucket_ptr (of_nat (unat local_ix mod n)) s) (\<lambda>(p, s).
           case claim_dbucket (dbs s p) of (ok, db) \<Rightarrow>
             (let s = s\<lparr>dbs := (dbs s)(p := db)\<rparr> in
              if ok then
                Inr (Some (local_ix, p),
                  upd_db p (\<lambda>db. db\<lparr>db_next_ix := - 1, db_bytes := 0\<rparr>)
                    (upd_sysg (\<lambda>g. g\<lparr>dbucket_rough_index := local_ix,
                                      dbuckets_in_use := dbuckets_in_use g + 1\<rparr>) s))
              else walk_steps j n (Suc i) s)))
      else Inr (None, s))"
  by pat_completeness auto
termination
  by (relation "measure (\<lambda>(j, n, i, s). n - i)") auto

declare walk_steps.simps [simp del]

fun traverse_current_buckets :: "nat \<Rightarrow> 'z dstate_scheme \<Rightarrow> ((u32 \<times> nat) \<times> 'z dstate_scheme) res" where
  "traverse_current_buckets 0 s = Inl Hang"
| "traverse_current_buckets (Suc fuel) s =
     (let j = dbucket_rough_index (sysg s);
          steps_read = dbucket_steps (sysg s);
          current_num_buckets = DATA_BUCKETS_STEP * nat steps_read
      in andthen (walk_steps j current_num_buckets 0 s) (\<lambda>(res, s).
           case res of Some r \<Rightarrow> Inr (r, s)
           | None \<Rightarrow>
             (if current_num_buckets = DATA_BUCKETS_STEP * MAX_DATA_BUCKETS_STEPS then Inl Exit
              else andthen (try_create_step steps_read s) (traverse_current_buckets fuel))))"

definition alloc_walk_steps :: "'z dstate_scheme \<Rightarrow> ((u32 \<times> nat) \<times> 'z dstate_scheme) res" where
  "alloc_walk_steps s =
     (let max_buckets = DATA_BUCKETS_STEP * MAX_DATA_BUCKETS_STEPS in
      if unat (dbuckets_in_use (sysg s)) = max_buckets then Inl Exit
      else
        (let s = (if unat (dbucket_rough_index (sysg s)) > max_buckets \<and> \<not> sg_lock (sysg s)
                  then upd_sysg (\<lambda>g. g\<lparr>dbucket_rough_index :=
                         of_nat (unat (dbucket_rough_index g) mod max_buckets)\<rparr>) s
                  else s);
             steps_read = dbucket_steps (sysg s)
         in andthen (if int (unat (dbuckets_in_use (sysg s))) = int DATA_BUCKETS_STEP * steps_read
                     then try_create_step steps_read s else Inr s)
              (traverse_current_buckets (Suc MAX_DATA_BUCKETS_STEPS))))"

section \<open>The allocation functions and their selection\<close>

definition ret_ix :: "(nat \<times> 'z dstate_scheme) res \<Rightarrow> (u32 \<times> 'z dstate_scheme) res" where
  "ret_ix m = andthen m (\<lambda>(j, s). Inr (of_nat j, s))"

definition bucket_ix_alloc_steps :: "'z dstate_scheme \<Rightarrow> (u32 \<times> 'z dstate_scheme) res" where
  "bucket_ix_alloc_steps s = andthen (alloc_walk_steps s) (\<lambda>((ix, p), s). Inr (ix, s))"

definition bucket_ptr_alloc_steps :: "'z dstate_scheme \<Rightarrow> (nat \<times> 'z dstate_scheme) res" where
  "bucket_ptr_alloc_steps s = andthen (alloc_walk_steps s) (\<lambda>((ix, p), s). Inr (p, s))"

definition bucket_ix_alloc_all_random :: "'z dstate_scheme \<Rightarrow> (u32 \<times> 'z dstate_scheme) res" where
  "bucket_ix_alloc_all_random s = ret_ix (alloc_walk_random s)"

definition bucket_ptr_alloc_all_random :: "'z dstate_scheme \<Rightarrow> (nat \<times> 'z dstate_scheme) res" where
  "bucket_ptr_alloc_all_random s = alloc_walk_random s"

definition bucket_ix_alloc_all_rough_ind :: "'z dstate_scheme \<Rightarrow> (u32 \<times> 'z dstate_scheme) res" where
  "bucket_ix_alloc_all_rough_ind s = ret_ix (alloc_walk_rough_ind s)"

definition bucket_ptr_alloc_all_rough_ind :: "'z dstate_scheme \<Rightarrow> (nat \<times> 'z dstate_scheme) res" where
  "bucket_ptr_alloc_all_rough_ind s = alloc_walk_rough_ind s"

definition bucket_ix_alloc_all_per_core_random :: "'z dstate_scheme \<Rightarrow> (u32 \<times> 'z dstate_scheme) res" where
  "bucket_ix_alloc_all_per_core_random s = ret_ix (alloc_walk_per_core_random s)"

definition bucket_ptr_alloc_all_per_core_random :: "'z dstate_scheme \<Rightarrow> (nat \<times> 'z dstate_scheme) res" where
  "bucket_ptr_alloc_all_per_core_random s = alloc_walk_per_core_random s"

definition bucket_ix_alloc_all_per_core_rough_ind :: "'z dstate_scheme \<Rightarrow> (u32 \<times> 'z dstate_scheme) res" where
  "bucket_ix_alloc_all_per_core_rough_ind s = ret_ix (alloc_walk_per_core_rough_ind s)"

definition bucket_ptr_alloc_all_per_core_rough_ind :: "'z dstate_scheme \<Rightarrow> (nat \<times> 'z dstate_scheme) res" where
  "bucket_ptr_alloc_all_per_core_rough_ind s = alloc_walk_per_core_rough_ind s"

text \<open>The arrays of function pointers, indexed by \<open>alloc_method_ind\<close>.\<close>

definition get_free_dbucket_ix :: "'z dstate_scheme \<Rightarrow> (u32 \<times> 'z dstate_scheme) res" where
  "get_free_dbucket_ix s =
     (if alloc_method_ind s = 0 then bucket_ix_alloc_steps s
      else if alloc_method_ind s = 1 then bucket_ix_alloc_all_random s
      else if alloc_method_ind s = 2 then bucket_ix_alloc_all_rough_ind s
      else if alloc_method_ind s = 3 then bucket_ix_alloc_all_per_core_random s
      else if alloc_method_ind s = 4 then bucket_ix_alloc_all_per_core_rough_ind s
      else Inl Fault)"

definition get_free_dbucket_ptr :: "'z dstate_scheme \<Rightarrow> (nat \<times> 'z dstate_scheme) res" where
  "get_free_dbucket_ptr s =
     (if alloc_method_ind s = 0 then bucket_ptr_alloc_steps s
      else if alloc_method_ind s = 1 then bucket_ptr_alloc_all_random s
      else if alloc_method_ind s = 2 then bucket_ptr_alloc_all_rough_ind s
      else if alloc_method_ind s = 3 then bucket_ptr_alloc_all_per_core_random s
      else if alloc_method_ind s = 4 then bucket_ptr_alloc_all_per_core_rough_ind s
      else Inl Fault)"


section \<open>Stores and frames\<close>

lemma upd_db_sel [simp, ufs_store]:
  "dbs (upd_db p f s) = (dbs s)(p := f (dbs s p))"
  "sysg (upd_db p f s) = sysg s"
  "segs (upd_db p f s) = segs s"
  "data_steps (upd_db p f s) = data_steps s"
  "alloc_method_ind (upd_db p f s) = alloc_method_ind s"
  "rand_src (upd_db p f s) = rand_src s"
  "rand_pos (upd_db p f s) = rand_pos s"
  "cpu_src (upd_db p f s) = cpu_src s"
  "cmem (upd_db p f s) = cmem s"
  "cores_seg (upd_db p f s) = cores_seg s"
  "cmem_mapped (upd_db p f s) = cmem_mapped s"
  "last_core_num (upd_db p f s) = last_core_num s"
  "last_core_ix (upd_db p f s) = last_core_ix s"
  "dstate.more (upd_db p f s) = dstate.more s"
  by (simp_all add: upd_db_def)

lemma upd_sysg_sel [simp, ufs_store]:
  "sysg (upd_sysg g s) = g (sysg s)"
  "dbs (upd_sysg g s) = dbs s"
  "segs (upd_sysg g s) = segs s"
  "data_steps (upd_sysg g s) = data_steps s"
  "alloc_method_ind (upd_sysg g s) = alloc_method_ind s"
  "rand_src (upd_sysg g s) = rand_src s"
  "rand_pos (upd_sysg g s) = rand_pos s"
  "cpu_src (upd_sysg g s) = cpu_src s"
  "cmem (upd_sysg g s) = cmem s"
  "cores_seg (upd_sysg g s) = cores_seg s"
  "cmem_mapped (upd_sysg g s) = cmem_mapped s"
  "last_core_num (upd_sysg g s) = last_core_num s"
  "last_core_ix (upd_sysg g s) = last_core_ix s"
  "dstate.more (upd_sysg g s) = dstate.more s"
  by (simp_all add: upd_sysg_def)

lemma upd_core_sel [simp, ufs_store]:
  "cmem (upd_core i f s) = (cmem s)(i := f (cmem s i))"
  "dbs (upd_core i f s) = dbs s"
  "sysg (upd_core i f s) = sysg s"
  "segs (upd_core i f s) = segs s"
  "data_steps (upd_core i f s) = data_steps s"
  "alloc_method_ind (upd_core i f s) = alloc_method_ind s"
  "cpu_src (upd_core i f s) = cpu_src s"
  "cores_seg (upd_core i f s) = cores_seg s"
  "cmem_mapped (upd_core i f s) = cmem_mapped s"
  "last_core_num (upd_core i f s) = last_core_num s"
  "last_core_ix (upd_core i f s) = last_core_ix s"
  "dstate.more (upd_core i f s) = dstate.more s"
  by (simp_all add: upd_core_def)

text \<open>The invariant of the bucket array: every existing step is mapped, no bucket is locked
  between calls, and a free bucket is empty and unlinked.\<close>

definition live :: "'z dstate_scheme \<Rightarrow> nat" where
  "live s = DATA_BUCKETS_STEP * nat (dbucket_steps (sysg s))"

definition dinv :: "'z dstate_scheme \<Rightarrow> bool" where
  "dinv s \<longleftrightarrow>
     1 \<le> dbucket_steps (sysg s) \<and> dbucket_steps (sysg s) \<le> int MAX_DATA_BUCKETS_STEPS \<and>
     (\<forall>k. int k < dbucket_steps (sysg s) \<longrightarrow> segs s k \<and> data_steps s k) \<and>
     (\<forall>p < live s. \<not> db_lock (dbs s p) \<and>
        (\<not> db_in_use (dbs s p) \<longrightarrow> db_next_ix (dbs s p) = - 1 \<and> db_bytes (dbs s p) = 0))"

lemma dinv_mapped: "dinv s \<Longrightarrow> p < live s \<Longrightarrow> data_steps s (p div DATA_BUCKETS_STEP)"
proof -
  assume inv: "dinv s" and p: "p < live s"
  have "p div DATA_BUCKETS_STEP < nat (dbucket_steps (sysg s))"
    using p by (simp add: live_def less_mult_imp_div_less mult.commute)
  then show ?thesis using inv by (simp add: dinv_def)
qed

lemma live_bound: "dinv s \<Longrightarrow> live s \<le> 524288"
  by (auto simp: dinv_def live_def ufs_config)

lemma live_not_nil: "dinv s \<Longrightarrow> unat ix < live s \<Longrightarrow> ix \<noteq> (nil_ix :: u32)"
  using live_bound [of s] by auto

lemma unat_of_live: "dinv s \<Longrightarrow> p < live s \<Longrightarrow> unat (of_nat p :: u32) = p"
  using live_bound [of s] by (simp add: unat_of_nat_u32)

lemma get_dbucket_ptr_live:
  assumes "dinv s" "unat ix < live s"
  shows "get_dbucket_ptr ix s = Inr (unat ix, s)"
proof -
  have "unat ix div DATA_BUCKETS_STEP < nat (dbucket_steps (sysg s))"
    using assms(2) by (simp add: live_def less_mult_imp_div_less mult.commute)
  then show ?thesis
    using dinv_mapped [OF assms] by (simp add: get_dbucket_ptr_def Let_def)
qed

lemma get_dbucket_ptr_nil:
  assumes "dinv s"
  shows "get_dbucket_ptr nil_ix s = Inl Exit"
  using assms by (simp add: get_dbucket_ptr_def dinv_def ufs_config)

section \<open>The walk\<close>

definition db_free :: "data_bucket \<Rightarrow> bool" where
  "db_free db \<longleftrightarrow> \<not> db_in_use db \<and> \<not> db_lock db"

lemma claim_dbucket_eq:
  "claim_dbucket db = (if db_free db then (True, db\<lparr>db_in_use := True\<rparr>) else (False, db))"
  by (cases db) (simp add: claim_dbucket_def db_free_def)

lemma walk_dbuckets_find:
  assumes "\<And>k. i \<le> k \<Longrightarrow> k < n \<Longrightarrow> data_steps s (idx k div DATA_BUCKETS_STEP)"
  shows "walk_dbuckets idx n i s =
    (case find (\<lambda>k. db_free (dbs s (idx k))) [i ..< n] of
       None \<Rightarrow> Inr (None, s)
     | Some k \<Rightarrow> Inr (Some (idx k), upd_db (idx k) (\<lambda>db. db\<lparr>db_in_use := True\<rparr>) s))"
  using assms
proof (induction idx n i s rule: walk_dbuckets.induct)
  case (1 idx n i s)
  show ?case
  proof (cases "i < n")
    case True
    then have upt: "[i ..< n] = i # [Suc i ..< n]" by (simp add: upt_conv_Cons)
    have mapped: "data_steps s (idx i div DATA_BUCKETS_STEP)" using "1.prems" True by simp
    show ?thesis
    proof (cases "db_free (dbs s (idx i))")
      case True
      then show ?thesis using \<open>i < n\<close> mapped upt
        by (subst walk_dbuckets.simps) (simp add: claim_dbucket_eq upd_db_def Let_def)
    next
      case False
      then have "walk_dbuckets idx n i s = walk_dbuckets idx n (Suc i) s"
        using \<open>i < n\<close> mapped by (subst walk_dbuckets.simps) (simp add: claim_dbucket_eq)
      moreover have "walk_dbuckets idx n (Suc i) s =
        (case find (\<lambda>k. db_free (dbs s (idx k))) [Suc i ..< n] of None \<Rightarrow> Inr (None, s)
         | Some k \<Rightarrow> Inr (Some (idx k), upd_db (idx k) (\<lambda>db. db\<lparr>db_in_use := True\<rparr>) s))"
        using "1.IH" [OF \<open>i < n\<close> refl, of False "dbs s (idx i)"] mapped False "1.prems"
        by (simp add: claim_dbucket_eq)
      ultimately show ?thesis using False upt by simp
    qed
  next
    case False
    then show ?thesis by (subst walk_dbuckets.simps) simp
  qed
qed

text \<open>What a walk promises, for any loop counter-to-bucket function that runs over a range:
  it takes a free bucket of the range, and gives up only when there is none.\<close>

locale free_walk =
  fixes idx :: "nat \<Rightarrow> nat" and n lo hi :: nat
  assumes idx_range: "i < n \<Longrightarrow> lo \<le> idx i \<and> idx i < hi"
    and idx_onto: "lo \<le> j \<Longrightarrow> j < hi \<Longrightarrow> \<exists>i<n. idx i = j"
begin

lemma walk_mapped:
  assumes "dinv s" "hi \<le> live s" "k < n"
  shows "data_steps s (idx k div DATA_BUCKETS_STEP)"
  using assms idx_range [of k] by (intro dinv_mapped) auto

lemma walk_takes:
  assumes "dinv s" "hi \<le> live s" "walk_dbuckets idx n 0 s = Inr (Some j, s')"
  shows "lo \<le> j \<and> j < hi \<and> \<not> db_in_use (dbs s j) \<and>
    s' = upd_db j (\<lambda>db. db\<lparr>db_in_use := True\<rparr>) s"
proof -
  from assms(3) obtain k where k: "find (\<lambda>k. db_free (dbs s (idx k))) [0 ..< n] = Some k"
    and j: "j = idx k" "s' = upd_db (idx k) (\<lambda>db. db\<lparr>db_in_use := True\<rparr>) s"
    using walk_mapped [OF assms(1,2)]
    by (auto simp: walk_dbuckets_find split: option.splits)
  from k have "k < n" "db_free (dbs s (idx k))"
    by (auto simp: find_Some_iff)
  then show ?thesis using idx_range [of k] j by (auto simp: db_free_def)
qed

lemma walk_none:
  assumes "dinv s" "hi \<le> live s" "walk_dbuckets idx n 0 s = Inr (None, s')" "lo \<le> j" "j < hi"
  shows "db_in_use (dbs s j)"
proof -
  obtain i where "i < n" "idx i = j" using idx_onto assms(4,5) by blast
  moreover from assms(3) have "find (\<lambda>k. db_free (dbs s (idx k))) [0 ..< n] = None"
    using walk_mapped [OF assms(1,2)]
    by (auto simp: walk_dbuckets_find split: option.splits)
  ultimately have "\<not> db_free (dbs s j)" by (auto simp: find_None_iff)
  then show ?thesis using assms by (auto simp: db_free_def dinv_def)
qed

lemma walk_returns:
  assumes "dinv s" "hi \<le> live s"
  shows "\<exists>r s'. walk_dbuckets idx n 0 s = Inr (r, s')"
  using walk_mapped [OF assms] by (auto simp: walk_dbuckets_find split: option.splits)

lemma walk_none_state:
  assumes "dinv s" "hi \<le> live s" "walk_dbuckets idx n 0 s = Inr (None, s')"
  shows "s' = s"
  using assms(3) walk_mapped [OF assms(1,2)]
  by (auto simp: walk_dbuckets_find split: option.splits)

end

lemma rotation_onto:
  assumes "x < n"
  shows "\<exists>i<n. (d + i) mod n = (x :: nat)"
proof -
  let ?i = "(x + (n - d mod n)) mod n"
  have n: "0 < n" using assms by simp
  have "(d + ?i) mod n = (d mod n + (x + (n - d mod n))) mod n"
    by (simp add: mod_simps)
  also have "d mod n + (x + (n - d mod n)) = x + n"
    using n mod_less_divisor [of n d] by linarith
  finally show ?thesis using assms n by (intro exI [of _ ?i]) simp
qed

text \<open>Every allocator's loop is a rotation of a range of buckets.\<close>

interpretation rot: free_walk "\<lambda>i. (d + i) mod n + lo" n lo "n + lo" for d n lo
proof
  fix i assume "i < n"
  then show "lo \<le> (d + i) mod n + lo \<and> (d + i) mod n + lo < n + lo" by simp
next
  fix j assume "lo \<le> j" "j < n + lo"
  then have "j - lo < n" by linarith
  then obtain i where "i < n" "(d + i) mod n = j - lo" using rotation_onto [of "j - lo" n d] by auto
  then show "\<exists>i<n. (d + i) mod n + lo = j" using \<open>lo \<le> j\<close> by auto
qed

lemmas rot0 = rot.walk_takes [where lo = 0, simplified] rot.walk_none [where lo = 0, simplified]
  rot.walk_returns [where lo = 0, simplified]

section \<open>What an allocator promises\<close>

text \<open>\<open>takes s j s'\<close>: from \<open>s\<close> to \<open>s'\<close> bucket \<open>j\<close> went from free to in use, and nothing else of
  the bucket array, of the mappings or of the rest of the memory changed.\<close>

definition takes :: "'z dstate_scheme \<Rightarrow> nat \<Rightarrow> 'z dstate_scheme \<Rightarrow> bool" where
  "takes s j s' \<longleftrightarrow>
     \<not> db_in_use (dbs s j) \<and>
     dbs s' = (dbs s)(j := (dbs s j)\<lparr>db_in_use := True\<rparr>) \<and>
     segs s' = segs s \<and> data_steps s' = data_steps s \<and>
     dbucket_steps (sysg s') = dbucket_steps (sysg s) \<and>
     ncores (sysg s') = ncores (sysg s) \<and>
     dbuckets_in_use (sysg s') = dbuckets_in_use (sysg s) \<and>
     alloc_method_ind s' = alloc_method_ind s \<and>
     cpu_src s' = cpu_src s \<and>
     (cores_seg s' = cores_seg s) \<and>
     dstate.more s' = dstate.more s"

lemma takes_live: "takes s j s' \<Longrightarrow> live s' = live s"
  by (simp add: takes_def live_def)

lemma takes_dinv:
  assumes "dinv s" "takes s j s'"
  shows "dinv s'"
  using assms takes_live [OF assms(2)] by (simp add: dinv_def takes_def)

text \<open>The state between calls, for the four allocators that create every step at start-up:
  all steps exist, and for the per-core ones the core block is there and the cached slot of
  the last CPU is a slot of it. \<open>sched_getcpu\<close> does not fail.\<close>

definition core_inv :: "'z dstate_scheme \<Rightarrow> bool" where
  "core_inv s \<longleftrightarrow>
     1 \<le> ncores (sysg s) \<and> ncores (sysg s) \<le> int tot_buckets \<and> cores_seg s \<and>
     (\<forall>k. 0 \<le> cpu_src s k) \<and>
     (last_core_num s = - 1 \<or> 0 \<le> last_core_ix s \<and> last_core_ix s < ncores (sysg s))"

definition alloc_inv :: "'z dstate_scheme \<Rightarrow> bool" where
  "alloc_inv s \<longleftrightarrow>
     dinv s \<and> dbucket_steps (sysg s) = int TOTAL_STEPS_ALLOWED \<and>
     1 \<le> alloc_method_ind s \<and> alloc_method_ind s \<le> 4 \<and>
     (3 \<le> alloc_method_ind s \<longrightarrow> core_inv s)"

lemma alloc_inv_live: "alloc_inv s \<Longrightarrow> live s = tot_buckets"
  by (simp add: alloc_inv_def live_def tot_buckets_def)

lemma tot_buckets_pos [simp]: "0 < tot_buckets"
  by (simp add: tot_buckets_def ufs_config)

lemma tot_buckets_u32: "tot_buckets < 4294967296"
  by (simp add: tot_buckets_def ufs_config)

lemma next_rand_sel [simp]:
  "next_rand s = (r, s') \<Longrightarrow> s' = s\<lparr>rand_pos := Suc (rand_pos s)\<rparr>"
  by (simp add: next_rand_def)

lemma dinv_rand_pos [simp]: "dinv (s\<lparr>rand_pos := k\<rparr>) = dinv s"
  by (simp add: dinv_def live_def)

lemma live_rand_pos [simp]: "live (s\<lparr>rand_pos := k\<rparr>) = live s"
  by (simp add: live_def)

lemma dinv_upd_sysg:
  assumes "\<And>g. dbucket_steps (f g) = dbucket_steps g"
  shows "dinv (upd_sysg f s) = dinv s" "live (upd_sysg f s) = live s"
  using assms by (simp_all add: dinv_def live_def)

lemma dinv_upd_core [simp]: "dinv (upd_core i f s) = dinv s" "live (upd_core i f s) = live s"
  by (simp_all add: dinv_def live_def)

text \<open>Results of the random and the rough-index walk over the whole array.\<close>

lemma alloc_walk_random_takes:
  assumes "dinv s" "live s = tot_buckets" "alloc_walk_random s = Inr (j, s')"
  shows "j < tot_buckets \<and> takes s j s' \<and> core_inv s' = core_inv s"
proof -
  let ?s = "s\<lparr>rand_pos := Suc (rand_pos s)\<rparr>"
  let ?d = "rand_src s (rand_pos s) mod 2 ^ 31 mod tot_buckets"
  from assms(3) have "walk_dbuckets (\<lambda>i. (?d + i) mod tot_buckets) tot_buckets 0 ?s = Inr (Some j, s')"
    by (auto simp: alloc_walk_random_def next_rand_def andthen_eq_Inr Let_def
        split: if_splits option.splits)
  from rot0(1) [OF _ _ this] assms(1,2) show ?thesis
    by (simp add: takes_def core_inv_def)
qed

lemma alloc_walk_random_exit:
  assumes "dinv s" "live s = tot_buckets" "alloc_walk_random s = Inl e"
  shows "e = Exit \<and>
    (unat (dbuckets_in_use (sysg s)) = tot_buckets \<or> (\<forall>j < tot_buckets. db_in_use (dbs s j)))"
proof -
  let ?s = "s\<lparr>rand_pos := Suc (rand_pos s)\<rparr>"
  let ?d = "rand_src s (rand_pos s) mod 2 ^ 31 mod tot_buckets"
  let ?w = "walk_dbuckets (\<lambda>i. (?d + i) mod tot_buckets) tot_buckets 0 ?s"
  obtain r t where w: "?w = Inr (r, t)"
    using rot0(3) [of ?s tot_buckets ?d] assms(1,2) by auto
  show ?thesis
  proof (cases "unat (dbuckets_in_use (sysg s)) = tot_buckets")
    case True
    then show ?thesis using assms(3) by (simp add: alloc_walk_random_def)
  next
    case False
    with assms(3) w have "r = None" "e = Exit"
      by (auto simp: alloc_walk_random_def next_rand_def Let_def split: option.splits)
    moreover from \<open>r = None\<close> w have "db_in_use (dbs s j)" if "j < tot_buckets" for j
      using rot0(2) [of ?s tot_buckets ?d t j] assms(1,2) that by simp
    ultimately show ?thesis by blast
  qed
qed

lemma alloc_walk_rough_ind_takes:
  assumes "dinv s" "live s = tot_buckets" "alloc_walk_rough_ind s = Inr (j, s')"
  shows "j < tot_buckets \<and> takes s j s' \<and> core_inv s' = core_inv s"
proof -
  let ?s = "if unat (dbucket_rough_index (sysg s)) \<ge> tot_buckets
               then upd_sysg (\<lambda>g. g\<lparr>dbucket_rough_index :=
                      of_nat (unat (dbucket_rough_index g) mod tot_buckets)\<rparr>) s else s"
  let ?d = "unat (dbucket_rough_index (sysg ?s))"
  from assms(3) obtain t where w: "walk_dbuckets (\<lambda>i. (?d + i) mod tot_buckets) tot_buckets 0 ?s = Inr (Some j, t)"
    and s': "s' = upd_sysg (\<lambda>g. g\<lparr>dbucket_rough_index := of_nat j\<rparr>) t"
    by (auto simp: alloc_walk_rough_ind_def andthen_eq_Inr Let_def split: option.splits)
  have "dinv ?s" "live ?s = tot_buckets" "dbs ?s = dbs s"
    using assms(1,2) by (simp_all add: dinv_upd_sysg)
  from rot0(1) [OF this(1) _ w] this(2,3) show ?thesis
    unfolding s' by (auto simp: takes_def core_inv_def)
qed

lemma alloc_walk_rough_ind_exit:
  assumes "dinv s" "live s = tot_buckets" "alloc_walk_rough_ind s = Inl e"
  shows "e = Exit \<and> (\<forall>j < tot_buckets. db_in_use (dbs s j))"
proof -
  let ?s = "if unat (dbucket_rough_index (sysg s)) \<ge> tot_buckets
               then upd_sysg (\<lambda>g. g\<lparr>dbucket_rough_index :=
                      of_nat (unat (dbucket_rough_index g) mod tot_buckets)\<rparr>) s else s"
  let ?d = "unat (dbucket_rough_index (sysg ?s))"
  have inv: "dinv ?s" "live ?s = tot_buckets" "dbs ?s = dbs s"
    using assms(1,2) by (simp_all add: dinv_upd_sysg)
  obtain r t where w: "walk_dbuckets (\<lambda>i. (?d + i) mod tot_buckets) tot_buckets 0 ?s = Inr (r, t)"
    using rot0(3) [OF inv(1), of tot_buckets ?d] inv(2) by auto
  with assms(3) have "r = None" "e = Exit"
    by (auto simp: alloc_walk_rough_ind_def Let_def split: option.splits)
  with rot0(2) [OF inv(1), of tot_buckets ?d t] w inv(2,3) show ?thesis by auto
qed

text \<open>The per-core allocators: the slot found belongs to the core block, and the slice of
  buckets that belongs to it lies inside the array.\<close>

lemma walk_cores_result:
  "walk_cores cnum i s = (r, s') \<Longrightarrow>
     (case r of Some k \<Rightarrow> i \<le> k \<and> int k < ncores (sysg s) \<and>
          cs_in_use (cmem s' k) \<and> core_n (cmem s' k) = cnum
      | None \<Rightarrow> True) \<and> (\<exists>c. s' = s\<lparr>cmem := c\<rparr>)"
proof (induction cnum i s arbitrary: r s' rule: walk_cores.induct)
  case (1 cnum i s)
  have self: "\<exists>c. s = s\<lparr>cmem := c\<rparr>" by (rule exI [of _ "cmem s"]) simp
  show ?case
  proof (cases "int i < ncores (sysg s)")
    case False
    with "1.prems" self show ?thesis by (subst (asm) walk_cores.simps) auto
  next
    case True
    show ?thesis
    proof (cases "cs_in_use (cmem s i) \<and> core_n (cmem s i) = cnum \<or>
        \<not> cs_in_use (cmem s i) \<and> \<not> cs_lock (cmem s i)")
      case True
      with "1.prems" \<open>int i < ncores (sysg s)\<close> self show ?thesis
        by (subst (asm) walk_cores.simps) (auto simp: upd_core_def)
    next
      case False
      with "1.prems" \<open>int i < ncores (sysg s)\<close> have "walk_cores cnum (Suc i) s = (r, s')"
        by (subst (asm) walk_cores.simps) (auto split: if_splits)
      note rest = this
      have "(case r of Some k \<Rightarrow> Suc i \<le> k \<and> int k < ncores (sysg s) \<and>
          cs_in_use (cmem s' k) \<and> core_n (cmem s' k) = cnum
        | None \<Rightarrow> True) \<and> (\<exists>c. s' = s\<lparr>cmem := c\<rparr>)"
      proof (cases "cs_in_use (cmem s i)")
        case True
        with False show ?thesis
          using "1.IH"(1) [OF \<open>int i < ncores (sysg s)\<close> _ _ rest] by blast
      next
        case False
        with \<open>\<not> (cs_in_use (cmem s i) \<and> core_n (cmem s i) = cnum \<or>
          \<not> cs_in_use (cmem s i) \<and> \<not> cs_lock (cmem s i))\<close> show ?thesis
          using "1.IH"(2) [OF \<open>int i < ncores (sysg s)\<close> _ _ rest] by blast
      qed
      then show ?thesis by (cases r) auto
    qed
  qed
qed

lemma get_set_core_index_result:
  assumes "core_inv s" "get_set_core_index s = Inr (c, s')"
  shows "0 \<le> c \<and> c < ncores (sysg s) \<and> core_inv s' \<and>
    dbs s' = dbs s \<and> sysg s' = sysg s \<and> segs s' = segs s \<and> data_steps s' = data_steps s \<and>
    alloc_method_ind s' = alloc_method_ind s \<and> cpu_src s' = cpu_src s \<and>
    cores_seg s' = cores_seg s \<and> dstate.more s' = dstate.more s"
proof -
  let ?s = "(if cmem_mapped s then s else s\<lparr>cmem_mapped := True\<rparr>)\<lparr>cpu_pos := Suc (cpu_pos s)\<rparr>"
  let ?cnum = "cpu_src s (cpu_pos s)"
  have res: "get_set_core_index s =
    (if ?cnum = last_core_num s then Inr (last_core_ix s, ?s)
     else case walk_cores ?cnum 0 ?s of (res, t) \<Rightarrow>
       (case res of None \<Rightarrow> Inl Exit
        | Some i \<Rightarrow> Inr (int i, t\<lparr>last_core_ix := int i, last_core_num := ?cnum\<rparr>)))"
    using assms(1)
    by (cases "cmem_mapped s") (simp_all add: get_set_core_index_def core_inv_def sched_getcpu_def
        split: prod.split option.split)
  have cpu: "0 \<le> ?cnum" using assms(1) by (simp add: core_inv_def)
  show ?thesis
  proof (cases "?cnum = last_core_num s")
    case True
    with res assms cpu show ?thesis by (auto simp: core_inv_def)
  next
    case False
    with res assms(2) obtain k t where w: "walk_cores ?cnum 0 ?s = (Some k, t)"
      and k: "c = int k" "s' = t\<lparr>last_core_ix := int k, last_core_num := ?cnum\<rparr>"
      by (auto split: prod.splits option.splits)
    from walk_cores_result [OF w] obtain m where "int k < ncores (sysg s)" "t = ?s\<lparr>cmem := m\<rparr>"
      by (auto split: if_splits)
    with assms(1) k show ?thesis by (auto simp: core_inv_def)
  qed
qed

lemma get_set_core_index_exit:
  assumes "core_inv s" "get_set_core_index s = Inl e"
  shows "e = Exit"
  using assms
  by (auto simp: get_set_core_index_def core_inv_def andthen_eq_Inl
      split: if_splits prod.splits option.splits)

lemma core_slice:
  assumes "core_inv s" "0 \<le> c" "c < ncores (sysg s)" "bkts_per_core s = Inr b"
  shows "0 < b \<and> nat ((int b * c) mod 2 ^ 32) = b * nat c \<and> b + b * nat c \<le> tot_buckets"
proof -
  let ?n = "nat (ncores (sysg s))"
  have n: "0 < ?n" "?n \<le> tot_buckets" using assms(1) by (auto simp: core_inv_def)
  then have "ncores (sysg s) mod 2 ^ 32 = ncores (sysg s)"
    using tot_buckets_u32 assms(1) by (simp add: core_inv_def)
  with assms(4) have b: "b = tot_buckets div ?n" "0 < b"
    by (auto simp: bkts_per_core_def Let_def split: if_splits)
  have "nat c + 1 \<le> ?n" using assms(2,3) by linarith
  then have "b * (nat c + 1) \<le> b * ?n" by (rule mult_le_mono2)
  also have "\<dots> \<le> tot_buckets" using b(1) by (simp add: div_times_less_eq_dividend)
  finally have fits: "b + b * nat c \<le> tot_buckets" by simp
  then have "b * nat c < 2 ^ 32" using tot_buckets_u32 b(2) by simp
  moreover have "int b * c = int (b * nat c)" using assms(2) by simp
  ultimately have "nat ((int b * c) mod 2 ^ 32) = b * nat c"
    by (metis nat_int of_nat_mod of_nat_numeral of_nat_power mod_less)
  with b(2) fits show ?thesis by blast
qed

lemma bkts_per_core_ok: "core_inv s \<Longrightarrow> \<exists>b. bkts_per_core s = Inr b"
  using tot_buckets_u32
  by (auto simp: bkts_per_core_def core_inv_def Let_def div_eq_0_iff)

lemma alloc_walk_per_core_random_takes:
  assumes "dinv s" "live s = tot_buckets" "core_inv s" "alloc_walk_per_core_random s = Inr (j, s')"
  shows "j < tot_buckets \<and> takes s j s' \<and> core_inv s' \<and>
    (\<forall>c t b. get_set_core_index s = Inr (c, t) \<longrightarrow> bkts_per_core t = Inr b \<longrightarrow>
       b * nat c \<le> j \<and> j < b * nat c + b)"
proof -
  from assms(4) obtain c t b where c: "get_set_core_index s = Inr (c, t)" "bkts_per_core t = Inr b"
    and w: "walk_dbuckets (\<lambda>i. (rand_src t (rand_pos t) mod 2 ^ 31 mod b + i) mod b
        + nat ((int b * c) mod 2 ^ 32)) b 0 (t\<lparr>rand_pos := Suc (rand_pos t)\<rparr>) = Inr (Some j, s')"
    by (auto simp: alloc_walk_per_core_random_def next_rand_def andthen_eq_Inr Let_def
        split: option.splits)
  note core = get_set_core_index_result [OF assms(3) c(1)]
  then have t: "dinv t" "live t = tot_buckets" using assms(1,2) by (simp_all add: dinv_def live_def)
  have slice: "nat ((int b * c) mod 2 ^ 32) = b * nat c" "b + b * nat c \<le> tot_buckets"
    using core_slice [of t c b] core c(2) by simp_all
  from rot.walk_takes [OF _ _ w [unfolded slice(1)]] t slice(2) core c show ?thesis
    by (auto simp: takes_def core_inv_def)
qed

lemma alloc_walk_per_core_random_exit:
  assumes "dinv s" "live s = tot_buckets" "core_inv s" "alloc_walk_per_core_random s = Inl e"
  shows "e = Exit"
proof (cases "get_set_core_index s")
  case (Inl e')
  with assms(3,4) show ?thesis
    using get_set_core_index_exit [OF assms(3)] by (simp add: alloc_walk_per_core_random_def)
next
  case (Inr ct)
  obtain c t where ct: "ct = (c, t)" by (cases ct)
  with Inr have c: "get_set_core_index s = Inr (c, t)" by simp
  note core = get_set_core_index_result [OF assms(3) c]
  then have t: "dinv t" "live t = tot_buckets" using assms(1,2) by (simp_all add: dinv_def live_def)
  obtain b where b: "bkts_per_core t = Inr b" using bkts_per_core_ok core by blast
  have slice: "nat ((int b * c) mod 2 ^ 32) = b * nat c" "b + b * nat c \<le> tot_buckets"
    using core_slice [of t c b] core b by simp_all
  obtain r u where "walk_dbuckets (\<lambda>i. (rand_src t (rand_pos t) mod 2 ^ 31 mod b + i) mod b + b * nat c)
      b 0 (t\<lparr>rand_pos := Suc (rand_pos t)\<rparr>) = Inr (r, u)"
    using rot.walk_returns [of "t\<lparr>rand_pos := Suc (rand_pos t)\<rparr>" b "b * nat c"
        "rand_src t (rand_pos t) mod 2 ^ 31 mod b"] t slice(2) by auto
  with assms(4) c b slice(1) show ?thesis
    by (auto simp: alloc_walk_per_core_random_def next_rand_def Let_def split: option.splits)
qed

text \<open>The reduction of the slot's rough index before the loop.\<close>

definition core_wrap :: "nat \<Rightarrow> nat \<Rightarrow> 'z dstate_scheme \<Rightarrow> 'z dstate_scheme" where
  "core_wrap c b s =
     (if unat (rough_ind (cmem s c)) \<ge> b
      then upd_core c (\<lambda>k. k\<lparr>rough_ind := of_nat (unat (rough_ind k) mod b)\<rparr>) s else s)"

lemma core_wrap_sel [simp]:
  "dbs (core_wrap c b s) = dbs s" "sysg (core_wrap c b s) = sysg s"
  "segs (core_wrap c b s) = segs s" "data_steps (core_wrap c b s) = data_steps s"
  "alloc_method_ind (core_wrap c b s) = alloc_method_ind s" "cpu_src (core_wrap c b s) = cpu_src s"
  "cores_seg (core_wrap c b s) = cores_seg s" "last_core_num (core_wrap c b s) = last_core_num s"
  "last_core_ix (core_wrap c b s) = last_core_ix s" "dstate.more (core_wrap c b s) = dstate.more s"
  "dinv (core_wrap c b s) = dinv s" "live (core_wrap c b s) = live s"
  by (simp_all add: core_wrap_def)

lemma alloc_walk_per_core_rough_ind_takes:
  assumes "dinv s" "live s = tot_buckets" "core_inv s" "alloc_walk_per_core_rough_ind s = Inr (j, s')"
  shows "j < tot_buckets \<and> takes s j s' \<and> core_inv s' \<and>
    (\<forall>c t b. get_set_core_index s = Inr (c, t) \<longrightarrow> bkts_per_core t = Inr b \<longrightarrow>
       b * nat c \<le> j \<and> j < b * nat c + b)"
proof -
  from assms(4) obtain c t b where c: "get_set_core_index s = Inr (c, t)" "bkts_per_core t = Inr b"
    by (auto simp: alloc_walk_per_core_rough_ind_def andthen_eq_Inr)
  note core = get_set_core_index_result [OF assms(3) c(1)]
  then have t: "dinv t" "live t = tot_buckets" using assms(1,2) by (simp_all add: dinv_def live_def)
  have slice: "nat ((int b * c) mod 2 ^ 32) = b * nat c" "b + b * nat c \<le> tot_buckets"
    using core_slice [of t c b] core c(2) by simp_all
  let ?t = "core_wrap (nat c) b t"
  let ?d = "unat (rough_ind (cmem ?t (nat c)))"
  from assms(4) c core slice(1) obtain u where
      w: "walk_dbuckets (\<lambda>i. (?d + i) mod b + b * nat c) b 0 ?t = Inr (Some j, u)"
    and s': "s' = upd_core (nat c) (\<lambda>k. k\<lparr>rough_ind := of_nat (j - b * nat c)\<rparr>) u"
    by (auto simp: alloc_walk_per_core_rough_ind_def core_wrap_def [symmetric] andthen_eq_Inr Let_def
        split: option.splits)
  from rot.walk_takes [OF _ _ w] t slice(2) core c show ?thesis
    unfolding s' by (auto simp: takes_def core_inv_def)
qed

lemma alloc_walk_per_core_rough_ind_exit:
  assumes "dinv s" "live s = tot_buckets" "core_inv s" "alloc_walk_per_core_rough_ind s = Inl e"
  shows "e = Exit"
proof (cases "get_set_core_index s")
  case (Inl e')
  with assms(3,4) show ?thesis
    using get_set_core_index_exit [OF assms(3)] by (simp add: alloc_walk_per_core_rough_ind_def)
next
  case (Inr ct)
  obtain c t where ct: "ct = (c, t)" by (cases ct)
  with Inr have c: "get_set_core_index s = Inr (c, t)" by simp
  note core = get_set_core_index_result [OF assms(3) c]
  then have t: "dinv t" "live t = tot_buckets" using assms(1,2) by (simp_all add: dinv_def live_def)
  obtain b where b: "bkts_per_core t = Inr b" using bkts_per_core_ok core by blast
  have slice: "nat ((int b * c) mod 2 ^ 32) = b * nat c" "b + b * nat c \<le> tot_buckets"
    using core_slice [of t c b] core b by simp_all
  let ?t = "core_wrap (nat c) b t"
  let ?d = "unat (rough_ind (cmem ?t (nat c)))"
  obtain r u where "walk_dbuckets (\<lambda>i. (?d + i) mod b + b * nat c) b 0 ?t = Inr (r, u)"
    using rot.walk_returns [of ?t b "b * nat c" ?d] t slice(2) by auto
  with assms(4) c b core slice(1) show ?thesis
    by (auto simp: alloc_walk_per_core_rough_ind_def core_wrap_def [symmetric] Let_def
        split: option.splits)
qed

text \<open>The interface between the allocators and the file operations: a call returns the index of
  a live bucket that was free and is now in use, empty and unlinked; it touches nothing else;
  and the only other outcome is the exit of the process.\<close>

locale bucket_allocator =
  fixes alloc :: "'z dstate_scheme \<Rightarrow> (u32 \<times> 'z dstate_scheme) res"
    and inv :: "'z dstate_scheme \<Rightarrow> bool"
  assumes inv_dinv: "inv s \<Longrightarrow> dinv s"
    and alloc_takes: "inv s \<Longrightarrow> alloc s = Inr (ix, s') \<Longrightarrow> takes s (unat ix) s'"
    and alloc_live: "inv s \<Longrightarrow> alloc s = Inr (ix, s') \<Longrightarrow> unat ix < live s"
    and alloc_keeps: "inv s \<Longrightarrow> alloc s = Inr (ix, s') \<Longrightarrow> inv s'"
    and alloc_exit: "inv s \<Longrightarrow> alloc s = Inl e \<Longrightarrow> e = Exit"
    and inv_upd_db: "inv s \<Longrightarrow> dinv (upd_db p f s) \<Longrightarrow> inv (upd_db p f s)"
begin

lemma alloc_bucket:
  assumes "inv s" "alloc s = Inr (ix, s')"
  shows "db_in_use (dbs s' (unat ix))" "db_next_ix (dbs s' (unat ix)) = nil_ix"
    "db_bytes (dbs s' (unat ix)) = 0" "\<not> db_in_use (dbs s (unat ix))"
    "q \<noteq> unat ix \<Longrightarrow> dbs s' q = dbs s q"
  using alloc_takes [OF assms] alloc_live [OF assms] inv_dinv [OF assms(1)]
  by (auto simp: takes_def dinv_def)

lemma alloc_fresh_index:
  assumes "inv s" "alloc s = Inr (ix, s')" "db_in_use (dbs s q)"
  shows "q \<noteq> unat ix"
  using alloc_bucket(4) [OF assms(1,2)] assms(3) by auto

lemma alloc_live_same:
  assumes "inv s" "alloc s = Inr (ix, s')"
  shows "live s' = live s" "ix \<noteq> nil_ix" "dstate.more s' = dstate.more s"
  using takes_live [OF alloc_takes [OF assms]] alloc_takes [OF assms]
    live_not_nil [OF inv_dinv [OF assms(1)] alloc_live [OF assms]]
  by (simp_all add: takes_def)

text \<open>Two allocations in a row never give out the same bucket.\<close>

lemma alloc_twice_distinct:
  assumes "inv s" "alloc s = Inr (ix, s1)" "alloc s1 = Inr (iy, s2)"
  shows "ix \<noteq> iy"
  using alloc_fresh_index [OF alloc_keeps [OF assms(1,2)] assms(3)] alloc_bucket(1) [OF assms(1,2)]
  by auto

end

text \<open>
  An allocator that searches the whole array (\<open>ready\<close> says when one does): it fails only when every
  bucket is in use, and each success uses up one of them.
\<close>

definition free_buckets :: "'z dstate_scheme \<Rightarrow> nat" where
  "free_buckets s = card {j. j < live s \<and> \<not> db_in_use (dbs s j)}"

lemma free_buckets_takes:
  assumes "takes s j s'" "j < live s"
  shows "free_buckets s = Suc (free_buckets s')"
proof -
  have "{i. i < live s \<and> \<not> db_in_use (dbs s i)} = insert j {i. i < live s' \<and> \<not> db_in_use (dbs s' i)}"
    using assms takes_live [OF assms(1)] by (auto simp: takes_def)
  moreover have "j \<notin> {i. i < live s' \<and> \<not> db_in_use (dbs s' i)}" using assms(1) by (auto simp: takes_def)
  ultimately show ?thesis by (simp add: free_buckets_def)
qed

lemma free_buckets_zero: "free_buckets s = 0 \<longleftrightarrow> (\<forall>j < live s. db_in_use (dbs s j))"
  by (auto simp: free_buckets_def)

lemma free_buckets_upd_db:
  assumes "\<And>db. db_in_use (f db) = db_in_use db"
  shows "free_buckets (upd_db p f s) = free_buckets s"
proof -
  have "db_in_use (dbs (upd_db p f s) j) = db_in_use (dbs s j)" for j
    using assms by (cases "j = p") auto
  then show ?thesis by (simp add: free_buckets_def live_def)
qed

locale complete_allocator = bucket_allocator +
  fixes ready :: "'a dstate_scheme \<Rightarrow> bool"
  assumes alloc_exhausted: "inv s \<Longrightarrow> ready s \<Longrightarrow> alloc s = Inl e \<Longrightarrow> free_buckets s = 0"
    and alloc_ready: "inv s \<Longrightarrow> alloc s = Inr (ix, s') \<Longrightarrow> ready s' = ready s"
    and ready_upd_db: "ready (upd_db p f s) = ready s"
begin

text \<open>How many buckets are sure to be found.\<close>

abbreviation spare :: "'a dstate_scheme \<Rightarrow> nat" where
  "spare s \<equiv> if ready s then free_buckets s else 0"

lemma alloc_uses_one:
  assumes "inv s" "alloc s = Inr (ix, s')"
  shows "free_buckets s = Suc (free_buckets s')"
  using free_buckets_takes [OF alloc_takes [OF assms] alloc_live [OF assms]] .

end

lemma alloc_inv_upd_db: "alloc_inv s \<Longrightarrow> dinv (upd_db p f s) \<Longrightarrow> alloc_inv (upd_db p f s)"
  by (simp add: alloc_inv_def core_inv_def)

lemma takes_alloc_inv:
  "alloc_inv s \<Longrightarrow> takes s j s' \<Longrightarrow> (3 \<le> alloc_method_ind s \<Longrightarrow> core_inv s') \<Longrightarrow> alloc_inv s'"
  by (auto simp: alloc_inv_def takes_def intro: takes_dinv [unfolded takes_def])

text \<open>The bucket taken by whichever of the four allocators is selected.\<close>

definition alloc_walk :: "'z dstate_scheme \<Rightarrow> (nat \<times> 'z dstate_scheme) res" where
  "alloc_walk s =
     (if alloc_method_ind s = 1 then alloc_walk_random s
      else if alloc_method_ind s = 2 then alloc_walk_rough_ind s
      else if alloc_method_ind s = 3 then alloc_walk_per_core_random s
      else alloc_walk_per_core_rough_ind s)"

lemma get_free_dbucket_alloc_walk:
  assumes "alloc_inv s"
  shows "get_free_dbucket_ix s = ret_ix (alloc_walk s)" "get_free_dbucket_ptr s = alloc_walk s"
proof -
  have "alloc_method_ind s \<in> {1, 2, 3, 4}" using assms by (auto simp: alloc_inv_def)
  then show "get_free_dbucket_ix s = ret_ix (alloc_walk s)" "get_free_dbucket_ptr s = alloc_walk s"
    by (auto simp: get_free_dbucket_ix_def get_free_dbucket_ptr_def alloc_walk_def
        bucket_ix_alloc_all_random_def bucket_ptr_alloc_all_random_def
        bucket_ix_alloc_all_rough_ind_def bucket_ptr_alloc_all_rough_ind_def
        bucket_ix_alloc_all_per_core_random_def bucket_ptr_alloc_all_per_core_random_def
        bucket_ix_alloc_all_per_core_rough_ind_def bucket_ptr_alloc_all_per_core_rough_ind_def)
qed

lemma alloc_method_cases:
  assumes "alloc_inv s"
  obtains (random) "alloc_method_ind s = 1" | (rough) "alloc_method_ind s = 2"
    | (core_random) "alloc_method_ind s = 3" "core_inv s"
    | (core_rough) "alloc_method_ind s = 4" "core_inv s"
  using assms unfolding alloc_inv_def by fastforce

lemma alloc_walk_takes:
  assumes "alloc_inv s" "alloc_walk s = Inr (j, s')"
  shows "j < tot_buckets" "takes s j s'" "alloc_inv s'"
proof -
  have inv: "dinv s" "live s = tot_buckets" using assms(1) alloc_inv_live by (auto simp: alloc_inv_def)
  from assms(1) have *: "j < tot_buckets \<and> takes s j s' \<and> (3 \<le> alloc_method_ind s \<longrightarrow> core_inv s')"
  proof (cases rule: alloc_method_cases)
    case random
    then show ?thesis using assms(2) alloc_walk_random_takes [OF inv] by (simp add: alloc_walk_def)
  next
    case rough
    then show ?thesis using assms(2) alloc_walk_rough_ind_takes [OF inv] by (simp add: alloc_walk_def)
  next
    case core_random
    then show ?thesis
      using assms(2) alloc_walk_per_core_random_takes [OF inv] by (simp add: alloc_walk_def)
  next
    case core_rough
    then show ?thesis
      using assms(2) alloc_walk_per_core_rough_ind_takes [OF inv] by (simp add: alloc_walk_def)
  qed
  then show "j < tot_buckets" "takes s j s'" "alloc_inv s'"
    using takes_alloc_inv [OF assms(1)] by blast+
qed

lemma alloc_walk_exit:
  assumes "alloc_inv s" "alloc_walk s = Inl e"
  shows "e = Exit"
proof -
  have inv: "dinv s" "live s = tot_buckets" using assms(1) alloc_inv_live by (auto simp: alloc_inv_def)
  from assms(1) show ?thesis
  proof (cases rule: alloc_method_cases)
    case random
    then show ?thesis using assms(2) alloc_walk_random_exit [OF inv] by (simp add: alloc_walk_def)
  next
    case rough
    then show ?thesis using assms(2) alloc_walk_rough_ind_exit [OF inv] by (simp add: alloc_walk_def)
  next
    case core_random
    then show ?thesis
      using assms(2) alloc_walk_per_core_random_exit [OF inv] by (simp add: alloc_walk_def)
  next
    case core_rough
    then show ?thesis
      using assms(2) alloc_walk_per_core_rough_ind_exit [OF inv] by (simp add: alloc_walk_def)
  qed
qed

interpretation ufs_alloc: bucket_allocator get_free_dbucket_ix alloc_inv
proof
  fix s :: "'a dstate_scheme" and ix s' e
  assume inv: "alloc_inv s"
  show "dinv s" using inv by (simp add: alloc_inv_def)
  { assume "get_free_dbucket_ix s = Inr (ix, s')"
    then obtain j where j: "alloc_walk s = Inr (j, s')" "ix = of_nat j"
      using inv by (auto simp: get_free_dbucket_alloc_walk ret_ix_def andthen_eq_Inr)
    note t = alloc_walk_takes [OF inv j(1)]
    have "unat ix = j" using t(1) tot_buckets_u32 j(2) by (simp add: unat_of_nat_u32)
    then show "takes s (unat ix) s'" "unat ix < live s" "alloc_inv s'"
      using t inv by (simp_all add: alloc_inv_live) }
  { assume "get_free_dbucket_ix s = Inl e"
    then show "e = Exit"
      using inv alloc_walk_exit [OF inv]
      by (auto simp: get_free_dbucket_alloc_walk ret_ix_def andthen_eq_Inl) }
qed (rule alloc_inv_upd_db)

text \<open>The process exits only when no bucket is left for it.\<close>

lemma alloc_walk_finds:
  assumes "alloc_inv s" "alloc_method_ind s \<le> 2" "j < tot_buckets" "\<not> db_in_use (dbs s j)"
    "alloc_method_ind s = 1 \<Longrightarrow> unat (dbuckets_in_use (sysg s)) \<noteq> tot_buckets"
  shows "\<exists>i s'. alloc_walk s = Inr (i, s')"
proof (rule ccontr)
  assume "\<not> ?thesis"
  then obtain e where e: "alloc_walk s = Inl e" by (cases "alloc_walk s") auto
  have inv: "dinv s" "live s = tot_buckets" using assms(1) alloc_inv_live by (auto simp: alloc_inv_def)
  from assms(1,2) consider "alloc_method_ind s = 1" | "alloc_method_ind s = 2"
    by (cases rule: alloc_method_cases) auto
  then show False
  proof cases
    case 1
    with e have "alloc_walk_random s = Inl e" by (simp add: alloc_walk_def)
    from alloc_walk_random_exit [OF inv this] assms(3-5) 1 show False by blast
  next
    case 2
    with e have "alloc_walk_rough_ind s = Inl e" by (simp add: alloc_walk_def)
    from alloc_walk_rough_ind_exit [OF inv this] assms(3,4) show False by blast
  qed
qed

text \<open>The random and the rough-index allocator are complete. The counter \<open>dbuckets_in_use\<close>, which the
  random one compares with the number of buckets first, is not changed by any of them.\<close>

definition whole_array :: "'z dstate_scheme \<Rightarrow> bool" where
  "whole_array s \<longleftrightarrow> alloc_method_ind s \<le> 2 \<and>
     (alloc_method_ind s = 1 \<longrightarrow> unat (dbuckets_in_use (sysg s)) \<noteq> tot_buckets)"

interpretation ufs_whole: complete_allocator get_free_dbucket_ix alloc_inv whole_array
proof
  fix s :: "'a dstate_scheme" and e
  assume *: "alloc_inv s" "whole_array s" "get_free_dbucket_ix s = Inl e"
  then have "alloc_walk s = Inl e"
    by (auto simp: get_free_dbucket_alloc_walk ret_ix_def andthen_eq_Inl)
  then have "db_in_use (dbs s j)" if "j < tot_buckets" for j
    using alloc_walk_finds [OF *(1) _ that] *(2) by (auto simp: whole_array_def)
  then show "free_buckets s = 0" by (simp add: free_buckets_zero alloc_inv_live [OF *(1)])
next
  fix s s' :: "'a dstate_scheme" and ix
  assume "alloc_inv s" "get_free_dbucket_ix s = Inr (ix, s')"
  from ufs_alloc.alloc_takes [OF this] show "whole_array s' = whole_array s"
    by (simp add: takes_def whole_array_def)
next
  show "whole_array (upd_db p f s) = whole_array s" for p f and s :: "'a dstate_scheme"
    by (simp add: whole_array_def)
qed

end
