(* ===== verification/Ufs_Rwlock.thy ===== *)
theory Ufs_Rwlock
  imports Ufs_Prelude
begin

text \<open>
  \<open>system/util/rwlock.c\<close>: the read-write lock of a hash-table row.

  The first half is the code as one process runs it alone: \<open>lock_rw\<close> and \<open>unlock_rw\<close> on the
  lock record, where a loop or a spin lock that no other process can end is \<open>Hang\<close>. The
  operations of \<open>meta_shm.c\<close> are built from these.

  The second half is the lock under interleaving: one step per access to the shared counters,
  any number of processes. It proves what the lock guarantees (writers exclude each other,
  the counters count, a waiting writer keeps new readers out) and what it does not (a reader
  that tested \<open>num_writers\<close> before a writer announced itself enters beside that writer).
\<close>

section \<open>The lock, run by one process\<close>

record urw_lock =
  num_readers :: int
  num_writers :: int
  real_lock :: bool

definition init_urwlock :: urw_lock where
  "init_urwlock = \<lparr>num_readers = 0, num_writers = 0, real_lock = False\<rparr>"

definition lock_rw :: "urw_lock \<Rightarrow> int \<Rightarrow> urw_lock res" where
  "lock_rw l type =
     (if type = 2 then
        (let l = l\<lparr>num_writers := num_writers l + 1\<rparr> in
         if num_readers l \<noteq> 0 then Inl Hang
         else if real_lock l then Inl Hang
         else Inr (l\<lparr>real_lock := True\<rparr>))
      else if type = 1 then
        (if num_writers l \<noteq> 0 then Inl Hang
         else Inr (l\<lparr>num_readers := num_readers l + 1\<rparr>))
      else Inl Exit)"

definition unlock_rw :: "urw_lock \<Rightarrow> int \<Rightarrow> urw_lock" where
  "unlock_rw l type =
     (if type = 2 then l\<lparr>num_writers := num_writers l - 1, real_lock := False\<rparr>
      else if type = 1 then l\<lparr>num_readers := num_readers l - 1\<rparr>
      else l)"

definition down_write :: "urw_lock \<Rightarrow> urw_lock res" where
  "down_write l = lock_rw l 2"

definition up_write :: "urw_lock \<Rightarrow> urw_lock" where
  "up_write l = unlock_rw l 2"

definition down_read :: "urw_lock \<Rightarrow> urw_lock res" where
  "down_read l = lock_rw l 1"

definition up_read :: "urw_lock \<Rightarrow> urw_lock" where
  "up_read l = unlock_rw l 1"

lemmas rwlock_defs =
  lock_rw_def unlock_rw_def down_write_def up_write_def down_read_def up_read_def

definition lock_free :: "urw_lock \<Rightarrow> bool" where
  "lock_free l \<longleftrightarrow> num_readers l = 0 \<and> num_writers l = 0 \<and> \<not> real_lock l"

lemma lock_free_init [simp]: "lock_free init_urwlock"
  by (simp add: lock_free_def init_urwlock_def)

lemma lock_free_eq: "lock_free l \<Longrightarrow> l = init_urwlock"
  by (simp add: lock_free_def init_urwlock_def)

definition write_locked :: urw_lock where
  "write_locked = \<lparr>num_readers = 0, num_writers = 1, real_lock = True\<rparr>"

lemma down_write_free [simp]: "down_write init_urwlock = Inr write_locked"
  by (simp add: rwlock_defs init_urwlock_def write_locked_def)

lemma up_write_locked [simp]: "up_write write_locked = init_urwlock"
  by (simp add: rwlock_defs init_urwlock_def write_locked_def)

text \<open>Taking the write lock a second time never returns.\<close>

lemma down_write_locked [simp]: "down_write write_locked = Inl Hang"
  by (simp add: rwlock_defs write_locked_def)

lemma down_read_locked [simp]: "down_read write_locked = Inl Hang"
  by (simp add: rwlock_defs write_locked_def)

lemma down_up_read [simp]:
  "andthen (down_read init_urwlock) (\<lambda>l. Inr (up_read l)) = Inr init_urwlock"
  by (simp add: rwlock_defs init_urwlock_def)

section \<open>The lock under interleaving\<close>

text \<open>Where a process stands in \<open>lock_rw\<close> and \<open>unlock_rw\<close>.\<close>

datatype rw_pc =
    RW_Idle
  | R_Test      \<comment> \<open>in \<open>while (l->num_writers);\<close>\<close>
  | R_Enter     \<comment> \<open>the loop ended, before the increment of \<open>num_readers\<close>\<close>
  | R_Crit
  | W_Test      \<comment> \<open>\<open>num_writers\<close> incremented, in \<open>while (l->num_readers);\<close>\<close>
  | W_Spin      \<comment> \<open>in \<open>pthread_spin_lock\<close>\<close>
  | W_Crit
  | W_Leave     \<comment> \<open>\<open>num_writers\<close> decremented, before \<open>pthread_spin_unlock\<close>\<close>

record rw_sys =
  rw_lock :: urw_lock
  rw_pcs :: "nat \<Rightarrow> rw_pc"

definition rw_init :: rw_sys where
  "rw_init = \<lparr>rw_lock = init_urwlock, rw_pcs = (\<lambda>_. RW_Idle)\<rparr>"

definition rw_goto :: "nat \<Rightarrow> rw_pc \<Rightarrow> rw_sys \<Rightarrow> rw_sys" where
  "rw_goto i c s = s\<lparr>rw_pcs := (rw_pcs s)(i := c)\<rparr>"

definition rw_upd :: "(urw_lock \<Rightarrow> urw_lock) \<Rightarrow> rw_sys \<Rightarrow> rw_sys" where
  "rw_upd f s = s\<lparr>rw_lock := f (rw_lock s)\<rparr>"

lemma rw_goto_sel [simp]:
  "rw_lock (rw_goto i c s) = rw_lock s"
  "rw_pcs (rw_goto i c s) = (rw_pcs s)(i := c)"
  by (simp_all add: rw_goto_def)

lemma rw_upd_sel [simp]:
  "rw_lock (rw_upd f s) = f (rw_lock s)"
  "rw_pcs (rw_upd f s) = rw_pcs s"
  by (simp_all add: rw_upd_def)

inductive rw_step :: "rw_sys \<Rightarrow> nat \<Rightarrow> rw_sys \<Rightarrow> bool" where
  read_call: "rw_pcs s i = RW_Idle \<Longrightarrow> rw_step s i (rw_goto i R_Test s)"
| read_test: "rw_pcs s i = R_Test \<Longrightarrow> num_writers (rw_lock s) = 0 \<Longrightarrow>
     rw_step s i (rw_goto i R_Enter s)"
| read_enter: "rw_pcs s i = R_Enter \<Longrightarrow>
     rw_step s i (rw_goto i R_Crit (rw_upd (\<lambda>l. l\<lparr>num_readers := num_readers l + 1\<rparr>) s))"
| read_leave: "rw_pcs s i = R_Crit \<Longrightarrow>
     rw_step s i (rw_goto i RW_Idle (rw_upd (\<lambda>l. l\<lparr>num_readers := num_readers l - 1\<rparr>) s))"
| write_call: "rw_pcs s i = RW_Idle \<Longrightarrow>
     rw_step s i (rw_goto i W_Test (rw_upd (\<lambda>l. l\<lparr>num_writers := num_writers l + 1\<rparr>) s))"
| write_test: "rw_pcs s i = W_Test \<Longrightarrow> num_readers (rw_lock s) = 0 \<Longrightarrow>
     rw_step s i (rw_goto i W_Spin s)"
| write_spin: "rw_pcs s i = W_Spin \<Longrightarrow> \<not> real_lock (rw_lock s) \<Longrightarrow>
     rw_step s i (rw_goto i W_Crit (rw_upd (\<lambda>l. l\<lparr>real_lock := True\<rparr>) s))"
| write_leave: "rw_pcs s i = W_Crit \<Longrightarrow>
     rw_step s i (rw_goto i W_Leave (rw_upd (\<lambda>l. l\<lparr>num_writers := num_writers l - 1\<rparr>) s))"
| write_unlock: "rw_pcs s i = W_Leave \<Longrightarrow>
     rw_step s i (rw_goto i RW_Idle (rw_upd (\<lambda>l. l\<lparr>real_lock := False\<rparr>) s))"

inductive rw_reachable :: "rw_sys \<Rightarrow> bool" where
  rw_start: "rw_reachable rw_init"
| rw_next: "rw_reachable s \<Longrightarrow> rw_step s i t \<Longrightarrow> rw_reachable t"

inductive_cases rw_stepE: "rw_step s i t"

definition rw_holds :: "rw_pc \<Rightarrow> bool" where
  "rw_holds c \<longleftrightarrow> c = W_Crit \<or> c = W_Leave"

definition rw_announced :: "rw_pc \<Rightarrow> bool" where
  "rw_announced c \<longleftrightarrow> c = W_Test \<or> c = W_Spin \<or> c = W_Crit"

lemma announced_simps [simp]:
  "rw_announced W_Test" "rw_announced W_Spin" "rw_announced W_Crit"
  "\<not> rw_announced RW_Idle" "\<not> rw_announced R_Test" "\<not> rw_announced R_Enter"
  "\<not> rw_announced R_Crit" "\<not> rw_announced W_Leave"
  by (simp_all add: rw_announced_def)

text \<open>The invariant: finitely many processes are active, the two counters count the processes
  in the matching states, and the spin lock is held by exactly the process that holds it.\<close>

definition rw_inv :: "rw_sys \<Rightarrow> bool" where
  "rw_inv s \<longleftrightarrow>
     finite {i. rw_pcs s i \<noteq> RW_Idle} \<and>
     num_readers (rw_lock s) = int (card {i. rw_pcs s i = R_Crit}) \<and>
     num_writers (rw_lock s) = int (card {i. rw_announced (rw_pcs s i)}) \<and>
     (\<forall>i. rw_holds (rw_pcs s i) \<longrightarrow> real_lock (rw_lock s)) \<and>
     (\<forall>i j. rw_holds (rw_pcs s i) \<longrightarrow> rw_holds (rw_pcs s j) \<longrightarrow> i = j)"

text \<open>How a counted set changes when one process moves.\<close>

lemma card_move_in:
  assumes "finite {j. f j \<noteq> RW_Idle}" "\<not> P RW_Idle" "P c" "\<not> P (f i)"
  shows "card {j. P ((f(i := c)) j)} = Suc (card {j. P (f j)})"
proof -
  have fin: "finite {j. P (f j)}"
    by (rule finite_subset [OF _ assms(1)]) (use assms(2) in auto)
  have "{j. P ((f(i := c)) j)} = insert i {j. P (f j)}" using assms(3) by auto
  then show ?thesis using fin assms(4) by simp
qed

lemma card_move_out:
  assumes "finite {j. f j \<noteq> RW_Idle}" "\<not> P RW_Idle" "\<not> P c" "P (f i)"
  shows "int (card {j. P ((f(i := c)) j)}) = int (card {j. P (f j)}) - 1"
proof -
  have fin: "finite {j. P (f j)}"
    by (rule finite_subset [OF _ assms(1)]) (use assms(2) in auto)
  have "{j. P ((f(i := c)) j)} = {j. P (f j)} - {i}" using assms(3) by auto
  then show ?thesis using card_Suc_Diff1 [OF fin, of i] assms(4) by simp
qed

lemma card_move_same:
  assumes "P c \<longleftrightarrow> P (f i)"
  shows "card {j. P ((f(i := c)) j)} = card {j. P (f j)}"
proof -
  have "{j. P ((f(i := c)) j)} = {j. P (f j)}" using assms by auto
  then show ?thesis by simp
qed

lemma finite_move:
  "finite {j. f j \<noteq> RW_Idle} \<Longrightarrow> finite {j. (f(i := c)) j \<noteq> RW_Idle}"
  by (rule finite_subset [of _ "insert i {j. f j \<noteq> RW_Idle}"]) auto

lemmas reader_in = card_move_in [where P = "\<lambda>c. c = R_Crit"]
lemmas reader_out = card_move_out [where P = "\<lambda>c. c = R_Crit"]
lemmas reader_same = card_move_same [where P = "\<lambda>c. c = R_Crit"]
lemmas writer_in = card_move_in [where P = rw_announced]
lemmas writer_out = card_move_out [where P = rw_announced]
lemmas writer_same = card_move_same [where P = rw_announced]

lemma rw_inv_init: "rw_inv rw_init"
  by (simp add: rw_inv_def rw_init_def init_urwlock_def rw_announced_def rw_holds_def)

lemma rw_inv_step:
  assumes "rw_inv s" "rw_step s i t"
  shows "rw_inv t"
proof -
  let ?f = "rw_pcs s"
  have fin: "finite {j. ?f j \<noteq> RW_Idle}"
    and r: "num_readers (rw_lock s) = int (card {j. ?f j = R_Crit})"
    and w: "num_writers (rw_lock s) = int (card {j. rw_announced (?f j)})"
    and h: "\<And>j. rw_holds (?f j) \<Longrightarrow> real_lock (rw_lock s)"
    and u: "\<And>j k. rw_holds (?f j) \<Longrightarrow> rw_holds (?f k) \<Longrightarrow> j = k"
    using assms(1) unfolding rw_inv_def by blast+
  have r': "num_readers (rw_lock t) = int (card {j. rw_pcs t j = R_Crit})"
    using assms(2) r
    by (cases rule: rw_step.cases)
      (simp_all add: reader_same reader_in [OF fin] reader_out [OF fin] del: fun_upd_apply)
  have w': "num_writers (rw_lock t) = int (card {j. rw_announced (rw_pcs t j)})"
    using assms(2) w
    by (cases rule: rw_step.cases)
      (simp_all add: writer_same writer_in [OF fin] writer_out [OF fin] del: fun_upd_apply)
  have h': "rw_holds (rw_pcs t j) \<Longrightarrow> real_lock (rw_lock t)" for j
    using assms(2) h u
    by (cases rule: rw_step.cases) (auto simp: rw_holds_def split: if_splits)
  have u': "rw_holds (rw_pcs t j) \<Longrightarrow> rw_holds (rw_pcs t k) \<Longrightarrow> j = k" for j k
    using assms(2) h u
    by (cases rule: rw_step.cases) (auto simp: rw_holds_def split: if_splits)
  have "finite {j. rw_pcs t j \<noteq> RW_Idle}"
    using assms(2) by (cases rule: rw_step.cases) (simp_all add: finite_move [OF fin] del: fun_upd_apply)
  with r' w' h' u' show ?thesis unfolding rw_inv_def by blast
qed

lemma rw_reachable_inv: "rw_reachable s \<Longrightarrow> rw_inv s"
  by (induction rule: rw_reachable.induct) (auto intro: rw_inv_init rw_inv_step)

section \<open>What the lock guarantees, and what it does not\<close>

text \<open>
  (C29) Two processes are never both between a write lock's acquisition and its release: in
  every reachable state of any number of processes running \<open>lock_rw\<close> and \<open>unlock_rw\<close>, at most
  one is in a write critical section.
\<close>

theorem rw_writers_exclusive:
  assumes "rw_reachable s" "rw_pcs s i = W_Crit" "rw_pcs s j = W_Crit"
  shows "i = j"
  using rw_reachable_inv [OF assms(1)] assms(2,3) unfolding rw_inv_def rw_holds_def by blast

lemma rw_solo_writer:
  "rw_reachable (rw_goto 1 W_Crit (rw_upd (\<lambda>l. l\<lparr>real_lock := True\<rparr>) (rw_goto 1 W_Spin
     (rw_goto 1 W_Test (rw_upd (\<lambda>l. l\<lparr>num_writers := num_writers l + 1\<rparr>) rw_init)))))"
  by (rule rw_reachable.rw_next [OF rw_reachable.rw_next [OF rw_reachable.rw_next
        [OF rw_reachable.rw_start rw_step.write_call] rw_step.write_test] rw_step.write_spin])
    (simp_all add: rw_init_def init_urwlock_def)

theorem rw_writers_exclusive_witness:
  "\<exists>s. rw_reachable s \<and> rw_pcs s 1 = W_Crit \<and> (\<forall>j. rw_pcs s j = W_Crit \<longrightarrow> j = 1)"
  by (rule exI, intro conjI allI impI, rule rw_solo_writer)
    (simp, rule rw_writers_exclusive [OF rw_solo_writer], simp_all)

text \<open>
  (C30) The two counters are exact: in every reachable state \<open>num_readers\<close> is the number of
  processes inside a read critical section and \<open>num_writers\<close> the number of processes between
  the announcement of a write and its end, so a row nobody uses is back in its initial counts.
\<close>

theorem rw_counters_exact:
  assumes "rw_reachable s"
  shows "num_readers (rw_lock s) = int (card {i. rw_pcs s i = R_Crit}) \<and>
    num_writers (rw_lock s) = int (card {i. rw_announced (rw_pcs s i)})"
  using rw_reachable_inv [OF assms] unfolding rw_inv_def by blast

theorem rw_counters_exact_witness:
  "\<exists>s. rw_reachable s \<and> num_writers (rw_lock s) = 1 \<and> card {i. rw_announced (rw_pcs s i)} = 1 \<and>
     card {i. rw_pcs s i = R_Crit} = 0"
proof -
  let ?s = "rw_goto 1 W_Crit (rw_upd (\<lambda>l. l\<lparr>real_lock := True\<rparr>) (rw_goto 1 W_Spin
     (rw_goto 1 W_Test (rw_upd (\<lambda>l. l\<lparr>num_writers := num_writers l + 1\<rparr>) rw_init))))"
  have "num_readers (rw_lock ?s) = 0" "num_writers (rw_lock ?s) = 1" by (simp_all add: rw_init_def init_urwlock_def)
  with rw_counters_exact [OF rw_solo_writer] rw_solo_writer show ?thesis by (intro exI [of _ ?s]) simp
qed

text \<open>
  Write priority: from the moment a writer has announced itself until it leaves, no process
  gets past the test \<open>while (l->num_writers);\<close> of the read side.
\<close>

theorem rw_writer_keeps_readers_out:
  assumes "rw_reachable s" "rw_announced (rw_pcs s k)" "rw_pcs s i = R_Test" "rw_step s i t"
  shows "rw_pcs t i \<noteq> R_Enter"
proof
  assume enter: "rw_pcs t i = R_Enter"
  have inv: "finite {j. rw_pcs s j \<noteq> RW_Idle}"
      "num_writers (rw_lock s) = int (card {j. rw_announced (rw_pcs s j)})"
    using rw_reachable_inv [OF assms(1)] unfolding rw_inv_def by blast+
  have "finite {j. rw_announced (rw_pcs s j)}"
    by (rule finite_subset [OF _ inv(1)]) auto
  with assms(2) have "card {j. rw_announced (rw_pcs s j)} \<noteq> 0" by auto
  moreover from assms(4) assms(3) enter have "num_writers (rw_lock s) = 0"
    by (cases rule: rw_step.cases) auto
  ultimately show False using inv(2) by simp
qed

lemma rw_writer_and_tester:
  "rw_reachable (rw_goto 0 R_Test (rw_goto 1 W_Test
     (rw_upd (\<lambda>l. l\<lparr>num_writers := num_writers l + 1\<rparr>) rw_init)))"
  by (rule rw_reachable.rw_next [OF rw_reachable.rw_next
        [OF rw_reachable.rw_start rw_step.write_call] rw_step.read_call])
    (simp_all add: rw_init_def)

theorem rw_writer_keeps_readers_out_witness:
  "\<exists>s. rw_reachable s \<and> rw_announced (rw_pcs s 1) \<and> rw_pcs s 0 = R_Test \<and>
     (\<forall>t. rw_step s 0 t \<longrightarrow> rw_pcs t 0 \<noteq> R_Enter)"
  by (rule exI, intro conjI allI impI, rule rw_writer_and_tester)
    (simp, simp, rule rw_writer_keeps_readers_out [OF rw_writer_and_tester, of 1], simp_all)

text \<open>
  (C38) The lock does not keep readers and writers apart: a process that ends its test of
  \<open>num_writers\<close> just before a writer increments it, and increments \<open>num_readers\<close> only after the
  writer tested that, is inside a read section while the writer is inside a write section.
\<close>

theorem rw_reader_beside_writer:
  "\<exists>s. rw_reachable s \<and> rw_pcs s 0 = R_Crit \<and> rw_pcs s 1 = W_Crit"
proof -
  let ?s1 = "rw_goto 0 R_Test rw_init"
  let ?s2 = "rw_goto 0 R_Enter ?s1"
  let ?s3 = "rw_goto 1 W_Test (rw_upd (\<lambda>l. l\<lparr>num_writers := num_writers l + 1\<rparr>) ?s2)"
  let ?s4 = "rw_goto 1 W_Spin ?s3"
  let ?s5 = "rw_goto 1 W_Crit (rw_upd (\<lambda>l. l\<lparr>real_lock := True\<rparr>) ?s4)"
  let ?s6 = "rw_goto 0 R_Crit (rw_upd (\<lambda>l. l\<lparr>num_readers := num_readers l + 1\<rparr>) ?s5)"
  note start = rw_init_def init_urwlock_def
  have "rw_reachable ?s1"
    by (rule rw_reachable.rw_next [OF rw_reachable.rw_start rw_step.read_call]) (simp add: start)
  then have "rw_reachable ?s2"
    by (rule rw_reachable.rw_next [OF _ rw_step.read_test]) (simp_all add: start)
  then have "rw_reachable ?s3"
    by (rule rw_reachable.rw_next [OF _ rw_step.write_call]) (simp add: start)
  then have "rw_reachable ?s4"
    by (rule rw_reachable.rw_next [OF _ rw_step.write_test]) (simp_all add: start)
  then have "rw_reachable ?s5"
    by (rule rw_reachable.rw_next [OF _ rw_step.write_spin]) (simp_all add: start)
  then have "rw_reachable ?s6"
    by (rule rw_reachable.rw_next [OF _ rw_step.read_enter]) simp
  then show ?thesis by (intro exI [of _ ?s6]) simp
qed

end
