(* ===== verification/Ufs_Hash.thy ===== *)
theory Ufs_Hash
  imports Ufs_Prelude
begin

text \<open>
  \<open>hash\<close> of \<open>system/util/util.c\<close> as the Makefile builds it (without \<open>USE_METROHASH\<close>): the
  row of the hash table a path belongs to. The 64-bit accumulator wraps; a character with the
  high bit set is negative in a signed \<open>char\<close> and ends the process.
\<close>

definition HASH_TABLE_SIZE :: nat where
  [ufs_config]: "HASH_TABLE_SIZE = 16384"

fun hash_loop :: "string \<Rightarrow> u64 \<Rightarrow> u64 res" where
  "hash_loop [] h = Inr h"
| "hash_loop (c # cs) h =
     (if 128 \<le> (of_char c :: nat) then Inl Exit
      else hash_loop cs ((push_bit 5 h + h) + of_nat (of_char c)))"

definition hash :: "string \<Rightarrow> nat res" where
  "hash str = andthen (hash_loop str 5381) (\<lambda>h. Inr (unat h mod HASH_TABLE_SIZE))"

definition ascii :: "string \<Rightarrow> bool" where
  "ascii str \<longleftrightarrow> (\<forall>c \<in> set str. (of_char c :: nat) < 128)"

text \<open>The reference: the polynomial in 33 on unbounded numbers.\<close>

definition djb2 :: "nat \<Rightarrow> string \<Rightarrow> nat" where
  "djb2 h str = foldl (\<lambda>h c. 33 * h + of_char c) h str"

lemma hash_loop_ascii: "ascii str \<Longrightarrow> hash_loop str h = Inr (of_nat (djb2 (unat h) str))"
proof (induction str arbitrary: h)
  case Nil
  then show ?case by (simp add: djb2_def)
next
  case (Cons c cs)
  let ?c = "of_char c :: nat"
  have "ascii cs" "?c < 128" using Cons.prems by (auto simp: ascii_def)
  then have step: "hash_loop (c # cs) h = hash_loop cs (push_bit 5 h + h + of_nat ?c)" by simp
  also have "\<dots> = Inr (of_nat (djb2 (unat (push_bit 5 h + h + of_nat ?c)) cs))"
    by (rule Cons.IH [OF \<open>ascii cs\<close>])
  finally have 1: "hash_loop (c # cs) h = Inr (of_nat (djb2 (unat (push_bit 5 h + h + of_nat ?c)) cs))" .
  have cong: "of_nat (djb2 a cs) = (of_nat (djb2 b cs) :: u64)"
    if "of_nat a = (of_nat b :: u64)" for a b
    using that by (induction cs arbitrary: a b) (simp_all add: djb2_def)
  have "of_nat (unat (push_bit 5 h + h + of_nat ?c)) = (of_nat (33 * unat h + ?c) :: u64)"
    by (simp add: push_bit_eq_mult algebra_simps)
  from cong [OF this] 1 show ?case by (simp add: djb2_def)
qed

lemma hash_loop_not_ascii: "\<not> ascii str \<Longrightarrow> hash_loop str h = Inl Exit"
  by (induction str arbitrary: h) (auto simp: ascii_def)

lemma hash_range: "hash str = Inr h \<Longrightarrow> h < HASH_TABLE_SIZE"
  by (auto simp: hash_def andthen_eq_Inr ufs_config)

lemma hash_ascii_ok: "ascii str \<Longrightarrow> \<exists>h. hash str = Inr h"
  by (simp add: hash_def hash_loop_ascii)

text \<open>
  On every path of 7-bit characters \<open>hash\<close> returns a row of the table, and the row is the
  plain polynomial hash \<open>h * 33 + c\<close> computed without any bound and reduced once at the end:
  the wrap-around of the 64-bit accumulator is invisible. On any other path the process exits.
\<close>

theorem hash_is_polynomial:
  "hash str = (if ascii str then Inr (djb2 5381 str mod HASH_TABLE_SIZE) else Inl Exit)"
proof (cases "ascii str")
  case True
  have "unat (of_nat (djb2 5381 str) :: u64) mod HASH_TABLE_SIZE = djb2 5381 str mod HASH_TABLE_SIZE"
    by (simp add: unat_of_nat ufs_config mod_mod_cancel)
  with True show ?thesis by (simp add: hash_def hash_loop_ascii)
next
  case False
  then show ?thesis by (simp add: hash_def hash_loop_not_ascii)
qed

end
