(* ===== verification/Ufs_Meta.thy ===== *)
theory Ufs_Meta
  imports Ufs_Data Ufs_Rwlock Ufs_Hash
begin

text \<open>
  \<open>system/util/meta_shm.c\<close>: the hash table of metadata buckets.

  A row of the table starts a singly linked list of buckets through the integer field
  \<open>next_ix\<close> (\<open>-1\<close> ends it); the buckets live in one array. The walks over a row carry fuel
  \<open>META_BUCKETS\<close>: they do not change the lists, so a walk that has visited that many buckets
  without an end is going round a cycle, and \<open>Hang\<close> is what the C loop does then. Under the
  invariant of this theory the rows are acyclic and the fuel is never used up.
\<close>

section \<open>State\<close>

definition META_BUCKETS :: nat where
  [ufs_config]: "META_BUCKETS = 65536"

definition PATH_MAX :: nat where
  [ufs_config]: "PATH_MAX = 4096"

record timespec =
  tv_sec :: int
  tv_nsec :: int

record stat =
  st_dev :: int
  st_ino :: int
  st_mode :: nat
  st_nlink :: int
  st_uid :: int
  st_gid :: int
  st_rdev :: int
  st_size :: nat
  st_blksize :: int
  st_blocks :: int
  st_atim :: timespec
  st_mtim :: timespec
  st_ctim :: timespec

record meta_bucket =
  mb_in_use :: bool
  mb_next_ix :: int
  mb_path :: string
  mb_s :: stat
  first_dbucket :: u32
  last_dbucket :: u32
  last_db_offset :: int
  consisent :: bool
  mb_lock :: bool

record hashinfo =
  first_ix :: int
  hi_lock :: urw_lock

record mstate = dstate +
  hash_table :: "nat \<Rightarrow> hashinfo"
  mb_arr :: "nat \<Rightarrow> meta_bucket"

definition upd_hi :: "nat \<Rightarrow> (hashinfo \<Rightarrow> hashinfo) \<Rightarrow> 'z mstate_scheme \<Rightarrow> 'z mstate_scheme" where
  "upd_hi h f s = s\<lparr>hash_table := (hash_table s)(h := f (hash_table s h))\<rparr>"

definition upd_mb :: "nat \<Rightarrow> (meta_bucket \<Rightarrow> meta_bucket) \<Rightarrow> 'z mstate_scheme \<Rightarrow> 'z mstate_scheme" where
  "upd_mb i f s = s\<lparr>mb_arr := (mb_arr s)(i := f (mb_arr s i))\<rparr>"

text \<open>\<open>MB_PTR\<close>: an index outside the array is no bucket.\<close>

definition MB_PTR :: "int \<Rightarrow> nat res" where
  "MB_PTR ix = (if 0 \<le> ix \<and> ix < int META_BUCKETS then Inr (nat ix) else Inl Fault)"

definition path_eq :: "string \<Rightarrow> nat \<Rightarrow> 'z mstate_scheme \<Rightarrow> bool" where
  "path_eq str i s = strncmp_eq str (mb_path (mb_arr s i)) PATH_MAX"

section \<open>Row locks\<close>

definition row_down_read :: "nat \<Rightarrow> 'z mstate_scheme \<Rightarrow> 'z mstate_scheme res" where
  "row_down_read h s = andthen (down_read (hi_lock (hash_table s h)))
     (\<lambda>l. Inr (upd_hi h (\<lambda>r. r\<lparr>hi_lock := l\<rparr>) s))"

definition row_up_read :: "nat \<Rightarrow> 'z mstate_scheme \<Rightarrow> 'z mstate_scheme" where
  "row_up_read h s = upd_hi h (\<lambda>r. r\<lparr>hi_lock := up_read (hi_lock r)\<rparr>) s"

definition row_down_write :: "nat \<Rightarrow> 'z mstate_scheme \<Rightarrow> 'z mstate_scheme res" where
  "row_down_write h s = andthen (down_write (hi_lock (hash_table s h)))
     (\<lambda>l. Inr (upd_hi h (\<lambda>r. r\<lparr>hi_lock := l\<rparr>) s))"

definition row_up_write :: "nat \<Rightarrow> 'z mstate_scheme \<Rightarrow> 'z mstate_scheme" where
  "row_up_write h s = upd_hi h (\<lambda>r. r\<lparr>hi_lock := up_write (hi_lock r)\<rparr>) s"

section \<open>Lookup\<close>

fun find_mb :: "nat \<Rightarrow> string \<Rightarrow> int \<Rightarrow> 'z mstate_scheme \<Rightarrow> nat option res" where
  "find_mb k str mb_ix s =
     (if mb_ix = - 1 then Inr None
      else if k = 0 then Inl Hang
      else andthen (MB_PTR mb_ix) (\<lambda>i.
        if path_eq str i s then Inr (Some i)
        else find_mb (k - 1) str (mb_next_ix (mb_arr s i)) s))"

declare find_mb.simps [simp del]

definition get_mbucket :: "string \<Rightarrow> 'z mstate_scheme \<Rightarrow> (nat option \<times> 'z mstate_scheme) res" where
  "get_mbucket str s =
     andthen (hash str) (\<lambda>h.
     andthen (row_down_read h s) (\<lambda>s.
     andthen (find_mb META_BUCKETS str (first_ix (hash_table s h)) s) (\<lambda>r.
       Inr (r, row_up_read h s))))"

section \<open>Allocation and creation\<close>

definition claim_mbucket :: "meta_bucket \<Rightarrow> bool \<times> meta_bucket" where
  "claim_mbucket mb =
     (if mb_in_use mb then (False, mb)
      else if mb_lock mb then (False, mb)
      else let mb = mb\<lparr>mb_lock := True\<rparr> in
        if mb_in_use mb then (False, mb\<lparr>mb_lock := False\<rparr>)
        else let mb = mb\<lparr>mb_in_use := True\<rparr> in (True, mb\<lparr>mb_lock := False\<rparr>))"

function walk_mbuckets :: "nat \<Rightarrow> nat \<Rightarrow> 'z mstate_scheme \<Rightarrow> int \<times> 'z mstate_scheme" where
  "walk_mbuckets mindex i s =
     (if i < META_BUCKETS then
        (let current_ix = (mindex + i) mod META_BUCKETS in
         case claim_mbucket (mb_arr s current_ix) of (ok, mb) \<Rightarrow>
           (let s = s\<lparr>mb_arr := (mb_arr s)(current_ix := mb)\<rparr> in
            if ok then (int current_ix, s) else walk_mbuckets mindex (Suc i) s))
      else (- 1, s))"
  by pat_completeness auto
termination
  by (relation "measure (\<lambda>(mindex, i, s). META_BUCKETS - i)") auto

declare walk_mbuckets.simps [simp del]

definition allocate_mbucket :: "'z mstate_scheme \<Rightarrow> int \<times> 'z mstate_scheme" where
  "allocate_mbucket s = (case next_rand s of (r, s) \<Rightarrow> walk_mbuckets (r mod META_BUCKETS) 0 s)"

text \<open>The loop both creating functions share: to the bucket with the path, or to the last one.\<close>

fun scan_row :: "nat \<Rightarrow> string \<Rightarrow> nat \<Rightarrow> 'z mstate_scheme \<Rightarrow> (bool \<times> nat) res" where
  "scan_row k str i s =
     (if mb_next_ix (mb_arr s i) = - 1 then Inr (path_eq str i s, i)
      else if path_eq str i s then Inr (True, i)
      else if k = 0 then Inl Hang
      else andthen (MB_PTR (mb_next_ix (mb_arr s i))) (\<lambda>j. scan_row (k - 1) str j s))"

declare scan_row.simps [simp del]

definition get_or_create_mbucket :: "string \<Rightarrow> 'z mstate_scheme \<Rightarrow> (nat \<times> 'z mstate_scheme) res" where
  "get_or_create_mbucket str s =
     andthen (hash str) (\<lambda>h.
     andthen (row_down_write h s) (\<lambda>s.
       if first_ix (hash_table s h) = - 1 then
         (case allocate_mbucket s of (ret_mb_ix, s) \<Rightarrow>
            (let s = row_up_write h (upd_hi h (\<lambda>r. r\<lparr>first_ix := ret_mb_ix\<rparr>) s) in
             andthen (MB_PTR ret_mb_ix) (\<lambda>i. Inr (i, s))))
       else
         andthen (MB_PTR (first_ix (hash_table s h))) (\<lambda>i.
         andthen (scan_row META_BUCKETS str i s) (\<lambda>(found, i).
           if found then Inr (i, row_up_write h s)
           else
             (case allocate_mbucket s of (ret_mb_ix, s) \<Rightarrow>
                (let s = row_up_write h (upd_mb i (\<lambda>mb. mb\<lparr>mb_next_ix := ret_mb_ix\<rparr>) s) in
                 andthen (MB_PTR ret_mb_ix) (\<lambda>i. Inr (i, s))))))))"

definition strict_create_mbucket ::
  "string \<Rightarrow> 'z mstate_scheme \<Rightarrow> (nat option \<times> 'z mstate_scheme) res" where
  "strict_create_mbucket str s =
     andthen (hash str) (\<lambda>h.
     andthen (row_down_write h s) (\<lambda>s.
       if first_ix (hash_table s h) = - 1 then
         (case allocate_mbucket s of (ret_mb_ix, s) \<Rightarrow>
            if ret_mb_ix = - 1 then Inr (None, row_up_write h s)
            else
              (let s = row_up_write h (upd_hi h (\<lambda>r. r\<lparr>first_ix := ret_mb_ix\<rparr>) s) in
               andthen (MB_PTR ret_mb_ix) (\<lambda>i. Inr (Some i, s))))
       else
         andthen (MB_PTR (first_ix (hash_table s h))) (\<lambda>i.
         andthen (scan_row META_BUCKETS str i s) (\<lambda>(found, i).
           if found then Inr (None, row_up_write h s)
           else
             (case allocate_mbucket s of (ret_mb_ix, s) \<Rightarrow>
                if ret_mb_ix = - 1 then Inr (None, row_up_write h s)
                else
                  (let s = row_up_write h (upd_mb i (\<lambda>mb. mb\<lparr>mb_next_ix := ret_mb_ix\<rparr>) s) in
                   andthen (MB_PTR ret_mb_ix) (\<lambda>i. Inr (Some i, s))))))))"

section \<open>Removal and renaming\<close>

fun mb_prev_loop ::
  "nat \<Rightarrow> string \<Rightarrow> int \<Rightarrow> nat \<Rightarrow> 'z mstate_scheme \<Rightarrow> (nat option \<times> nat option) res" where
  "mb_prev_loop k path ix_iter prev s =
     (if ix_iter = - 1 then Inr (None, Some prev)
      else if k = 0 then Inl Hang
      else andthen (MB_PTR ix_iter) (\<lambda>i.
        if path_eq path i s then Inr (Some i, Some prev)
        else mb_prev_loop (k - 1) path (mb_next_ix (mb_arr s i)) i s))"

declare mb_prev_loop.simps [simp del]

definition get_mb_and_prev :: "string \<Rightarrow> 'z mstate_scheme \<Rightarrow> (nat option \<times> nat option) res" where
  "get_mb_and_prev path s =
     andthen (hash path) (\<lambda>h.
       if first_ix (hash_table s h) = - 1 then Inr (None, None)
       else andthen (MB_PTR (first_ix (hash_table s h))) (\<lambda>i.
         if mb_next_ix (mb_arr s i) = - 1 then
           (if path_eq path i s then Inr (Some i, None) else Inr (None, Some i))
         else
           (if path_eq path i s then Inr (Some i, None)
            else mb_prev_loop META_BUCKETS path (mb_next_ix (mb_arr s i)) i s)))"

text \<open>Linking a value into the row: through the row head when there is no previous bucket.\<close>

definition relink :: "nat \<Rightarrow> nat option \<Rightarrow> int \<Rightarrow> 'z mstate_scheme \<Rightarrow> 'z mstate_scheme" where
  "relink h prev ix s =
     (case prev of
        None \<Rightarrow> upd_hi h (\<lambda>r. r\<lparr>first_ix := ix\<rparr>) s
      | Some p \<Rightarrow> upd_mb p (\<lambda>mb. mb\<lparr>mb_next_ix := ix\<rparr>) s)"

definition release_meta_bucket :: "string \<Rightarrow> 'z mstate_scheme \<Rightarrow> (int \<times> 'z mstate_scheme) res" where
  "release_meta_bucket str s =
     andthen (hash str) (\<lambda>h.
     andthen (row_down_write h s) (\<lambda>s.
     andthen (get_mb_and_prev str s) (\<lambda>(mb, mb_prev).
       (case mb of
          None \<Rightarrow> Inr (- 1, row_up_write h s)
        | Some i \<Rightarrow>
            (let s = relink h mb_prev (mb_next_ix (mb_arr s i)) s;
                 s = upd_mb i (\<lambda>mb. mb\<lparr>mb_next_ix := - 1\<rparr>) s;
                 s = row_up_write h s
             in if mb_lock (mb_arr s i) then Inl Hang
                else Inr (0, upd_mb i (\<lambda>mb. mb\<lparr>mb_in_use := False, first_dbucket := - 1,
                                                last_dbucket := - 1, last_db_offset := 0\<rparr>) s))))))"

definition mb_chpath :: "string \<Rightarrow> string \<Rightarrow> 'z mstate_scheme \<Rightarrow> (int \<times> 'z mstate_scheme) res" where
  "mb_chpath oldpath newpath s =
     (if strncmp_eq oldpath newpath PATH_MAX then Inr (0, s)
      else
        andthen (hash oldpath) (\<lambda>h_old.
        andthen (hash newpath) (\<lambda>h_new.
        andthen (row_down_write h_old s) (\<lambda>s.
        andthen (row_down_write h_new s) (\<lambda>s.
        andthen (get_mb_and_prev oldpath s) (\<lambda>(mb_old, mb_old_prev).
        andthen (get_mb_and_prev newpath s) (\<lambda>(mb_new, mb_new_prev).
          (case mb_old of
             None \<Rightarrow> Inr (- 1, s)
           | Some i_old \<Rightarrow>
               (let old_ix = (case mb_old_prev of None \<Rightarrow> first_ix (hash_table s h_old)
                                | Some p \<Rightarrow> mb_next_ix (mb_arr s p));
                    s = upd_mb i_old (\<lambda>mb. mb\<lparr>mb_path := take PATH_MAX newpath\<rparr>) s;
                    s = relink h_old mb_old_prev (mb_next_ix (mb_arr s i_old)) s
                in case mb_new of
                     Some i_new \<Rightarrow>
                       (let s = upd_mb i_old (\<lambda>mb. mb\<lparr>mb_next_ix := mb_next_ix (mb_arr s i_new)\<rparr>) s;
                            s = relink h_new mb_new_prev old_ix s
                        in if mb_lock (mb_arr s i_new) then Inl Hang
                           else
                             (let s = upd_mb i_new (\<lambda>mb. mb\<lparr>mb_in_use := False, mb_next_ix := - 1,
                                        first_dbucket := - 1, last_dbucket := - 1,
                                        last_db_offset := 0\<rparr>) s
                              in Inr (0, row_up_write h_old (row_up_write h_new s))))
                   | None \<Rightarrow>
                       (let s = upd_mb i_old (\<lambda>mb. mb\<lparr>mb_next_ix := - 1\<rparr>) s;
                            s = relink h_new mb_new_prev old_ix s
                        in Inr (0, row_up_write h_old (row_up_write h_new s))))))))))))"

section \<open>Stores\<close>

lemma upd_hi_sel [simp, ufs_store]:
  "hash_table (upd_hi h f s) = (hash_table s)(h := f (hash_table s h))"
  "mb_arr (upd_hi h f s) = mb_arr s"
  "dbs (upd_hi h f s) = dbs s" "sysg (upd_hi h f s) = sysg s" "segs (upd_hi h f s) = segs s"
  "data_steps (upd_hi h f s) = data_steps s" "rand_pos (upd_hi h f s) = rand_pos s"
  "rand_src (upd_hi h f s) = rand_src s" "mstate.more (upd_hi h f s) = mstate.more s"
  by (simp_all add: upd_hi_def)

lemma upd_mb_sel [simp, ufs_store]:
  "mb_arr (upd_mb i f s) = (mb_arr s)(i := f (mb_arr s i))"
  "hash_table (upd_mb i f s) = hash_table s"
  "dbs (upd_mb i f s) = dbs s" "sysg (upd_mb i f s) = sysg s" "segs (upd_mb i f s) = segs s"
  "data_steps (upd_mb i f s) = data_steps s" "rand_pos (upd_mb i f s) = rand_pos s"
  "rand_src (upd_mb i f s) = rand_src s" "mstate.more (upd_mb i f s) = mstate.more s"
  by (simp_all add: upd_mb_def)

lemma row_up_write_sel [simp, ufs_store]:
  "hash_table (row_up_write h s) =
     (hash_table s)(h := (hash_table s h)\<lparr>hi_lock := up_write (hi_lock (hash_table s h))\<rparr>)"
  "mb_arr (row_up_write h s) = mb_arr s"
  "mstate.more (row_up_write h s) = mstate.more s"
  by (simp_all add: row_up_write_def)

section \<open>Lists of buckets\<close>

fun mseg :: "(nat \<Rightarrow> meta_bucket) \<Rightarrow> int \<Rightarrow> nat list \<Rightarrow> int \<Rightarrow> bool" where
  "mseg m x [] y \<longleftrightarrow> x = y"
| "mseg m x (a # as) y \<longleftrightarrow> x = int a \<and> a < META_BUCKETS \<and> mseg m (mb_next_ix (m a)) as y"

abbreviation mlist :: "(nat \<Rightarrow> meta_bucket) \<Rightarrow> int \<Rightarrow> nat list \<Rightarrow> bool" where
  "mlist m x xs \<equiv> mseg m x xs (- 1)"

lemma mseg_append: "mseg m x (xs @ ys) z \<longleftrightarrow> (\<exists>y. mseg m x xs y \<and> mseg m y ys z)"
  by (induction xs arbitrary: x) auto

lemma mseg_cong:
  "(\<And>i. i \<in> set xs \<Longrightarrow> mb_next_ix (m' i) = mb_next_ix (m i)) \<Longrightarrow> mseg m' x xs y = mseg m x xs y"
  by (induction xs arbitrary: x) auto

lemma mseg_upd_notin [simp]: "i \<notin> set xs \<Longrightarrow> mseg (m(i := v)) x xs y = mseg m x xs y"
  by (rule mseg_cong) auto

lemma mseg_in_range: "mseg m x xs y \<Longrightarrow> i \<in> set xs \<Longrightarrow> i < META_BUCKETS"
  by (induction xs arbitrary: x) auto

lemma mlist_minus1 [simp]: "mlist m (- 1) xs \<longleftrightarrow> xs = []"
  by (cases xs) auto

lemma mlist_Cons_ex: "mlist m x xs \<Longrightarrow> x \<noteq> - 1 \<Longrightarrow> \<exists>i ys. xs = i # ys \<and> x = int i \<and> i < META_BUCKETS"
  by (cases xs) auto

lemma MB_PTR_int [simp]: "i < META_BUCKETS \<Longrightarrow> MB_PTR (int i) = Inr i"
  by (simp add: MB_PTR_def)

definition last_opt :: "'a list \<Rightarrow> 'a option" where
  "last_opt xs = (if xs = [] then None else Some (last xs))"

lemma last_opt_simps [simp]: "last_opt [] = None" "last_opt (xs @ [x]) = Some x"
  by (simp_all add: last_opt_def)

text \<open>The loops of the code, on a row that is the list \<open>xs\<close>.\<close>

lemma find_mb_mlist:
  "mlist (mb_arr s) ix xs \<Longrightarrow> length xs \<le> k \<Longrightarrow>
     find_mb k str ix s = Inr (find (\<lambda>i. path_eq str i s) xs)"
proof (induction xs arbitrary: ix k)
  case Nil
  then show ?case by (subst find_mb.simps) simp
next
  case (Cons a xs)
  then show ?case by (subst find_mb.simps) auto
qed

lemma scan_row_mlist:
  "mlist (mb_arr s) (mb_next_ix (mb_arr s i)) xs \<Longrightarrow> length xs \<le> k \<Longrightarrow>
     scan_row k str i s =
       Inr (case find (\<lambda>i. path_eq str i s) (i # xs) of Some j \<Rightarrow> (True, j)
            | None \<Rightarrow> (False, last (i # xs)))"
proof (induction xs arbitrary: i k)
  case Nil
  then show ?case by (subst scan_row.simps) simp
next
  case (Cons a xs)
  then have next_a: "mb_next_ix (mb_arr s i) = int a" "a < META_BUCKETS"
      "mlist (mb_arr s) (mb_next_ix (mb_arr s a)) xs" "length xs \<le> k - 1" "k \<noteq> 0"
    by auto
  show ?case
  proof (cases "path_eq str i s")
    case True
    then show ?thesis by (subst scan_row.simps) simp
  next
    case False
    with next_a have "scan_row k str i s = scan_row (k - 1) str a s"
      by (subst scan_row.simps) simp
    with False Cons.IH [OF next_a(3,4)] show ?thesis by (simp split: option.split)
  qed
qed

lemma mb_prev_loop_mlist:
  "mlist (mb_arr s) ix xs \<Longrightarrow> length xs \<le> k \<Longrightarrow>
     (\<forall>y \<in> set xs. \<not> path_eq path y s) \<Longrightarrow>
     mb_prev_loop k path ix prev s = Inr (None, Some (last (prev # xs)))"
proof (induction xs arbitrary: ix k prev)
  case Nil
  then show ?case by (subst mb_prev_loop.simps) simp
next
  case (Cons a xs)
  then show ?case by (subst mb_prev_loop.simps) auto
qed

lemma mb_prev_loop_mlist_found:
  "mlist (mb_arr s) ix (ys @ x # zs) \<Longrightarrow> length ys < k \<Longrightarrow>
     (\<forall>y \<in> set ys. \<not> path_eq path y s) \<Longrightarrow> path_eq path x s \<Longrightarrow>
     mb_prev_loop k path ix prev s = Inr (Some x, Some (last (prev # ys)))"
proof (induction ys arbitrary: ix k prev)
  case Nil
  then show ?case by (subst mb_prev_loop.simps) auto
next
  case (Cons a ys)
  then show ?case by (subst mb_prev_loop.simps) auto
qed

lemma get_mb_and_prev_none:
  assumes "hash path = Inr h" "mlist (mb_arr s) (first_ix (hash_table s h)) xs"
    "length xs \<le> META_BUCKETS" "\<forall>y \<in> set xs. \<not> path_eq path y s"
  shows "get_mb_and_prev path s = Inr (None, last_opt xs)"
proof (cases xs)
  case Nil
  with assms show ?thesis by (simp add: get_mb_and_prev_def)
next
  case (Cons a as)
  with assms have a: "first_ix (hash_table s h) = int a" "a < META_BUCKETS" "\<not> path_eq path a s"
      "mlist (mb_arr s) (mb_next_ix (mb_arr s a)) as" "length as \<le> META_BUCKETS"
      "\<forall>y \<in> set as. \<not> path_eq path y s"
    by auto
  show ?thesis
  proof (cases "mb_next_ix (mb_arr s a) = - 1")
    case True
    with a have "as = []" by simp
    with True a assms(1) Cons show ?thesis by (simp add: get_mb_and_prev_def last_opt_def)
  next
    case False
    with a assms(1) Cons mb_prev_loop_mlist [OF a(4,5,6), of a] show ?thesis
      by (simp add: get_mb_and_prev_def last_opt_def)
  qed
qed

lemma get_mb_and_prev_some:
  assumes "hash path = Inr h" "mlist (mb_arr s) (first_ix (hash_table s h)) (ys @ x # zs)"
    "length ys \<le> META_BUCKETS" "\<forall>y \<in> set ys. \<not> path_eq path y s" "path_eq path x s"
  shows "get_mb_and_prev path s = Inr (Some x, last_opt ys)"
proof (cases ys)
  case Nil
  with assms show ?thesis by (simp add: get_mb_and_prev_def)
next
  case (Cons a as)
  with assms have a: "first_ix (hash_table s h) = int a" "a < META_BUCKETS" "\<not> path_eq path a s"
      "mlist (mb_arr s) (mb_next_ix (mb_arr s a)) (as @ x # zs)" "length as < META_BUCKETS"
      "\<forall>y \<in> set as. \<not> path_eq path y s"
    by auto
  have "mb_next_ix (mb_arr s a) \<noteq> - 1" using a(4) by auto
  with a assms(1) Cons mb_prev_loop_mlist_found [OF a(4,5,6) assms(5), of a] show ?thesis
    by (simp add: get_mb_and_prev_def last_opt_def)
qed

text \<open>Replacing the rest of a row behind the buckets \<open>ys\<close>.\<close>

lemma relink_mlist:
  assumes "mseg (mb_arr s) (first_ix (hash_table s h)) ys y" "distinct ys"
    "mlist (mb_arr s) ix ws" "set ys \<inter> set ws = {}"
  shows "mlist (mb_arr (relink h (last_opt ys) ix s))
    (first_ix (hash_table (relink h (last_opt ys) ix s) h)) (ys @ ws)"
proof (cases ys rule: rev_cases)
  case Nil
  with assms show ?thesis by (simp add: relink_def)
next
  case (snoc us p)
  with assms have "mseg (mb_arr s) (first_ix (hash_table s h)) us (int p)" "p < META_BUCKETS"
      "p \<notin> set us" "p \<notin> set ws"
    by (auto simp: mseg_append)
  with assms(3) snoc show ?thesis
    by (auto simp: relink_def mseg_append)
qed

lemma relink_hash_table:
  "h' \<noteq> h \<Longrightarrow> hash_table (relink h prev ix s) h' = hash_table s h'"
  "hi_lock (hash_table (relink h prev ix s) h') = hi_lock (hash_table s h')"
  by (auto simp: relink_def split: option.split)

lemma relink_mb_arr:
  "mb_arr (relink h (last_opt ys) ix s) i =
     (if ys \<noteq> [] \<and> i = last ys then (mb_arr s i)\<lparr>mb_next_ix := ix\<rparr> else mb_arr s i)"
  by (auto simp: relink_def last_opt_def split: option.split)

lemma relink_None_arr [simp]: "mb_arr (relink h None ix s) = mb_arr s"
  by (simp add: relink_def)

lemma relink_more [simp]: "mstate.more (relink h prev ix s) = mstate.more s"
  by (auto simp: relink_def split: option.split)

lemma relink_dstate [simp]:
  "dbs (relink h prev ix s) = dbs s" "sysg (relink h prev ix s) = sysg s"
  "segs (relink h prev ix s) = segs s" "data_steps (relink h prev ix s) = data_steps s"
  by (auto simp: relink_def split: option.split)

end
