(* ===== verification/Ufs_Fd.thy ===== *)
theory Ufs_Fd
  imports Ufs_Meta
begin

text \<open>
  The state of one process on top of the shared memory, and \<open>system/util/fd.c\<close>: the table of file
  descriptors.

  The operating system's own calls (\<open>real_open\<close>, \<open>real_read\<close>, \<open>clock_gettime\<close>, \<dots>) are code
  outside the repository: they are the fields of a record \<open>os\<close> over an abstract disk, an argument
  of every definition that uses them. A call returns its result, the value it leaves in \<open>errno\<close>
  (\<open>None\<close> when it leaves it alone) and the new disk.
\<close>

section \<open>Process state\<close>

definition MAX_NUM_FD :: int where
  [ufs_config]: "MAX_NUM_FD = 4096"

definition FIRST_USER_FD :: int where
  [ufs_config]: "FIRST_USER_FD = 1024"

definition OFFSET_PROCESS_CACHE_SIZE :: nat where
  [ufs_config]: "OFFSET_PROCESS_CACHE_SIZE = 1"

record off_db_mapping_item =
  oi_offset :: int
  oi_dbindex :: u32

record fd_info =
  mindex :: u32
  fd_flags :: int
  priv_s :: stat
  stamp_type :: u32
  off_db_mapping :: "nat \<Rightarrow> off_db_mapping_item"
  off_db_ptr :: nat
  exclusive :: bool
  fd_empty :: bool

record 'd ustate = mstate +
  fdTable :: "nat \<Rightarrow> fd_info"
  errno :: int
  calling_shm_open :: bool
  calling_shm_unlink :: bool
  clock_src :: "nat \<Rightarrow> timespec"
  clock_pos :: nat
  disk :: 'd

record 'd os =
  os_stat :: "string \<Rightarrow> 'd \<Rightarrow> ((int \<times> stat) \<times> int option) \<times> 'd"
  os_lstat :: "string \<Rightarrow> 'd \<Rightarrow> ((int \<times> stat) \<times> int option) \<times> 'd"
  os_fstat :: "int \<Rightarrow> 'd \<Rightarrow> ((int \<times> stat) \<times> int option) \<times> 'd"
  os_open :: "string \<Rightarrow> u32 \<Rightarrow> nat \<Rightarrow> 'd \<Rightarrow> (int \<times> int option) \<times> 'd"
  os_close :: "int \<Rightarrow> 'd \<Rightarrow> (int \<times> int option) \<times> 'd"
  os_read :: "int \<Rightarrow> nat \<Rightarrow> 'd \<Rightarrow> ((int \<times> byte list) \<times> int option) \<times> 'd"
  os_write :: "int \<Rightarrow> byte list \<Rightarrow> 'd \<Rightarrow> (int \<times> int option) \<times> 'd"
  os_pread :: "int \<Rightarrow> nat \<Rightarrow> int \<Rightarrow> 'd \<Rightarrow> ((int \<times> byte list) \<times> int option) \<times> 'd"
  os_pwrite :: "int \<Rightarrow> byte list \<Rightarrow> int \<Rightarrow> 'd \<Rightarrow> (int \<times> int option) \<times> 'd"
  os_unlink :: "string \<Rightarrow> 'd \<Rightarrow> (int \<times> int option) \<times> 'd"
  os_rename :: "string \<Rightarrow> string \<Rightarrow> 'd \<Rightarrow> (int \<times> int option) \<times> 'd"
  os_getcwd :: "'d \<Rightarrow> string option"

definition os_call :: "('d \<Rightarrow> ('a \<times> int option) \<times> 'd) \<Rightarrow> ('d, 'z) ustate_scheme \<Rightarrow> 'a \<times> ('d, 'z) ustate_scheme" where
  "os_call f s =
     (case f (disk s) of ((r, e), d) \<Rightarrow>
        (r, s\<lparr>disk := d, errno := (case e of None \<Rightarrow> errno s | Some x \<Rightarrow> x)\<rparr>))"

definition upd_fd :: "nat \<Rightarrow> (fd_info \<Rightarrow> fd_info) \<Rightarrow> ('d, 'z) ustate_scheme \<Rightarrow> ('d, 'z) ustate_scheme" where
  "upd_fd i f s = s\<lparr>fdTable := (fdTable s)(i := f (fdTable s i))\<rparr>"

text \<open>\<open>FDDES(fd)\<close>: a descriptor outside the table is no entry of it.\<close>

definition FDDES :: "int \<Rightarrow> nat res" where
  "FDDES fd = (if 0 \<le> fd \<and> fd < MAX_NUM_FD then Inr (nat fd) else Inl Fault)"

section \<open>The descriptor table\<close>

definition clear_cache :: "fd_info \<Rightarrow> fd_info" where
  "clear_cache fi = fi\<lparr>off_db_mapping :=
     (\<lambda>j. if j < OFFSET_PROCESS_CACHE_SIZE then (off_db_mapping fi j)\<lparr>oi_offset := - 1\<rparr> else off_db_mapping fi j)\<rparr>"

text \<open>What the three loops of \<open>init_fdTable\<close> store into entry \<open>i\<close>.\<close>

definition init_fd :: "nat \<Rightarrow> fd_info \<Rightarrow> fd_info" where
  "init_fd i fi =
     (if i < 3 then clear_cache (fi\<lparr>mindex := - 1, exclusive := True, fd_empty := False, stamp_type := 0\<rparr>)
      else if int i < FIRST_USER_FD then
        clear_cache (fi\<lparr>mindex := - 1, exclusive := True, fd_empty := True, stamp_type := 0\<rparr>)
      else if int i < MAX_NUM_FD then
        clear_cache (fi\<lparr>mindex := - 1, fd_flags := 0, exclusive := False, fd_empty := True, stamp_type := 0\<rparr>)
      else fi)"

definition init_fdTable :: "('d, 'z) ustate_scheme \<Rightarrow> ('d, 'z) ustate_scheme" where
  "init_fdTable s = s\<lparr>fdTable := (\<lambda>i. init_fd i (fdTable s i))\<rparr>"

function get_empty_fd :: "int \<Rightarrow> int \<Rightarrow> ('d, 'z) ustate_scheme \<Rightarrow> (int \<times> ('d, 'z) ustate_scheme) res" where
  "get_empty_fd from to s =
     (if from \<le> to then
        andthen (FDDES from) (\<lambda>i.
          if fd_empty (fdTable s i) then Inr (from, upd_fd i (\<lambda>fi. fi\<lparr>fd_empty := False\<rparr>) s)
          else get_empty_fd (from + 1) to s)
      else Inr (- 1, s))"
  by pat_completeness auto
termination
  by (relation "measure (\<lambda>(from, to, s). nat (to + 1 - from))") auto

declare get_empty_fd.simps [simp del]

definition reset_fd :: "int \<Rightarrow> ('d, 'z) ustate_scheme \<Rightarrow> ('d, 'z) ustate_scheme res" where
  "reset_fd fd s = andthen (FDDES fd) (\<lambda>i.
     Inr (upd_fd i (\<lambda>fi. clear_cache
       (fi\<lparr>mindex := - 1, fd_flags := 0, stamp_type := 0, exclusive := False, fd_empty := True\<rparr>)) s))"

section \<open>Properties\<close>

lemma upd_fd_sel [simp, ufs_store]:
  "fdTable (upd_fd i f s) = (fdTable s)(i := f (fdTable s i))"
  "errno (upd_fd i f s) = errno s" "disk (upd_fd i f s) = disk s"
  "mb_arr (upd_fd i f s) = mb_arr s" "hash_table (upd_fd i f s) = hash_table s"
  "dbs (upd_fd i f s) = dbs s" "sysg (upd_fd i f s) = sysg s" "data_steps (upd_fd i f s) = data_steps s"
  "segs (upd_fd i f s) = segs s"
  by (simp_all add: upd_fd_def)

lemma FDDES_nat [simp]: "int i < MAX_NUM_FD \<Longrightarrow> FDDES (int i) = Inr i"
  by (simp add: FDDES_def)

lemma get_empty_fd_finds:
  assumes "0 \<le> lo" "j < MAX_NUM_FD" "j \<le> to" "lo \<le> j" "fd_empty (fdTable s (nat j))"
    "\<And>i. lo \<le> i \<Longrightarrow> i < j \<Longrightarrow> \<not> fd_empty (fdTable s (nat i))"
  shows "get_empty_fd lo to s = Inr (j, upd_fd (nat j) (\<lambda>fi. fi\<lparr>fd_empty := False\<rparr>) s)"
  using assms
proof (induction "nat (j - lo)" arbitrary: lo)
  case 0
  then have "lo = j" by simp
  with 0 show ?case by (subst get_empty_fd.simps) (simp add: FDDES_def)
next
  case (Suc n)
  then have "lo < j" by simp
  with Suc have "get_empty_fd (lo + 1) to s = Inr (j, upd_fd (nat j) (\<lambda>fi. fi\<lparr>fd_empty := False\<rparr>) s)"
    by (intro Suc.hyps(1)) auto
  with Suc.prems \<open>lo < j\<close> show ?case by (subst get_empty_fd.simps) (simp add: FDDES_def)
qed

lemma get_empty_fd_past_end:
  assumes "0 \<le> lo" "MAX_NUM_FD \<le> to" "lo \<le> MAX_NUM_FD"
    "\<And>i. lo \<le> i \<Longrightarrow> i < MAX_NUM_FD \<Longrightarrow> \<not> fd_empty (fdTable s (nat i))"
  shows "get_empty_fd lo to s = Inl Fault"
  using assms
proof (induction "nat (MAX_NUM_FD - lo)" arbitrary: lo)
  case 0
  then show ?case by (subst get_empty_fd.simps) (simp add: FDDES_def)
next
  case (Suc n)
  then have "lo < MAX_NUM_FD" by simp
  with Suc have "get_empty_fd (lo + 1) to s = Inl Fault" by (intro Suc.hyps(1)) auto
  with Suc.prems \<open>lo < MAX_NUM_FD\<close> show ?case by (subst get_empty_fd.simps) (simp add: FDDES_def)
qed

text \<open>
  (C40) Descriptor allocation as \<open>open\<close> asks for it: the lowest empty user descriptor is returned and
  marked, the others stay; when there is none, the loop, whose bound is inclusive, reads the
  entry behind the table instead of returning -1.
\<close>

theorem get_empty_fd_lowest_or_overrun:
  "if \<exists>j. FIRST_USER_FD \<le> j \<and> j < MAX_NUM_FD \<and> fd_empty (fdTable s (nat j))
   then (\<exists>j. get_empty_fd FIRST_USER_FD MAX_NUM_FD s = Inr (j, upd_fd (nat j) (\<lambda>fi. fi\<lparr>fd_empty := False\<rparr>) s) \<and>
           FIRST_USER_FD \<le> j \<and> j < MAX_NUM_FD \<and> fd_empty (fdTable s (nat j)) \<and>
           {i. FIRST_USER_FD \<le> i \<and> i < j \<and> fd_empty (fdTable s (nat i))} = {})
   else get_empty_fd FIRST_USER_FD MAX_NUM_FD s = Inl Fault"
proof (cases "\<exists>j. FIRST_USER_FD \<le> j \<and> j < MAX_NUM_FD \<and> fd_empty (fdTable s (nat j))")
  case True
  then have "\<exists>n. FIRST_USER_FD + int n < MAX_NUM_FD \<and> fd_empty (fdTable s (nat (FIRST_USER_FD + int n)))"
    by (metis add_diff_cancel_left' diff_add_cancel le_add_diff_inverse zle_iff_zadd)
  then obtain n where n: "FIRST_USER_FD + int n < MAX_NUM_FD" "fd_empty (fdTable s (nat (FIRST_USER_FD + int n)))"
    and least: "\<And>m. m < n \<Longrightarrow> \<not> (FIRST_USER_FD + int m < MAX_NUM_FD \<and> fd_empty (fdTable s (nat (FIRST_USER_FD + int m))))"
    using exists_least_iff [of "\<lambda>n. FIRST_USER_FD + int n < MAX_NUM_FD \<and> fd_empty (fdTable s (nat (FIRST_USER_FD + int n)))"]
    by blast
  let ?j = "FIRST_USER_FD + int n"
  have below: "\<not> fd_empty (fdTable s (nat i))" if "FIRST_USER_FD \<le> i" "i < ?j" for i
    using least [of "nat (i - FIRST_USER_FD)"] that n(1) by auto
  have "get_empty_fd FIRST_USER_FD MAX_NUM_FD s = Inr (?j, upd_fd (nat ?j) (\<lambda>fi. fi\<lparr>fd_empty := False\<rparr>) s)"
    using n below by (intro get_empty_fd_finds) (auto simp: ufs_config)
  with True n below show ?thesis by auto
next
  case False
  then have "get_empty_fd FIRST_USER_FD MAX_NUM_FD s = Inl Fault"
    by (intro get_empty_fd_past_end) (auto simp: ufs_config)
  with False show ?thesis by simp
qed

end
