(* ===== verification/Ufs_File.thy ===== *)
theory Ufs_File
  imports Ufs_Data
begin

text \<open>
  The loops of \<open>read\<close>, \<open>write\<close>, \<open>pread\<close> and \<open>pwrite\<close> (\<open>system/lib/file_syscalls.c\<close>) over the
  chain of data buckets of a file, and the truncation loop of \<open>open\<close>.

  A \<open>memcpy\<close> that leaves the 4096 bytes of a bucket is \<open>Fault\<close>. The writing loops end because
  every round but the first writes at least one byte. The reading loops may go round a cyclic
  chain of empty buckets forever; they carry as fuel the number of rounds after which that is
  certain (\<open>loop_fuel\<close>): a round reads a byte or moves to another bucket, and after as many
  rounds as there are buckets without a byte the loop is back at a bucket it has been at.

  The second half relates the loops to the contents of the file: the concatenation of the used
  parts of its buckets.
\<close>

section \<open>The loops\<close>

definition loop_fuel :: "nat \<Rightarrow> 'z dstate_scheme \<Rightarrow> nat" where
  "loop_fuel c s = Suc c * Suc (Suc (live s))"

fun read_loop ::
  "nat \<Rightarrow> u32 \<Rightarrow> nat \<Rightarrow> nat \<Rightarrow> byte list \<Rightarrow> 'z dstate_scheme \<Rightarrow> ((byte list \<times> u32 \<times> nat) \<times> 'z dstate_scheme) res" where
  "read_loop k dbindex off c out s =
     (if k = 0 then Inl Hang
      else andthen (get_dbucket_ptr dbindex s) (\<lambda>(p, s).
        (let db = dbs s p; avail = sz_sub (db_bytes db) off in
         if c \<le> avail then
           (if 0 < c \<and> DBUCKET_BUF_SIZE < off + c then Inl Fault
            else Inr ((out @ mem_read (db_buf db) off c, dbindex, off + c), s))
         else if 0 < avail \<and> DBUCKET_BUF_SIZE < off + avail then Inl Fault
         else if db_next_ix db \<noteq> nil_ix then
           read_loop (k - 1) (db_next_ix db) 0 (c - avail) (out @ mem_read (db_buf db) off avail) s
         else Inr ((out @ mem_read (db_buf db) off avail, dbindex, db_bytes db), s))))"

declare read_loop.simps [simp del]

text \<open>One \<open>memcpy\<close> into a bucket with the update of \<open>bytes\<close> behind it; \<open>grow\<close> is what it adds to
  \<open>size_ind\<close>.\<close>

definition put_bytes :: "nat \<Rightarrow> byte list \<Rightarrow> data_bucket \<Rightarrow> data_bucket" where
  "put_bytes off d db = db\<lparr>db_buf := mem_write (db_buf db) off d,
     db_bytes := (if off + length d > db_bytes db then off + length d else db_bytes db)\<rparr>"

definition grow :: "nat \<Rightarrow> nat \<Rightarrow> data_bucket \<Rightarrow> nat" where
  "grow off c db = (if off + c > db_bytes db then off + c - db_bytes db else 0)"

text \<open>The step to the next bucket of a chain being written: at its end a new one is linked in.\<close>

definition next_or_new ::
  "('z dstate_scheme \<Rightarrow> (u32 \<times> 'z dstate_scheme) res) \<Rightarrow> nat \<Rightarrow> 'z dstate_scheme \<Rightarrow> (u32 \<times> 'z dstate_scheme) res" where
  "next_or_new alloc p s =
     (if db_next_ix (dbs s p) = nil_ix then
        andthen (alloc s) (\<lambda>(ix, s). Inr (ix, upd_db p (\<lambda>db. db\<lparr>db_next_ix := ix\<rparr>) s))
      else Inr (db_next_ix (dbs s p), s))"

function write_loop ::
  "('z dstate_scheme \<Rightarrow> (u32 \<times> 'z dstate_scheme) res) \<Rightarrow> u32 \<Rightarrow> nat \<Rightarrow> byte list \<Rightarrow> nat \<Rightarrow> nat \<Rightarrow>
     'z dstate_scheme \<Rightarrow> ((nat \<times> nat \<times> u32 \<times> nat) \<times> 'z dstate_scheme) res" where
  "write_loop alloc dbindex off d n size_ind s =
     andthen (get_dbucket_ptr dbindex s) (\<lambda>(p, s).
       (let room = sz_sub DBUCKET_BUF_SIZE off; c = length d in
        if c \<le> room then
          (if 0 < c \<and> DBUCKET_BUF_SIZE < off + c then Inl Fault
           else Inr ((n + c, size_ind + grow off c (dbs s p), dbindex, off + c),
                     upd_db p (put_bytes off d) s))
        else if DBUCKET_BUF_SIZE < off then Inl Fault
        else
          (let size_ind = size_ind + grow off room (dbs s p);
               s = upd_db p (put_bytes off (take room d)) s
           in andthen (next_or_new alloc p s) (\<lambda>(ix, s).
                write_loop alloc ix 0 (drop room d) (n + room) size_ind s))))"
  by pat_completeness auto
termination
  by (relation "measure (\<lambda>(alloc, dbindex, off, d, n, size_ind, s). length d + (if off = 0 then 0 else 1))")
    (auto simp: ufs_config)

declare write_loop.simps [simp del]

text \<open>\<open>for (i = 0; i < rounds; i++)\<close>: \<open>None\<close> is the early return when the chain is too short.\<close>

fun seek_loop :: "nat \<Rightarrow> u32 \<Rightarrow> 'z dstate_scheme \<Rightarrow> (u32 option \<times> 'z dstate_scheme) res" where
  "seek_loop 0 dbindex s = Inr (Some dbindex, s)"
| "seek_loop (Suc rounds) dbindex s =
     (if dbindex = nil_ix then Inr (None, s)
      else andthen (get_dbucket_ptr dbindex s) (\<lambda>(p, s). seek_loop rounds (db_next_ix (dbs s p)) s))"

fun pread_loop ::
  "nat \<Rightarrow> u32 \<Rightarrow> nat \<Rightarrow> nat \<Rightarrow> byte list \<Rightarrow> 'z dstate_scheme \<Rightarrow> (byte list \<times> 'z dstate_scheme) res" where
  "pread_loop k dbindex off c out s =
     (if dbindex = nil_ix then Inr (out, s)
      else if k = 0 then Inl Hang
      else andthen (get_dbucket_ptr dbindex s) (\<lambda>(p, s).
        (let db = dbs s p; avail = sz_sub (db_bytes db) off in
         if c \<le> avail then
           (if 0 < c \<and> DBUCKET_BUF_SIZE < off + c then Inl Fault
            else Inr (out @ mem_read (db_buf db) off c, s))
         else if 0 < avail \<and> DBUCKET_BUF_SIZE < off + avail then Inl Fault
         else pread_loop (k - 1) (db_next_ix db) 0 (c - avail) (out @ mem_read (db_buf db) off avail) s)))"

declare pread_loop.simps [simp del]

function pwrite_loop ::
  "('z dstate_scheme \<Rightarrow> (u32 \<times> 'z dstate_scheme) res) \<Rightarrow> u32 \<Rightarrow> nat \<Rightarrow> byte list \<Rightarrow> nat \<Rightarrow> nat \<Rightarrow>
     'z dstate_scheme \<Rightarrow> ((nat \<times> nat) \<times> 'z dstate_scheme) res" where
  "pwrite_loop alloc dbindex off d n size_ind s =
     (if dbindex = nil_ix then Inr ((n, size_ind), s)
      else andthen (get_dbucket_ptr dbindex s) (\<lambda>(p, s).
       (let room = sz_sub DBUCKET_BUF_SIZE off; c = length d in
        if c \<le> room then
          (if 0 < c \<and> DBUCKET_BUF_SIZE < off + c then Inl Fault
           else Inr ((n + c, size_ind + grow off c (dbs s p)), upd_db p (put_bytes off d) s))
        else if DBUCKET_BUF_SIZE < off then Inl Fault
        else
          (let size_ind = size_ind + grow off room (dbs s p);
               s = upd_db p (put_bytes off (take room d)) s
           in andthen (next_or_new alloc p s) (\<lambda>(ix, s).
                pwrite_loop alloc ix 0 (drop room d) (n + room) size_ind s)))))"
  by pat_completeness auto
termination
  by (relation "measure (\<lambda>(alloc, dbindex, off, d, n, size_ind, s). length d + (if off = 0 then 0 else 1))")
    (auto simp: ufs_config)

declare pwrite_loop.simps [simp del]

text \<open>The loop of \<open>open\<close> with \<open>O_TRUNC\<close>, after the first bucket: the chain is kept, its buckets
  are emptied. Fuel as for the walks over a row: more rounds than buckets is a cycle.\<close>

fun trunc_loop :: "nat \<Rightarrow> u32 \<Rightarrow> 'z dstate_scheme \<Rightarrow> 'z dstate_scheme res" where
  "trunc_loop k dbindex s =
     (if dbindex = nil_ix then Inr s
      else if k = 0 then Inl Hang
      else andthen (get_dbucket_ptr dbindex s) (\<lambda>(p, s).
        trunc_loop (k - 1) (db_next_ix (dbs s p)) (upd_db p (\<lambda>db. db\<lparr>db_bytes := 0\<rparr>) s)))"

declare trunc_loop.simps [simp del]

definition truncate_chain :: "u32 \<Rightarrow> 'z dstate_scheme \<Rightarrow> 'z dstate_scheme res" where
  "truncate_chain first s =
     andthen (get_dbucket_ptr first s) (\<lambda>(p, s).
       trunc_loop (Suc (live s)) (db_next_ix (dbs s p)) (upd_db p (\<lambda>db. db\<lparr>db_bytes := 0\<rparr>) s))"

section \<open>Chains and contents\<close>

fun dchain :: "'z dstate_scheme \<Rightarrow> u32 \<Rightarrow> nat list \<Rightarrow> bool" where
  "dchain s ix [] \<longleftrightarrow> ix = nil_ix"
| "dchain s ix (p # ps) \<longleftrightarrow>
     unat ix = p \<and> p < live s \<and> db_in_use (dbs s p) \<and> db_bytes (dbs s p) \<le> DBUCKET_BUF_SIZE \<and>
     dchain s (db_next_ix (dbs s p)) ps"

definition used :: "'z dstate_scheme \<Rightarrow> nat \<Rightarrow> byte list" where
  "used s p = mem_read (db_buf (dbs s p)) 0 (db_bytes (dbs s p))"

definition content :: "'z dstate_scheme \<Rightarrow> nat list \<Rightarrow> byte list" where
  "content s ps = concat (map (used s) ps)"

text \<open>A bucket that is not full is followed by empty ones only.\<close>

fun packed :: "'z dstate_scheme \<Rightarrow> nat list \<Rightarrow> bool" where
  "packed s [] \<longleftrightarrow> True"
| "packed s (p # ps) \<longleftrightarrow>
     (db_bytes (dbs s p) = DBUCKET_BUF_SIZE \<or> (\<forall>q \<in> set ps. db_bytes (dbs s q) = 0)) \<and> packed s ps"

definition full :: "'z dstate_scheme \<Rightarrow> nat list \<Rightarrow> bool" where
  "full s ps \<longleftrightarrow> (\<forall>p \<in> set ps. db_bytes (dbs s p) = DBUCKET_BUF_SIZE)"

lemma length_used [simp]: "length (used s p) = db_bytes (dbs s p)"
  by (simp add: used_def)

lemma content_simps [simp]:
  "content s [] = []" "content s (p # ps) = used s p @ content s ps"
  "content s (ps @ qs) = content s ps @ content s qs"
  by (simp_all add: content_def)

lemma full_simps [simp]:
  "full s []" "full s (p # ps) \<longleftrightarrow> db_bytes (dbs s p) = DBUCKET_BUF_SIZE \<and> full s ps"
  "full s (ps @ qs) \<longleftrightarrow> full s ps \<and> full s qs"
  by (auto simp: full_def)

lemma length_content_full: "full s ps \<Longrightarrow> length (content s ps) = DBUCKET_BUF_SIZE * length ps"
  by (induction ps) auto

lemma content_empty: "\<forall>q \<in> set ps. db_bytes (dbs s q) = 0 \<Longrightarrow> content s ps = []"
  by (induction ps) (auto simp: used_def)

lemma packed_append: "packed s (xs @ ys) \<longleftrightarrow>
    packed s xs \<and> packed s ys \<and> (full s xs \<or> (\<forall>q \<in> set ys. db_bytes (dbs s q) = 0))"
  by (induction xs) auto

lemma full_packed: "full s xs \<Longrightarrow> packed s xs"
  by (induction xs) auto

lemma packed_tail_empty:
  "packed s (p # ps) \<Longrightarrow> db_bytes (dbs s p) \<noteq> DBUCKET_BUF_SIZE \<Longrightarrow> content s ps = []"
  by (auto intro: content_empty)

lemma dchain_in_use: "dchain s ix ps \<Longrightarrow> p \<in> set ps \<Longrightarrow> db_in_use (dbs s p) \<and> p < live s"
  by (induction ps arbitrary: ix) auto

lemma dchain_bytes: "dchain s ix ps \<Longrightarrow> p \<in> set ps \<Longrightarrow> db_bytes (dbs s p) \<le> DBUCKET_BUF_SIZE"
  by (induction ps arbitrary: ix) auto

lemma dchain_nil_ix: "dinv s \<Longrightarrow> dchain s nil_ix ps \<longleftrightarrow> ps = []"
  using live_bound [of s] by (cases ps) auto

lemma dchain_cons:
  assumes "dinv s" "dchain s ix ps" "ix \<noteq> nil_ix"
  obtains qs where "ps = unat ix # qs"
  using assms by (cases ps) auto

text \<open>Frame: what does not touch the buckets of a chain keeps it.\<close>

lemma dchain_frame:
  assumes "\<And>p. p \<in> set ps \<Longrightarrow> dbs s' p = dbs s p" "live s' = live s"
  shows "dchain s' ix ps = dchain s ix ps" "content s' ps = content s ps"
    "packed s' ps = packed s ps" "full s' ps = full s ps"
proof -
  show "dchain s' ix ps = dchain s ix ps"
    using assms by (induction ps arbitrary: ix) auto
  show "content s' ps = content s ps"
    using assms(1) by (induction ps) (auto simp: used_def)
  show "packed s' ps = packed s ps"
    using assms(1) by (induction ps) auto
  show "full s' ps = full s ps"
    using assms(1) by (auto simp: full_def)
qed

lemma dchain_unique: "dchain s ix ps \<Longrightarrow> dchain s ix qs \<Longrightarrow> dinv s \<Longrightarrow> ps = qs"
proof (induction ps arbitrary: ix qs)
  case Nil
  then show ?case by (simp add: dchain_nil_ix)
next
  case (Cons p ps)
  then have "ix \<noteq> nil_ix" using live_bound [of s] by auto
  with Cons.prems obtain qs' where qs: "qs = p # qs'" by (auto elim: dchain_cons)
  with Cons show ?case by auto
qed

lemma dchain_append:
  "dchain s ix (ps @ qs) \<Longrightarrow> \<exists>iy. dchain s iy qs"
  by (induction ps arbitrary: ix) auto

text \<open>A chain never meets a bucket twice.\<close>

lemma dchain_distinct: "dchain s ix ps \<Longrightarrow> dinv s \<Longrightarrow> distinct ps"
proof (induction ps arbitrary: ix)
  case (Cons p ps)
  have "p \<notin> set ps"
  proof
    assume "p \<in> set ps"
    then obtain us vs where ps: "ps = us @ p # vs" by (meson split_list)
    with Cons.prems(1) have "dchain s (db_next_ix (dbs s p)) (us @ p # vs)" by simp
    then obtain iy where iy: "dchain s iy (p # vs)" using dchain_append by blast
    with Cons.prems(1) have "iy = ix" by (auto simp: word_unat_eq_iff)
    with iy dchain_unique [OF Cons.prems(1) _ Cons.prems(2)] have "p # ps = p # vs" by blast
    with ps show False by simp
  qed
  with Cons show ?case by auto
qed simp

lemma dchain_length: "dchain s ix ps \<Longrightarrow> dinv s \<Longrightarrow> length ps \<le> live s"
  by (rule distinct_bounded_length [OF dchain_distinct]) (auto dest: dchain_in_use)

section \<open>Reading\<close>

text \<open>\<open>at_pos s ps ix off n\<close>: the cursor (bucket \<open>ix\<close>, offset \<open>off\<close>) stands behind the first \<open>n\<close> bytes
  of the chain \<open>ps\<close>.\<close>

definition at_pos :: "'z dstate_scheme \<Rightarrow> nat list \<Rightarrow> u32 \<Rightarrow> nat \<Rightarrow> nat \<Rightarrow> bool" where
  "at_pos s ps ix off n \<longleftrightarrow>
     (\<exists>us vs. ps = us @ unat ix # vs \<and> off \<le> db_bytes (dbs s (unat ix)) \<and> length (content s us) + off = n)"

lemma at_posI:
  "ps = us @ unat ix # vs \<Longrightarrow> off \<le> db_bytes (dbs s (unat ix)) \<Longrightarrow> length (content s us) + off = n \<Longrightarrow>
     at_pos s ps ix off n"
  by (auto simp: at_pos_def)

lemma at_pos_Cons:
  "at_pos s ps ix off n \<Longrightarrow> at_pos s (p # ps) ix off (db_bytes (dbs s p) + n)"
  unfolding at_pos_def
proof (elim exE conjE)
  fix us vs
  assume "ps = us @ unat ix # vs" "off \<le> db_bytes (dbs s (unat ix))" "length (content s us) + off = n"
  then show "\<exists>us vs. p # ps = us @ unat ix # vs \<and> off \<le> db_bytes (dbs s (unat ix)) \<and>
      length (content s us) + off = db_bytes (dbs s p) + n"
    by (intro exI [of _ "p # us"] exI [of _ vs]) auto
qed

lemma at_pos_append:
  "at_pos s ps ix off n \<Longrightarrow> at_pos s (us @ ps) ix off (length (content s us) + n)"
  by (induction us) (auto dest: at_pos_Cons simp: add.assoc)

lemma used_part:
  assumes "off + c \<le> db_bytes (dbs s p)"
  shows "take c (drop off (used s p @ rest)) = mem_read (db_buf (dbs s p)) off c"
  using assms by (simp add: used_def drop_mem_read take_mem_read)

lemma used_rest:
  assumes "off \<le> db_bytes (dbs s p)" "db_bytes (dbs s p) - off < c"
  shows "take c (drop off (used s p @ rest)) =
    mem_read (db_buf (dbs s p)) off (db_bytes (dbs s p) - off) @ take (c - (db_bytes (dbs s p) - off)) rest"
  using assms by (simp add: used_def drop_mem_read)

text \<open>One round on a bucket of a chain.\<close>

lemma read_loop_round:
  assumes "dinv s" "dchain s ix (p # ps)" "off \<le> db_bytes (dbs s p)"
  defines "b \<equiv> db_bytes (dbs s p)"
  shows "read_loop (Suc k) ix off c out s =
    (if c \<le> b - off then Inr ((out @ take c (drop off (used s p)), ix, off + c), s)
     else if ps = [] then Inr ((out @ drop off (used s p), ix, b), s)
     else read_loop k (db_next_ix (dbs s p)) 0 (c - (b - off)) (out @ drop off (used s p)) s)"
proof -
  have ptr: "get_dbucket_ptr ix s = Inr (p, s)" and b: "b \<le> DBUCKET_BUF_SIZE"
    using assms(2) get_dbucket_ptr_live [OF assms(1), of ix] by (auto simp: b_def)
  have nx: "db_next_ix (dbs s p) = nil_ix \<longleftrightarrow> ps = []"
    using assms(2) live_not_nil [OF assms(1)] by (cases ps) auto
  have part: "c \<le> b - off \<Longrightarrow> mem_read (db_buf (dbs s p)) off c = take c (drop off (used s p))"
    using used_part [of off c s p "[]"] assms(3) by (simp add: b_def)
  have rest: "mem_read (db_buf (dbs s p)) off (b - off) = drop off (used s p)"
    by (simp add: used_def drop_mem_read b_def)
  show ?thesis
  proof (cases "c \<le> b - off")
    case True
    with b assms(3) have "\<not> DBUCKET_BUF_SIZE < off + c" by (simp add: b_def)
    with True assms(3) part show ?thesis
      by (subst read_loop.simps) (simp add: ptr b_def [symmetric] Let_def)
  next
    case False
    have "\<not> DBUCKET_BUF_SIZE < off + (b - off)" using b assms(3) by (simp add: b_def)
    with False assms(3) rest nx show ?thesis
      by (subst read_loop.simps) (simp add: ptr b_def [symmetric] Let_def)
  qed
qed

lemma read_loop_chain:
  assumes "dinv s" "dchain s ix (p # ps)" "off \<le> db_bytes (dbs s p)" "length ps \<le> k"
  shows "\<exists>ix' off'. read_loop (Suc k) ix off c out s =
      Inr ((out @ take c (drop off (content s (p # ps))), ix', off'), s) \<and>
    at_pos s (p # ps) ix' off' (off + length (take c (drop off (content s (p # ps)))))"
  using assms(2-)
proof (induction ps arbitrary: ix p off c out k)
  case Nil
  note r = read_loop_round [OF assms(1) Nil(1,2), of k c out]
  have "unat ix = p" using Nil by simp
  with Nil show ?case unfolding r by (auto intro!: at_posI [of _ "[]"])
next
  case (Cons q qs)
  let ?b = "db_bytes (dbs s p)"
  note r = read_loop_round [OF assms(1) Cons.prems(1,2), of k c out]
  have ix: "unat ix = p" "dchain s (db_next_ix (dbs s p)) (q # qs)" using Cons.prems by simp_all
  show ?case
  proof (cases "c \<le> ?b - off")
    case True
    with Cons.prems ix show ?thesis unfolding r by (auto intro!: at_posI [of _ "[]"])
  next
    case False
    let ?c = "c - (?b - off)" and ?out = "out @ drop off (used s p)"
    obtain k' where k: "k = Suc k'" "length qs \<le> k'" using Cons.prems(3) by (cases k) auto
    obtain ix' off' where
      "read_loop k (db_next_ix (dbs s p)) 0 ?c ?out s = Inr ((?out @ take ?c (content s (q # qs)), ix', off'), s)"
      and pos: "at_pos s (q # qs) ix' off' (length (take ?c (content s (q # qs))))"
      using Cons.IH [OF ix(2) _ k(2), of 0 ?c ?out] k(1) by auto
    moreover have "drop off (content s (p # q # qs)) = drop off (used s p) @ content s (q # qs)"
      using Cons.prems(2) by simp
    moreover have "off + length (take c (drop off (content s (p # q # qs)))) =
        ?b + length (take ?c (content s (q # qs)))"
      using False Cons.prems(2) by (simp add: min_def)
    ultimately show ?thesis
      using False at_pos_Cons [OF pos, of p] unfolding r by auto
  qed
qed

section \<open>Writing\<close>

text \<open>\<open>d\<close> written over \<open>old\<close> from position \<open>n\<close> on.\<close>

definition splice :: "'a list \<Rightarrow> nat \<Rightarrow> 'a list \<Rightarrow> 'a list" where
  "splice old n d = take n old @ d @ drop (n + length d) old"

text \<open>Like \<open>at_pos\<close>, with every bucket before the cursor full: position and offset in the file
  agree.\<close>

definition at_fpos :: "'z dstate_scheme \<Rightarrow> nat list \<Rightarrow> u32 \<Rightarrow> nat \<Rightarrow> nat \<Rightarrow> bool" where
  "at_fpos s ps ix off n \<longleftrightarrow>
     (\<exists>us vs. ps = us @ unat ix # vs \<and> full s us \<and> off \<le> db_bytes (dbs s (unat ix)) \<and>
        DBUCKET_BUF_SIZE * length us + off = n)"

lemma at_fpos_here: "ps = unat ix # vs \<Longrightarrow> off \<le> db_bytes (dbs s (unat ix)) \<Longrightarrow> at_fpos s ps ix off off"
  unfolding at_fpos_def by (rule exI [of _ "[]"]) auto

lemma at_fpos_Cons:
  assumes "at_fpos s ps ix off n" "db_bytes (dbs s p) = DBUCKET_BUF_SIZE"
  shows "at_fpos s (p # ps) ix off (DBUCKET_BUF_SIZE + n)"
proof -
  from assms(1) obtain us vs where "ps = us @ unat ix # vs" "full s us"
      "off \<le> db_bytes (dbs s (unat ix))" "DBUCKET_BUF_SIZE * length us + off = n"
    by (auto simp: at_fpos_def)
  with assms(2) show ?thesis
    unfolding at_fpos_def by (intro exI [of _ "p # us"] exI [of _ vs]) auto
qed

lemma at_fpos_at_pos: "at_fpos s ps ix off n \<Longrightarrow> at_pos s ps ix off n"
  unfolding at_fpos_def at_pos_def using length_content_full by metis

text \<open>What every step of a write leaves alone.\<close>

definition kept :: "nat set \<Rightarrow> 'z dstate_scheme \<Rightarrow> 'z dstate_scheme \<Rightarrow> bool" where
  "kept A s s' \<longleftrightarrow>
     (\<forall>x. db_in_use (dbs s x) \<longrightarrow> db_in_use (dbs s' x) \<and> (x \<notin> A \<longrightarrow> dbs s' x = dbs s x)) \<and>
     live s' = live s \<and> dstate.more s' = dstate.more s"

lemma kept_trans: "kept A s s' \<Longrightarrow> kept B s' s'' \<Longrightarrow> (\<And>x. x \<in> B \<Longrightarrow> x \<in> A \<or> \<not> db_in_use (dbs s x)) \<Longrightarrow> kept A s s''"
  unfolding kept_def by metis

lemma kept_refl [simp]: "kept A s s"
  by (simp add: kept_def)

lemma live_upd_db [simp]: "live (upd_db p f s) = live s"
  by (simp add: live_def)

lemma dinv_upd_db:
  assumes "dinv s" "db_in_use (dbs s p)" "db_in_use (f (dbs s p))" "db_lock (f (dbs s p)) = db_lock (dbs s p)"
  shows "dinv (upd_db p f s)"
  using assms by (auto simp: dinv_def)

lemma put_bytes_sel [simp]:
  "db_in_use (put_bytes off d db) = db_in_use db" "db_lock (put_bytes off d db) = db_lock db"
  "db_next_ix (put_bytes off d db) = db_next_ix db"
  "db_bytes (put_bytes off d db) = max (db_bytes db) (off + length d)"
  "db_buf (put_bytes off d db) = mem_write (db_buf db) off d"
  by (auto simp: put_bytes_def)

lemma used_put_bytes:
  assumes "off \<le> db_bytes (dbs s p)"
  shows "used (upd_db p (put_bytes off d) s) p = splice (used s p) off d"
  using mem_read_write_prefix [OF assms, of "db_buf (dbs s p)" d]
  by (simp add: used_def splice_def)

lemma length_splice: "n \<le> length old \<Longrightarrow> length (splice old n d) = max (length old) (n + length d)"
  by (simp add: splice_def)

lemma splice_append_left:
  assumes "n \<le> length a" "n + length d \<le> length a \<or> b = []"
  shows "splice a n d @ b = splice (a @ b) n d"
  using assms by (auto simp: splice_def)

lemma splice_append_right:
  "n = length a + m \<Longrightarrow> a @ splice b m d = splice (a @ b) n d"
  by (simp add: splice_def)

context bucket_allocator
begin

lemma next_or_new_chain:
  assumes s: "inv s" "dchain s ix (p # ps)" and r: "next_or_new alloc p s = Inr (iy, s')"
  shows "\<exists>q qs. dchain s' ix (p # q # qs) \<and> dchain s' iy (q # qs) \<and> packed s' (q # qs) = packed s ps \<and>
    content s' (q # qs) = content s ps \<and> used s' p = used s p \<and> full s' (butlast (q # qs)) = full s (butlast ps) \<and>
    db_bytes (dbs s' p) = db_bytes (dbs s p) \<and> inv s' \<and> kept {p} s s' \<and>
    (\<exists>es. q # qs = ps @ es \<and> (\<forall>e \<in> set es. \<not> db_in_use (dbs s e)))"
proof -
  have dinv: "dinv s" by (rule inv_dinv [OF s(1)])
  show ?thesis
  proof (cases ps)
    case (Cons q qs)
    with s(2) live_not_nil [OF dinv] have "db_next_ix (dbs s p) \<noteq> nil_ix" by auto
    with r have "s' = s" "iy = db_next_ix (dbs s p)" by (auto simp: next_or_new_def)
    with s Cons show ?thesis by (intro exI [of _ q] exI [of _ qs]) simp
  next
    case Nil
    with s(2) have nil: "db_next_ix (dbs s p) = nil_ix" and p: "db_in_use (dbs s p)" "unat ix = p" "p < live s"
        "db_bytes (dbs s p) \<le> DBUCKET_BUF_SIZE" by auto
    with r obtain t where a: "alloc s = Inr (iy, t)" and s': "s' = upd_db p (\<lambda>db. db\<lparr>db_next_ix := iy\<rparr>) t"
      by (auto simp: next_or_new_def andthen_eq_Inr)
    note b = alloc_bucket [OF s(1) a] and l = alloc_live_same [OF s(1) a]
    let ?q = "unat iy"
    have pq: "p \<noteq> ?q" using alloc_fresh_index [OF s(1) a p(1)] .
    have tp: "dbs t p = dbs s p" by (rule b(5) [OF pq])
    have "dinv s'" unfolding s'
      using p(1) tp by (intro dinv_upd_db [OF inv_dinv [OF alloc_keeps [OF s(1) a]]]) auto
    with inv_upd_db [OF alloc_keeps [OF s(1) a]] have "inv s'" unfolding s' by blast
    moreover have "dchain s' ix [p, ?q]" "dchain s' iy [?q]"
      using alloc_live [OF s(1) a] b p pq l(1) tp by (simp_all add: s')
    moreover have "dbs t x = dbs s x" if "db_in_use (dbs s x)" for x
      using that b(4) by (intro b(5)) auto
    then have "kept {p} s s'"
      using p(1) l pq by (auto simp: kept_def s')
    moreover have "content s' [?q] = []" "used s' p = used s p"
      using b(3) pq tp by (simp_all add: used_def s')
    ultimately show ?thesis
      using Nil b(4) tp pq by (intro exI [of _ ?q] exI [of _ "[]"]) (auto simp: s')
  qed
qed

text \<open>The last round: the rest of the data fits into the bucket.\<close>

lemma write_round_fits:
  assumes s: "inv s" "dchain s ix (p # ps)" "packed s (p # ps)" "off \<le> db_bytes (dbs s p)"
    and fits: "length d \<le> DBUCKET_BUF_SIZE - off"
  defines "s' \<equiv> upd_db p (put_bytes off d) s"
  shows "write_loop alloc ix off d n si s =
      Inr ((n + length d, si + grow off (length d) (dbs s p), ix, off + length d), s')"
    "inv s'" "kept {p} s s'" "dchain s' ix (p # ps)" "packed s' (p # ps)"
    "content s' (p # ps) = splice (content s (p # ps)) off d"
    "full s (butlast (p # ps)) \<Longrightarrow> full s' (butlast (p # ps))"
proof -
  have dinv: "dinv s" by (rule inv_dinv [OF s(1)])
  have p: "unat ix = p" "p < live s" "db_in_use (dbs s p)" "db_bytes (dbs s p) \<le> DBUCKET_BUF_SIZE"
    using s(2) by auto
  have c: "off + length d \<le> DBUCKET_BUF_SIZE" "off \<le> DBUCKET_BUF_SIZE"
    using fits s(4) p(4) by auto
  have ptr: "get_dbucket_ptr ix s = Inr (p, s)"
    using get_dbucket_ptr_live [OF dinv, of ix] p by simp
  show "write_loop alloc ix off d n si s =
      Inr ((n + length d, si + grow off (length d) (dbs s p), ix, off + length d), s')"
    using c fits by (subst write_loop.simps) (simp add: ptr s'_def Let_def)
  show "inv s'"
    unfolding s'_def using p dinv by (intro inv_upd_db [OF s(1)] dinv_upd_db) auto
  show "kept {p} s s'" by (simp add: kept_def s'_def)
  have notin: "p \<notin> set ps" using dchain_distinct [OF s(2) dinv] by simp
  note fr = dchain_frame [of ps s' s]
  have same: "dbs s' q = dbs s q" if "q \<in> set ps" for q using that notin by (auto simp: s'_def)
  have live: "live s' = live s" by (simp add: s'_def)
  show "dchain s' ix (p # ps)"
    using s(2) c fr(1) [OF same live] by (simp add: s'_def [symmetric] live) (simp add: s'_def)
  have bytes: "db_bytes (dbs s' p) = max (db_bytes (dbs s p)) (off + length d)" by (simp add: s'_def)
  then show "packed s' (p # ps)"
    using s(3) c fr(3) [OF same live] same by auto
  show "full s' (butlast (p # ps))" if "full s (butlast (p # ps))"
    using that bytes c same in_set_butlastD [of _ ps] by (cases ps) (auto simp: full_def)
  have u: "used s' p = splice (used s p) off d" unfolding s'_def by (rule used_put_bytes [OF s(4)])
  have "off + length d \<le> length (used s p) \<or> content s ps = []"
    using packed_tail_empty [OF s(3)] c by (cases "db_bytes (dbs s p) = DBUCKET_BUF_SIZE") auto
  then show "content s' (p # ps) = splice (content s (p # ps)) off d"
    using u fr(2) [OF same live] splice_append_left [of off "used s p" d "content s ps"] s(4) by simp
qed

text \<open>A round that fills the bucket and goes on.\<close>

lemma write_round_fills:
  assumes s: "inv s" "dchain s ix (p # ps)" "off \<le> db_bytes (dbs s p)"
    and d: "DBUCKET_BUF_SIZE - off < length d"
  defines "room \<equiv> DBUCKET_BUF_SIZE - off"
  defines "t \<equiv> upd_db p (put_bytes off (take room d)) s"
  shows "write_loop alloc ix off d n si s =
      andthen (next_or_new alloc p t) (\<lambda>(iy, s1).
        write_loop alloc iy 0 (drop room d) (n + room) (si + (DBUCKET_BUF_SIZE - db_bytes (dbs s p))) s1)"
    "inv t" "kept {p} s t" "dchain t ix (p # ps)" "content t ps = content s ps" "packed t ps = packed s ps"
    "full t (butlast ps) = full s (butlast ps)"
    "used t p = take off (used s p) @ take room d" "db_bytes (dbs t p) = DBUCKET_BUF_SIZE"
proof -
  have dinv: "dinv s" by (rule inv_dinv [OF s(1)])
  have p: "unat ix = p" "p < live s" "db_in_use (dbs s p)" "db_bytes (dbs s p) \<le> DBUCKET_BUF_SIZE"
    using s(2) by auto
  have off: "off \<le> DBUCKET_BUF_SIZE" using s(3) p(4) by simp
  have room: "sz_sub DBUCKET_BUF_SIZE off = room" "length (take room d) = room" "off + room = DBUCKET_BUF_SIZE"
    using off d by (auto simp: room_def)
  have ptr: "get_dbucket_ptr ix s = Inr (p, s)"
    using get_dbucket_ptr_live [OF dinv, of ix] p by simp
  have "grow off room (dbs s p) = DBUCKET_BUF_SIZE - db_bytes (dbs s p)"
    using room p(4) by (auto simp: grow_def)
  then show "write_loop alloc ix off d n si s =
      andthen (next_or_new alloc p t) (\<lambda>(iy, s1).
        write_loop alloc iy 0 (drop room d) (n + room) (si + (DBUCKET_BUF_SIZE - db_bytes (dbs s p))) s1)"
    using d off room by (subst write_loop.simps) (simp add: ptr t_def Let_def room_def [symmetric])
  show "inv t"
    unfolding t_def using p dinv by (intro inv_upd_db [OF s(1)] dinv_upd_db) auto
  show "kept {p} s t" by (simp add: kept_def t_def)
  have notin: "p \<notin> set ps" using dchain_distinct [OF s(2) dinv] by simp
  note fr = dchain_frame [of ps t s]
  have same: "dbs t q = dbs s q" if "q \<in> set ps" for q using that notin by (auto simp: t_def)
  have live: "live t = live s" by (simp add: t_def)
  show b: "db_bytes (dbs t p) = DBUCKET_BUF_SIZE" using room p(4) by (simp add: t_def)
  show "dchain t ix (p # ps)"
    using s(2) b fr(1) [OF same live] live by (simp) (simp add: t_def)
  show "content t ps = content s ps" by (rule fr(2) [OF same live])
  show "packed t ps = packed s ps" by (rule fr(3) [OF same live])
  show "full t (butlast ps) = full s (butlast ps)"
    using same in_set_butlastD [of _ ps] by (auto simp: full_def)
  show "used t p = take off (used s p) @ take room d"
    unfolding t_def used_put_bytes [OF s(3)] splice_def using room p(4) by simp
qed

text \<open>The whole loop: the data is spliced into the contents behind the cursor.\<close>

lemma write_loop_splices:
  assumes "inv s" "dchain s ix (p # ps)" "packed s (p # ps)" "off \<le> db_bytes (dbs s p)"
    "write_loop alloc ix off d n si s = Inr ((n', si', ix', off'), s')"
  shows "\<exists>es. dchain s' ix (p # ps @ es) \<and> packed s' (p # ps @ es) \<and>
    content s' (p # ps @ es) = splice (content s (p # ps)) off d \<and>
    n' = n + length d \<and> si' + length (content s (p # ps)) = si + length (content s' (p # ps @ es)) \<and>
    at_fpos s' (p # ps @ es) ix' off' (off + length d) \<and> inv s' \<and> kept (set (p # ps)) s s' \<and>
    (\<forall>e \<in> set es. \<not> db_in_use (dbs s e)) \<and>
    (full s (butlast (p # ps)) \<longrightarrow> full s' (butlast (p # ps @ es)))"
  using assms
proof (induction "length d + (if off = 0 then 0 else 1)" arbitrary: ix p ps off d n si s rule: less_induct)
  case less
  note s = less.prems(1-4)
  let ?B = DBUCKET_BUF_SIZE and ?b = "db_bytes (dbs s p)"
  have p: "unat ix = p" "?b \<le> ?B" "db_in_use (dbs s p)" using s(2) by auto
  have dinv: "dinv s" by (rule inv_dinv [OF s(1)])
  show ?case
  proof (cases "length d \<le> ?B - off")
    case True
    note w = write_round_fits [OF s True]
    from less.prems(5) w(1) [of n si] have r: "n' = n + length d" "si' = si + grow off (length d) (dbs s p)"
        "ix' = ix" "off' = off + length d" "s' = upd_db p (put_bytes off d) s" by simp_all
    have "length (content s' (p # ps)) = max (length (content s (p # ps))) (off + length d)"
      unfolding r(5) w(6) using s(4) by (intro length_splice) simp
    moreover have "off + length d \<le> ?B" using True s(4) p(2) by simp
    then have "content s ps = [] \<or> off + length d \<le> ?b"
      using packed_tail_empty [OF s(3)] by (cases "?b = ?B") auto
    ultimately have "si' + length (content s (p # ps)) = si + length (content s' (p # ps))"
      unfolding r(2) grow_def by auto
    moreover have "at_fpos s' (p # ps) ix' off' (off + length d)"
      unfolding r(3,4) by (rule at_fpos_here [of _ _ ps]) (use p r(5) in auto)
    moreover have "kept (set (p # ps)) s s'" using w(3) r(5) by (auto simp: kept_def)
    ultimately show ?thesis
      using w(2,4-7) [folded r(5)] r(1) by (intro exI [of _ "[]"], unfold append_Nil2) auto
  next
    case False
    define room where room: "room = ?B - off"
    define t where t: "t = upd_db p (put_bytes off (take room d)) s"
    have d: "?B - off < length d" using False by simp
    note w = write_round_fills [OF s(1,2,4) d, folded room, folded t]
    from less.prems(5) w(1) [of n si] obtain iy s1 where nn: "next_or_new alloc p t = Inr (iy, s1)"
      and rest: "write_loop alloc iy 0 (drop room d) (n + room) (si + (?B - ?b)) s1 = Inr ((n', si', ix', off'), s')"
      by (auto simp: andthen_eq_Inr)
    from next_or_new_chain [OF w(2,4) nn] obtain q qs es1 where
        c0: "dchain s1 ix (p # q # qs)" "dchain s1 iy (q # qs)" "packed s1 (q # qs) = packed t ps"
        "content s1 (q # qs) = content t ps" "used s1 p = used t p"
        "full s1 (butlast (q # qs)) = full t (butlast ps)" "db_bytes (dbs s1 p) = db_bytes (dbs t p)"
        "inv s1" "kept {p} t s1"
        and es1: "q # qs = ps @ es1" "\<forall>e \<in> set es1. \<not> db_in_use (dbs t e)"
      by blast
    have "packed s ps" using s(3) by simp
    then have c1: "dchain s1 ix (p # q # qs)" "dchain s1 iy (q # qs)" "packed s1 (q # qs)"
        "content s1 (q # qs) = content s ps" "used s1 p = used t p" "db_bytes (dbs s1 p) = ?B"
        "full s1 (butlast (q # qs)) = full s (butlast ps)" "inv s1" "kept {p} t s1"
      using c0 w(5-7,9) by (simp_all only:)
    have smaller: "length (drop room d) + (if (0::nat) = 0 then 0 else 1) < length d + (if off = 0 then 0 else 1)"
      using d by (cases "off = 0") (auto simp: room ufs_config)
    from less.hyps [OF smaller c1(8,2,3) le0 rest, unfolded add_0_left] obtain es2 where
        e: "dchain s' iy (q # qs @ es2)" "packed s' (q # qs @ es2)"
        "content s' (q # qs @ es2) = splice (content s1 (q # qs)) 0 (drop room d)"
        "n' = n + room + length (drop room d)"
        "si' + length (content s1 (q # qs)) = si + (?B - ?b) + length (content s' (q # qs @ es2))"
        "at_fpos s' (q # qs @ es2) ix' off' (length (drop room d))" "inv s'" "kept (set (q # qs)) s1 s'"
        "\<forall>e \<in> set es2. \<not> db_in_use (dbs s1 e)"
        "full s1 (butlast (q # qs)) \<longrightarrow> full s' (butlast (q # qs @ es2))"
      by blast
    have "p \<notin> set (q # qs)" "db_in_use (dbs s1 p)"
      using dchain_distinct [OF c1(1) inv_dinv [OF c1(8)]] c1(1) by auto
    with e(8) have p': "dbs s' p = dbs s1 p" "live s' = live s1" by (auto simp: kept_def)
    then have used': "used s' p = take off (used s p) @ take room d" "db_bytes (dbs s' p) = ?B"
      using c1(5,6) w(8) by (simp_all add: used_def)
    have len: "length d = room + length (drop room d)" "off + room = ?B" using d s(4) p(2) by (auto simp: room)
    have chain: "p # ps @ es1 @ es2 = p # q # qs @ es2" using es1(1) by simp
    have "dchain s' ix (p # q # qs @ es2)" using e(1) c1(1) p' by simp
    moreover have "packed s' (p # q # qs @ es2)" using e(2) used'(2) by simp
    moreover have "content s' (p # q # qs @ es2) = splice (content s (p # ps)) off d"
    proof -
      have "?b = ?B \<or> content s ps = []" using packed_tail_empty [OF s(3)] by auto
      moreover have "content s' (p # q # qs @ es2) = used s' p @ content s' (q # qs @ es2)" by simp
      then have "content s' (p # q # qs @ es2) =
          take off (used s p) @ (take room d @ drop room d) @ drop (length d - room) (content s ps)"
        unfolding e(3) used'(1) c1(4) by (simp add: splice_def del: append_take_drop_id)
      then have "content s' (p # q # qs @ es2) =
          take off (used s p) @ d @ drop (length d - room) (content s ps)" by simp
      moreover have "off + length d - ?B = length d - room" "?b \<le> off + length d"
        using d s(4) p(2) by (auto simp: room)
      ultimately show ?thesis using s(4) by (auto simp: splice_def)
    qed
    moreover have "si' + length (content s (p # ps)) = si + length (content s' (p # q # qs @ es2))"
    proof -
      have "length (content s (p # ps)) = ?b + length (content s ps)"
        "length (content s' (p # q # qs @ es2)) = ?B + length (content s' (q # qs @ es2))"
        using used'(2) by simp_all
      then show ?thesis using e(5) p(2) unfolding c1(4) by linarith
    qed
    moreover have "at_fpos s' (p # q # qs @ es2) ix' off' (off + length d)"
    proof -
      have "off + length d = ?B + length (drop room d)" using len by simp
      then show ?thesis using at_fpos_Cons [OF e(6) used'(2)] by simp
    qed
    moreover have "kept (set (p # ps)) s s'"
    proof (rule kept_trans [OF kept_trans [OF _ c1(9)] e(8)])
      show "kept (set (p # ps)) s t" using w(3) by (auto simp: kept_def)
      show "x \<in> set (p # ps) \<or> \<not> db_in_use (dbs s x)" if "x \<in> set (q # qs)" for x
        using that es1 w(3) by (auto simp: kept_def)
    qed simp
    moreover have "\<forall>e \<in> set (es1 @ es2). \<not> db_in_use (dbs s e)"
      using es1(2) e(9) w(3) c1(9) by (auto simp: kept_def)
    moreover have "full s (butlast (p # ps)) \<longrightarrow> full s' (butlast (p # q # qs @ es2))"
      using e(10) c1(7) used'(2) by (auto split: if_splits)
    moreover have "n' = n + length d" using e(4) len(1) by linarith
    ultimately show ?thesis using e(7) by (intro exI [of _ "es1 @ es2"], unfold chain) blast
  qed
qed

lemma next_or_new_exit:
  assumes "inv s" "next_or_new alloc p s = Inl e"
  shows "e = Exit"
  using assms alloc_exit by (auto simp: next_or_new_def andthen_eq_Inl split: if_splits)

text \<open>The only way a write fails is that the allocator ends the process.\<close>

lemma write_loop_exit:
  assumes "inv s" "dchain s ix (p # ps)" "packed s (p # ps)" "off \<le> db_bytes (dbs s p)"
    "write_loop alloc ix off d n si s = Inl e"
  shows "e = Exit"
  using assms
proof (induction "length d + (if off = 0 then 0 else 1)" arbitrary: ix p ps off d n si s rule: less_induct)
  case less
  note s = less.prems(1-4)
  show ?case
  proof (cases "length d \<le> DBUCKET_BUF_SIZE - off")
    case True
    from less.prems(5) write_round_fits(1) [OF s True, of n si] show ?thesis by simp
  next
    case False
    define room where room: "room = DBUCKET_BUF_SIZE - off"
    define t where t: "t = upd_db p (put_bytes off (take room d)) s"
    have d: "DBUCKET_BUF_SIZE - off < length d" using False by simp
    note w = write_round_fills [OF s(1,2,4) d, folded room, folded t]
    show ?thesis
    proof (cases "next_or_new alloc p t")
      case (Inl e')
      with less.prems(5) w(1) [of n si] next_or_new_exit [OF w(2) Inl] show ?thesis by simp
    next
      case (Inr r)
      obtain iy s1 where r: "r = (iy, s1)" by (cases r)
      have pk: "packed t ps" using w(6) s(3) by simp
      from next_or_new_chain [OF w(2,4) Inr [unfolded r]] obtain q qs where
        "dchain s1 iy (q # qs)" "packed s1 (q # qs) = packed t ps" "inv s1" by blast
      moreover have "write_loop alloc iy 0 (drop room d) (n + room)
          (si + (DBUCKET_BUF_SIZE - db_bytes (dbs s p))) s1 = Inl e"
        using less.prems(5) w(1) [of n si] Inr r by simp
      moreover have "length (drop room d) + (if (0::nat) = 0 then 0 else 1) < length d + (if off = 0 then 0 else 1)"
        using d by (cases "off = 0") (auto simp: room ufs_config)
      ultimately show ?thesis using less.hyps [of "drop room d" 0 s1 iy q qs] pk by simp
    qed
  qed
qed

end

context complete_allocator
begin

lemma next_or_new_space:
  assumes "inv s" "dchain s ix (p # ps)"
  shows "case next_or_new alloc p s of Inl e \<Rightarrow> ps = [] \<and> spare s = 0
    | Inr (iy, s') \<Rightarrow> \<exists>q qs. dchain s' iy (q # qs) \<and> length ps + spare s \<le> length (q # qs) + spare s'"
proof (cases ps)
  case (Cons q qs)
  with assms(2) live_not_nil [OF inv_dinv [OF assms(1)]] have "db_next_ix (dbs s p) \<noteq> nil_ix" by auto
  with assms(2) Cons show ?thesis by (auto simp: next_or_new_def)
next
  case Nil
  with assms(2) have nil: "db_next_ix (dbs s p) = nil_ix" and p: "db_in_use (dbs s p)" by auto
  show ?thesis
  proof (cases "alloc s")
    case (Inl e)
    with nil Nil alloc_exhausted [OF assms(1)] show ?thesis by (auto simp: next_or_new_def)
  next
    case (Inr r)
    obtain iy t where r: "r = (iy, t)" by (cases r)
    note a = Inr [unfolded r]
    let ?s' = "upd_db p (\<lambda>db. db\<lparr>db_next_ix := iy\<rparr>) t"
    note b = alloc_bucket [OF assms(1) a]
    have "p \<noteq> unat iy" by (rule alloc_fresh_index [OF assms(1) a p])
    then have "dchain ?s' iy [unat iy]"
      using b alloc_live [OF assms(1) a] alloc_live_same(1) [OF assms(1) a] by simp
    moreover have "free_buckets ?s' = free_buckets t" by (rule free_buckets_upd_db) simp
    moreover have "ready ?s' = ready s" using alloc_ready [OF assms(1) a] by (simp add: ready_upd_db)
    ultimately have "dchain ?s' iy [unat iy] \<and> length ps + spare s \<le> length [unat iy] + spare ?s'"
      using Nil alloc_uses_one [OF assms(1) a] by simp
    then have "\<exists>q qs. dchain ?s' iy (q # qs) \<and> length ps + spare s \<le> length (q # qs) + spare ?s'" by blast
    moreover have "next_or_new alloc p s = Inr (iy, ?s')" using nil a by (simp add: next_or_new_def)
    ultimately show ?thesis by (simp only: sum.case prod.case)
  qed
qed

text \<open>A write ends the process only when the buckets of the chain, and with an allocator that is
  ready all free ones too, are too few for the data.\<close>

lemma write_loop_space:
  assumes "inv s" "dchain s ix (p # ps)" "packed s (p # ps)" "off \<le> db_bytes (dbs s p)"
    "write_loop alloc ix off d n si s = Inl e"
  shows "DBUCKET_BUF_SIZE * (length (p # ps) + spare s) < off + length d"
  using assms
proof (induction "length d + (if off = 0 then 0 else 1)" arbitrary: ix p ps off d n si s rule: less_induct)
  case less
  note s = less.prems(1-4)
  let ?B = DBUCKET_BUF_SIZE
  show ?case
  proof (cases "length d \<le> ?B - off")
    case True
    from less.prems(5) write_round_fits(1) [OF s True, of n si] show ?thesis by simp
  next
    case False
    define room where room: "room = ?B - off"
    define t where t: "t = upd_db p (put_bytes off (take room d)) s"
    have d: "?B - off < length d" using False by simp
    note w = write_round_fills [OF s(1,2,4) d, folded room, folded t]
    have off: "off \<le> ?B" using s(2,4) by simp
    have t': "spare t = spare s"
      by (simp add: t ready_upd_db free_buckets_upd_db put_bytes_def)
    note n = next_or_new_space [OF w(2,4), unfolded t']
    show ?thesis
    proof (cases "next_or_new alloc p t")
      case (Inl e')
      with n have "length (p # ps) + spare s = 1" by simp
      with d off show ?thesis by simp
    next
      case (Inr r)
      obtain iy s1 where r: "r = (iy, s1)" by (cases r)
      from n Inr r obtain q qs where q: "dchain s1 iy (q # qs)" "length ps + spare s \<le> length (q # qs) + spare s1"
        by auto
      have pk: "packed t ps" using w(6) s(3) by simp
      from next_or_new_chain [OF w(2,4) Inr [unfolded r]] obtain q' qs' where
        q': "dchain s1 iy (q' # qs')" "packed s1 (q' # qs') = packed t ps" "inv s1" by blast
      from dchain_unique [OF q(1) q'(1) inv_dinv [OF q'(3)]] q'(2) pk have "packed s1 (q # qs)" by simp
      moreover have "write_loop alloc iy 0 (drop room d) (n + room)
          (si + (?B - db_bytes (dbs s p))) s1 = Inl e"
        using less.prems(5) w(1) [of n si] Inr r by simp
      moreover have "length (drop room d) + (if (0::nat) = 0 then 0 else 1) < length d + (if off = 0 then 0 else 1)"
        using d by (cases "off = 0") (auto simp: room ufs_config)
      ultimately have "?B * (length (q # qs) + spare s1) < length (drop room d)"
        using less.hyps [of "drop room d" 0 s1 iy q qs] q(1) q'(3) by simp
      then have "?B * (length ps + spare s) < length (drop room d)"
        using mult_le_mono2 [OF q(2), of ?B] by linarith
      moreover have "off + length d = ?B + length (drop room d)" using d off by (simp add: room)
      moreover have "?B * (length (p # ps) + spare s) = ?B + ?B * (length ps + spare s)" by simp
      ultimately show ?thesis by linarith
    qed
  qed
qed

end

text \<open>The chain in front of the cursor stays, the chain behind it is replaced.\<close>

lemma dchain_tail: "dchain s first (us @ unat ix # vs) \<Longrightarrow> dchain s ix (unat ix # vs)"
  by (induction us arbitrary: first) auto

lemma dchain_replace_tail:
  assumes "dchain s first (us @ unat ix # vs)" "\<And>x. x \<in> set us \<Longrightarrow> dbs s' x = dbs s x" "live s' = live s"
    "dchain s' ix (unat ix # ws)"
  shows "dchain s' first (us @ unat ix # ws)"
  using assms
proof (induction us arbitrary: first)
  case Nil
  then have "first = ix" by (auto simp: word_unat_eq_iff)
  with Nil show ?case by simp
qed auto

context bucket_allocator
begin

text \<open>The whole file, written from a cursor with full buckets in front of it.\<close>

lemma write_file:
  assumes "inv s" "dchain s first ps" "packed s ps" "at_fpos s ps ix off pos"
    "write_loop alloc ix off d 0 0 s = Inr ((n, si, ix', off'), s')"
  shows "\<exists>es. dchain s' first (ps @ es) \<and> packed s' (ps @ es) \<and>
    content s' (ps @ es) = splice (content s ps) pos d \<and>
    n = length d \<and> si + length (content s ps) = length (content s' (ps @ es)) \<and>
    at_fpos s' (ps @ es) ix' off' (pos + length d) \<and> inv s' \<and> kept (set ps) s s' \<and>
    (\<forall>e \<in> set es. \<not> db_in_use (dbs s e)) \<and>
    (full s (butlast ps) \<longrightarrow> full s' (butlast (ps @ es)))"
proof -
  obtain us vs where ps: "ps = us @ unat ix # vs" and f: "full s us" "off \<le> db_bytes (dbs s (unat ix))"
      "DBUCKET_BUF_SIZE * length us + off = pos"
    using assms(4) by (auto simp: at_fpos_def)
  let ?p = "unat ix"
  have c: "dchain s ix (?p # vs)" using assms(2) dchain_tail unfolding ps by blast
  have pk: "packed s (?p # vs)" using assms(3) unfolding ps packed_append by blast
  from write_loop_splices [OF assms(1) c pk f(2) assms(5), unfolded add_0_left] obtain es where
    e: "dchain s' ix (?p # vs @ es)" "packed s' (?p # vs @ es)"
      "content s' (?p # vs @ es) = splice (content s (?p # vs)) off d" "n = length d"
      "si + length (content s (?p # vs)) = length (content s' (?p # vs @ es))"
      "at_fpos s' (?p # vs @ es) ix' off' (off + length d)" "inv s'" "kept (set (?p # vs)) s s'"
      "\<forall>e \<in> set es. \<not> db_in_use (dbs s e)"
      "full s (butlast (?p # vs)) \<longrightarrow> full s' (butlast (?p # vs @ es))"
    by blast
  have us: "dbs s' x = dbs s x" if "x \<in> set us" for x
    using that e(8) dchain_in_use [OF assms(2), of x] dchain_distinct [OF assms(2) inv_dinv [OF assms(1)]]
    unfolding ps kept_def by auto
  have live: "live s' = live s" using e(8) by (simp add: kept_def)
  note fr = dchain_frame [of us s' s, OF us live]
  have chain: "ps @ es = us @ ?p # vs @ es" using ps by simp
  have len: "length (content s us) = DBUCKET_BUF_SIZE * length us" by (rule length_content_full [OF f(1)])
  have f': "full s' us" using fr(4) f(1) by simp
  have "dchain s' first (ps @ es)"
    unfolding chain by (rule dchain_replace_tail [OF assms(2) [unfolded ps] us live e(1)])
  moreover have "packed s' (ps @ es)"
    unfolding chain packed_append using e(2) f' full_packed by blast
  moreover have "content s' (ps @ es) = splice (content s ps) pos d"
  proof -
    have "content s' (ps @ es) = content s us @ splice (content s (?p # vs)) off d"
      unfolding chain content_simps(3) [of s' us] e(3) using fr(2) by simp
    also have "\<dots> = splice (content s us @ content s (?p # vs)) pos d"
      using f(3) len by (intro splice_append_right) simp
    finally show ?thesis unfolding ps content_simps(3) .
  qed
  moreover have "si + length (content s ps) = length (content s' (ps @ es))"
    unfolding chain content_simps(3) [of _ us] using e(5) fr(2) by (simp add: ps)
  moreover have "at_fpos s' (ps @ es) ix' off' (pos + length d)"
  proof -
    obtain ws zs where "?p # vs @ es = ws @ unat ix' # zs" "full s' ws" "off' \<le> db_bytes (dbs s' (unat ix'))"
        "DBUCKET_BUF_SIZE * length ws + off' = off + length d"
      using e(6) by (auto simp: at_fpos_def)
    then show ?thesis unfolding chain at_fpos_def
      using f' f(3) by (intro exI [of _ "us @ ws"] exI [of _ zs]) (auto simp: algebra_simps)
  qed
  moreover have "kept (set ps) s s'" using e(8) unfolding ps kept_def by auto
  moreover have "full s (butlast ps) \<longrightarrow> full s' (butlast (ps @ es))"
    using e(10) f' unfolding chain ps by (simp add: butlast_append)
  ultimately show ?thesis using e(4,7,9) by blast
qed

end

context complete_allocator
begin

lemma write_file_space:
  assumes "inv s" "dchain s first ps" "packed s ps" "at_fpos s ps ix off pos"
    "write_loop alloc ix off d n si s = Inl e"
  shows "DBUCKET_BUF_SIZE * (length ps + spare s) < pos + length d"
proof -
  obtain us vs where ps: "ps = us @ unat ix # vs" and f: "off \<le> db_bytes (dbs s (unat ix))"
      "DBUCKET_BUF_SIZE * length us + off = pos"
    using assms(4) by (auto simp: at_fpos_def)
  have c: "dchain s ix (unat ix # vs)" using assms(2) dchain_tail unfolding ps by blast
  have pk: "packed s (unat ix # vs)" using assms(3) unfolding ps packed_append by blast
  have "DBUCKET_BUF_SIZE * (length ps + spare s) =
      DBUCKET_BUF_SIZE * length us + DBUCKET_BUF_SIZE * (length (unat ix # vs) + spare s)"
    unfolding ps by (simp add: algebra_simps)
  with write_loop_space [OF assms(1) c pk f(1) assms(5)] f(2) show ?thesis by linarith
qed

end

end
