(* ===== verification/Ufs_Offset.thy ===== *)
theory Ufs_Offset
  imports Ufs_File
begin

text \<open>
  Access by offset: the loops of \<open>pread\<close> and \<open>pwrite\<close>, and the truncation of \<open>open\<close>, related to
  the contents of a file. They rely on the buckets before the last one in use being full
  (\<open>packed\<close>); the layout lemma turns an offset into a bucket and an offset in it.
\<close>

section \<open>Layout of a packed chain\<close>

lemma packed_layout:
  "packed s ps \<Longrightarrow> dchain s ix ps \<Longrightarrow> i < length ps \<Longrightarrow>
     db_bytes (dbs s (ps ! i)) = min DBUCKET_BUF_SIZE (length (content s ps) - DBUCKET_BUF_SIZE * i)"
proof (induction ps arbitrary: i ix)
  case (Cons p ps)
  let ?B = DBUCKET_BUF_SIZE
  have b: "db_bytes (dbs s p) \<le> ?B" using Cons.prems(2) by simp
  show ?case
  proof (cases "db_bytes (dbs s p) = ?B")
    case True
    with Cons show ?thesis by (cases i) auto
  next
    case False
    with Cons.prems(1) have e: "\<forall>q \<in> set ps. db_bytes (dbs s q) = 0" by simp
    with content_empty [OF e] b Cons.prems(3) show ?thesis by (cases i) auto
  qed
qed simp

lemma packed_full_prefix:
  assumes "packed s ps" "dchain s ix ps" "DBUCKET_BUF_SIZE * k \<le> length (content s ps)"
  shows "k \<le> length ps \<and> full s (take k ps)"
proof -
  let ?B = DBUCKET_BUF_SIZE
  have "length (content s ps) \<le> ?B * length ps"
    using assms(2) by (induction ps arbitrary: ix) fastforce+
  with assms(3) have "?B * k \<le> ?B * length ps" by linarith
  then have k: "k \<le> length ps" by simp
  moreover have "db_bytes (dbs s (ps ! i)) = ?B" if "i < k" for i
  proof -
    have "?B * i + ?B \<le> ?B * k" using that by (metis Suc_leI mult_Suc_right mult_le_mono2 add.commute)
    with packed_layout [OF assms(1,2), of i] that k assms(3) show ?thesis by auto
  qed
  ultimately show ?thesis by (auto simp: full_def in_set_conv_nth)
qed

text \<open>An offset inside the file, as a bucket and an offset in the bucket.\<close>

lemma offset_split:
  assumes "packed s ps" "dchain s ix ps" "pos \<le> length (content s ps)"
  defines "k \<equiv> pos div DBUCKET_BUF_SIZE" and "off \<equiv> pos mod DBUCKET_BUF_SIZE"
  shows "k \<le> length ps" "full s (take k ps)" "k < length ps \<Longrightarrow> off \<le> db_bytes (dbs s (ps ! k))"
    "k = length ps \<Longrightarrow> off = 0 \<and> pos = length (content s ps)"
proof -
  let ?B = DBUCKET_BUF_SIZE
  have pos: "pos = ?B * k + off" by (simp add: k_def off_def)
  then have p: "k \<le> length ps \<and> full s (take k ps)"
    using assms(3) by (intro packed_full_prefix [OF assms(1,2)]) simp
  then show "k \<le> length ps" "full s (take k ps)" by simp_all
  show "off \<le> db_bytes (dbs s (ps ! k))" if "k < length ps"
    using packed_layout [OF assms(1,2) that] pos assms(3) by (simp add: off_def)
  show "off = 0 \<and> pos = length (content s ps)" if "k = length ps"
    using p that length_content_full [of s ps] pos assms(3) by simp
qed

section \<open>Seeking\<close>

definition ix_of :: "nat list \<Rightarrow> u32" where
  "ix_of ps = (case ps of [] \<Rightarrow> nil_ix | p # _ \<Rightarrow> of_nat p)"

lemma ix_of_simps [simp]: "ix_of [] = nil_ix" "ix_of (p # ps) = of_nat p"
  by (simp_all add: ix_of_def)

lemma dchain_ix_of: "dchain s ix ps \<Longrightarrow> ix = ix_of ps"
  by (cases ps) auto

lemma dchain_drop: "dchain s ix ps \<Longrightarrow> dchain s (ix_of (drop k ps)) (drop k ps)"
proof (induction k arbitrary: ix ps)
  case 0
  then show ?case using dchain_ix_of by fastforce
next
  case (Suc k)
  then show ?case by (cases ps) auto
qed

lemma seek_loop_chain:
  assumes "dinv s" "dchain s ix ps"
  shows "seek_loop k ix s = Inr (if k \<le> length ps then Some (ix_of (drop k ps)) else None, s)"
  using assms(2)
proof (induction k arbitrary: ix ps)
  case 0
  then show ?case using dchain_ix_of by fastforce
next
  case (Suc k)
  show ?case
  proof (cases ps)
    case Nil
    with Suc.prems show ?thesis by simp
  next
    case (Cons p qs)
    with Suc.prems have p: "unat ix = p" "unat ix < live s" "dchain s (db_next_ix (dbs s p)) qs" by auto
    have "ix \<noteq> nil_ix" using live_not_nil [OF assms(1) p(2)] .
    with Suc.IH [OF p(3)] get_dbucket_ptr_live [OF assms(1) p(2)] p(1) Cons show ?thesis by simp
  qed
qed

section \<open>Reading at an offset\<close>

lemma pread_loop_chain:
  assumes "dinv s" "dchain s ix ps" "ps \<noteq> [] \<Longrightarrow> off \<le> db_bytes (dbs s (hd ps))" "length ps \<le> k"
  shows "pread_loop k ix off c out s = Inr (out @ take c (drop off (content s ps)), s)"
  using assms(2-)
proof (induction ps arbitrary: ix off c out k)
  case Nil
  then show ?case by (subst pread_loop.simps) simp
next
  case (Cons p ps)
  let ?b = "db_bytes (dbs s p)"
  have p: "unat ix = p" "unat ix < live s" "dchain s (db_next_ix (dbs s p)) ps" "?b \<le> DBUCKET_BUF_SIZE"
      "off \<le> ?b" "k \<noteq> 0" "length ps \<le> k - 1"
    using Cons.prems by auto
  have ix: "ix \<noteq> nil_ix" "get_dbucket_ptr ix s = Inr (p, s)"
    using live_not_nil [OF assms(1) p(2)] get_dbucket_ptr_live [OF assms(1) p(2)] p(1) by simp_all
  show ?case
  proof (cases "c \<le> ?b - off")
    case True
    then have "off + c \<le> ?b" using p(5) by simp
    then have "\<not> DBUCKET_BUF_SIZE < off + c" using p(4) by simp
    with True ix p(5,6) used_part [OF \<open>off + c \<le> ?b\<close>, of "content s ps"] show ?thesis
      by (subst pread_loop.simps) (simp add: Let_def)
  next
    case False
    let ?out = "out @ mem_read (db_buf (dbs s p)) off (?b - off)"
    have "pread_loop k ix off c out s = pread_loop (k - 1) (db_next_ix (dbs s p)) 0 (c - (?b - off)) ?out s"
      using False ix p(4-6) by (subst pread_loop.simps) (simp add: Let_def)
    also have "\<dots> = Inr (?out @ take (c - (?b - off)) (drop 0 (content s ps)), s)"
      by (rule Cons.IH [OF p(3) _ p(7)]) simp
    finally show ?thesis using used_rest [of off s p c "content s ps"] False p(5) by simp
  qed
qed

lemma content_drop_full:
  assumes "full s (take k ps)" "k \<le> length ps"
  shows "drop (DBUCKET_BUF_SIZE * k + off) (content s ps) = drop off (content s (drop k ps))"
proof -
  have "content s ps = content s (take k ps) @ content s (drop k ps)"
    by (metis append_take_drop_id content_simps(3))
  moreover have "length (content s (take k ps)) = DBUCKET_BUF_SIZE * k"
    using length_content_full [OF assms(1)] assms(2) by simp
  ultimately show ?thesis by simp
qed

lemma pread_file:
  assumes "dinv s" "dchain s first ps" "packed s ps" "pos \<le> length (content s ps)"
  shows "seek_loop (pos div DBUCKET_BUF_SIZE) first s = Inr (Some (ix_of (drop (pos div DBUCKET_BUF_SIZE) ps)), s)"
    "length ps \<le> fuel \<Longrightarrow>
     pread_loop fuel (ix_of (drop (pos div DBUCKET_BUF_SIZE) ps)) (pos mod DBUCKET_BUF_SIZE) c [] s =
       Inr (take c (drop pos (content s ps)), s)"
proof -
  let ?k = "pos div DBUCKET_BUF_SIZE" and ?off = "pos mod DBUCKET_BUF_SIZE"
  note o = offset_split [OF assms(3,2,4)]
  show "seek_loop ?k first s = Inr (Some (ix_of (drop ?k ps)), s)"
    using seek_loop_chain [OF assms(1,2)] o(1) by simp
  assume fuel: "length ps \<le> fuel"
  have "?off \<le> db_bytes (dbs s (hd (drop ?k ps)))" if "drop ?k ps \<noteq> []"
    using that o(3) by (simp add: hd_drop_conv_nth)
  then have "pread_loop fuel (ix_of (drop ?k ps)) ?off c [] s =
      Inr ([] @ take c (drop ?off (content s (drop ?k ps))), s)"
    using dchain_drop [OF assms(2)] fuel by (intro pread_loop_chain [OF assms(1)]) auto
  then show "pread_loop fuel (ix_of (drop ?k ps)) ?off c [] s = Inr (take c (drop pos (content s ps)), s)"
    using content_drop_full [OF o(2,1), of ?off] by simp
qed

section \<open>Writing at an offset\<close>

context bucket_allocator
begin

text \<open>The test for the end of the chain in the loop of \<open>pwrite\<close> never fires after the first round:
  the loop is that of \<open>write\<close>.\<close>

lemma pwrite_loop_is_write_loop:
  assumes "inv s" "dchain s ix (p # ps)" "packed s (p # ps)" "off \<le> db_bytes (dbs s p)"
  shows "pwrite_loop alloc ix off d n si s =
    andthen (write_loop alloc ix off d n si s) (\<lambda>((n, si, ix', off'), s'). Inr ((n, si), s'))"
  using assms
proof (induction "length d + (if off = 0 then 0 else 1)" arbitrary: ix p ps off d n si s rule: less_induct)
  case less
  note s = less.prems
  have dinv: "dinv s" by (rule inv_dinv [OF s(1)])
  have p: "unat ix = p" "unat ix < live s" "db_bytes (dbs s p) \<le> DBUCKET_BUF_SIZE" using s(2) by auto
  have off: "off \<le> DBUCKET_BUF_SIZE" using s(4) p(3) by simp
  have ix: "ix \<noteq> nil_ix" "get_dbucket_ptr ix s = Inr (p, s)"
    using live_not_nil [OF dinv p(2)] get_dbucket_ptr_live [OF dinv p(2)] p(1) by simp_all
  show ?case
  proof (cases "length d \<le> DBUCKET_BUF_SIZE - off")
    case True
    then have "\<not> DBUCKET_BUF_SIZE < off + length d" using off by simp
    then show ?thesis
      using write_round_fits(1) [OF s True, of n si] ix off True
      by (subst pwrite_loop.simps) (simp add: Let_def)
  next
    case False
    define room where room: "room = DBUCKET_BUF_SIZE - off"
    define t where t: "t = upd_db p (put_bytes off (take room d)) s"
    have d: "DBUCKET_BUF_SIZE - off < length d" using False by simp
    note w = write_round_fills [OF s(1,2,4) d, folded room, folded t]
    have "grow off room (dbs s p) = DBUCKET_BUF_SIZE - db_bytes (dbs s p)"
      using off p(3) by (auto simp: grow_def room)
    then have pw: "pwrite_loop alloc ix off d n si s =
        andthen (next_or_new alloc p t) (\<lambda>(iy, s1).
          pwrite_loop alloc iy 0 (drop room d) (n + room) (si + (DBUCKET_BUF_SIZE - db_bytes (dbs s p))) s1)"
      using ix d off by (subst pwrite_loop.simps) (simp add: t Let_def room [symmetric])
    show ?thesis
    proof (cases "next_or_new alloc p t")
      case (Inl e)
      then show ?thesis using pw w(1) [of n si] by simp
    next
      case (Inr r)
      obtain iy s1 where r: "r = (iy, s1)" by (cases r)
      have pk: "packed t ps" using w(6) s(3) by simp
      from next_or_new_chain [OF w(2,4) Inr [unfolded r]] obtain q qs where
        "dchain s1 iy (q # qs)" "packed s1 (q # qs) = packed t ps" "inv s1" by blast
      moreover have "length (drop room d) + (if (0::nat) = 0 then 0 else 1) < length d + (if off = 0 then 0 else 1)"
        using d by (cases "off = 0") (auto simp: room ufs_config)
      ultimately have "pwrite_loop alloc iy 0 (drop room d) n' si' s1 =
          andthen (write_loop alloc iy 0 (drop room d) n' si' s1) (\<lambda>((n, si, ix', off'), s'). Inr ((n, si), s'))"
        for n' si'
        using less.hyps [of "drop room d" 0 s1 iy q qs n' si'] pk by simp
      then show ?thesis using pw w(1) [of n si] Inr r by simp
    qed
  qed
qed

lemma pwrite_file:
  assumes "inv s" "dchain s first ps" "packed s ps" "pos \<le> length (content s ps)"
    "pos div DBUCKET_BUF_SIZE < length ps"
    "pwrite_loop alloc (ix_of (drop (pos div DBUCKET_BUF_SIZE) ps)) (pos mod DBUCKET_BUF_SIZE) d 0 0 s =
       Inr ((n, si), s')"
  shows "\<exists>es. dchain s' first (ps @ es) \<and> packed s' (ps @ es) \<and>
    content s' (ps @ es) = splice (content s ps) pos d \<and>
    n = length d \<and> si + length (content s ps) = length (content s' (ps @ es)) \<and>
    inv s' \<and> kept (set ps) s s' \<and> (\<forall>e \<in> set es. \<not> db_in_use (dbs s e)) \<and>
    (full s (butlast ps) \<longrightarrow> full s' (butlast (ps @ es)))"
proof -
  let ?k = "pos div DBUCKET_BUF_SIZE" and ?off = "pos mod DBUCKET_BUF_SIZE"
  let ?ix = "ix_of (drop ?k ps)"
  note o = offset_split [OF assms(3,2,4)]
  have dp: "drop ?k ps = ps ! ?k # drop (Suc ?k) ps" using assms(5) by (simp add: Cons_nth_drop_Suc)
  have c: "dchain s ?ix (ps ! ?k # drop (Suc ?k) ps)" using dchain_drop [OF assms(2), of ?k] dp by simp
  then have ix: "unat ?ix = ps ! ?k" by simp
  have ps: "ps = take ?k ps @ unat ?ix # drop (Suc ?k) ps" using dp ix by (metis append_take_drop_id)
  have pk: "packed s (ps ! ?k # drop (Suc ?k) ps)" using assms(3) ps ix packed_append by metis
  have at: "at_fpos s ps ?ix ?off pos"
    unfolding at_fpos_def using o(2) o(3) [OF assms(5)] ix assms(5)
    by (intro exI [of _ "take ?k ps"] exI [of _ "drop (Suc ?k) ps"] conjI ps) (simp_all add: min_def)
  obtain ix' off' where "write_loop alloc ?ix ?off d 0 0 s = Inr ((n, si, ix', off'), s')"
    using assms(6) pwrite_loop_is_write_loop [OF assms(1) c pk o(3) [OF assms(5)], of d 0 0]
    by (auto simp: andthen_eq_Inr)
  from write_file [OF assms(1-3) at this] show ?thesis by blast
qed

end

section \<open>Truncation\<close>

definition emptied :: "nat set \<Rightarrow> 'z dstate_scheme \<Rightarrow> 'z dstate_scheme" where
  "emptied A s = s\<lparr>dbs := (\<lambda>p. if p \<in> A then (dbs s p)\<lparr>db_bytes := 0\<rparr> else dbs s p)\<rparr>"

lemma emptied_insert:
  "p \<notin> A \<Longrightarrow> emptied A (upd_db p (\<lambda>db. db\<lparr>db_bytes := 0\<rparr>) s) = emptied (insert p A) s"
  by (auto simp: emptied_def upd_db_def fun_eq_iff)

lemma live_emptied [simp]: "live (emptied A s) = live s"
  by (simp add: emptied_def live_def)

lemma trunc_loop_chain:
  assumes "dinv s" "dchain s ix ps" "length ps \<le> k"
  shows "trunc_loop k ix s = Inr (emptied (set ps) s)"
  using assms
proof (induction ps arbitrary: ix k s)
  case Nil
  then show ?case by (subst trunc_loop.simps) (simp add: emptied_def)
next
  case (Cons p ps)
  let ?s = "upd_db p (\<lambda>db. db\<lparr>db_bytes := 0\<rparr>) s"
  have p: "unat ix = p" "unat ix < live s" "dchain s (db_next_ix (dbs s p)) ps" "db_in_use (dbs s p)"
    using Cons.prems by auto
  have ix: "ix \<noteq> nil_ix" "get_dbucket_ptr ix s = Inr (p, s)" "k \<noteq> 0"
    using live_not_nil [OF Cons.prems(1) p(2)] get_dbucket_ptr_live [OF Cons.prems(1) p(2)] p(1)
      Cons.prems(3) by auto
  have notin: "p \<notin> set ps" using dchain_distinct [OF Cons.prems(2,1)] by simp
  have dinv: "dinv ?s" using p(4) by (intro dinv_upd_db [OF Cons.prems(1)]) auto
  have "dchain ?s (db_next_ix (dbs s p)) ps"
    using p(3) notin by (subst dchain_frame(1) [of ps ?s s]) auto
  from Cons.IH [OF dinv this, of "k - 1"] Cons.prems(3) ix show ?case
    by (subst trunc_loop.simps) (simp add: emptied_insert [OF notin])
qed

lemma truncate_chain_empties:
  assumes "dinv s" "dchain s first ps" "ps \<noteq> []"
  shows "truncate_chain first s = Inr (emptied (set ps) s)"
proof -
  obtain p qs where ps: "ps = p # qs" using assms(3) by (cases ps) auto
  let ?s = "upd_db p (\<lambda>db. db\<lparr>db_bytes := 0\<rparr>) s"
  have p: "unat first = p" "unat first < live s" "dchain s (db_next_ix (dbs s p)) qs" "db_in_use (dbs s p)"
    using assms(2) ps by auto
  have notin: "p \<notin> set qs" using dchain_distinct [OF assms(2,1)] ps by simp
  have dinv: "dinv ?s" using p(4) by (intro dinv_upd_db [OF assms(1)]) auto
  have "dchain ?s (db_next_ix (dbs s p)) qs"
    using p(3) notin by (subst dchain_frame(1) [of qs ?s s]) auto
  moreover have "length qs \<le> Suc (live ?s)" using dchain_length [OF p(3) assms(1)] by simp
  ultimately have "trunc_loop (Suc (live ?s)) (db_next_ix (dbs s p)) ?s = Inr (emptied (set qs) ?s)"
    by (rule trunc_loop_chain [OF dinv])
  with get_dbucket_ptr_live [OF assms(1) p(2)] p(1) show ?thesis
    by (simp add: truncate_chain_def emptied_insert [OF notin] ps)
qed

text \<open>A truncated file keeps its chain and has no contents.\<close>

lemma emptied_chain:
  assumes "dchain s ix ps" "set ps \<subseteq> A"
  shows "dchain (emptied A s) ix ps" "content (emptied A s) ps = []" "packed (emptied A s) ps"
proof -
  show "dchain (emptied A s) ix ps"
    using assms by (induction ps arbitrary: ix) (auto simp: emptied_def live_def)
  show "content (emptied A s) ps = []"
    using assms(2) by (intro content_empty) (auto simp: emptied_def)
  show "packed (emptied A s) ps"
    using assms(2) by (induction ps) (auto simp: emptied_def)
qed

lemma emptied_dinv:
  assumes "dinv s" shows "dinv (emptied A s)"
  using assms by (auto simp: dinv_def emptied_def live_def)

end
