(* ===== verification/Ufs_Path.thy ===== *)
theory Ufs_Path
  imports Ufs_Meta
begin

text \<open>
  \<open>build_abs_path\<close> of \<open>system/util/util.c\<close> and the macro \<open>BUILD_ABS_PATH_1\<close>: the key under which a
  path given by the application is looked up. The working directory (\<open>getcwd\<close>) is an argument,
  \<open>None\<close> when the call fails. The fixed buffers of \<open>PATH_MAX\<close> bytes hold \<open>PATH_MAX - 1\<close>
  characters; a \<open>strcpy\<close> or \<open>strcat\<close> past them is \<open>Fault\<close>.
\<close>

section \<open>C string operations\<close>

text \<open>\<open>s[i]\<close>, with the terminating NUL behind the last character.\<close>

definition char_at :: "string \<Rightarrow> nat \<Rightarrow> char" where
  "char_at s i = (if i < length s then s ! i else CHR 0x00)"

definition fits_path :: "string \<Rightarrow> bool" where
  "fits_path s \<longleftrightarrow> length s < PATH_MAX"

definition str_store :: "string \<Rightarrow> string res" where
  "str_store s = (if fits_path s then Inr s else Inl Fault)"

text \<open>The part up to the last slash (\<open>strrchr\<close>), without it; \<open>None\<close> when there is none.\<close>

definition before_last_slash :: "string \<Rightarrow> string option" where
  "before_last_slash s =
     (if CHR ''/'' \<in> set s then Some (rev (tl (dropWhile (\<lambda>c. c \<noteq> CHR ''/'') (rev s)))) else None)"

definition getcwd_buf :: "string option \<Rightarrow> string res" where
  "getcwd_buf cwd = (case cwd of None \<Rightarrow> Inl Exit | Some d \<Rightarrow> if fits_path d then Inr d else Inl Exit)"

section \<open>The function\<close>

text \<open>\<open>Built p\<close>: a path was built (return value 0); \<open>Already\<close>: the input is absolute (1);
  \<open>Bad\<close>: not supported (-1).\<close>

datatype abs_path = Built string | Already | Bad

definition build_abs_path :: "string option \<Rightarrow> string \<Rightarrow> abs_path res" where
  "build_abs_path cwd path_in =
     (let len = length path_in; c0 = char_at path_in 0; c1 = char_at path_in 1; c2 = char_at path_in 2 in
      if len > PATH_MAX then Inr Bad
      else if c0 = CHR ''/'' \<and> c1 \<noteq> CHR ''.'' then Inr Already
      else if len > 1 \<and> c0 = CHR ''.'' \<and> c1 = CHR ''.'' \<and> c2 = CHR 0x00 then
        andthen (getcwd_buf cwd) (\<lambda>tmp.
          case before_last_slash tmp of None \<Rightarrow> Inl Fault | Some d \<Rightarrow> Inr (Built d))
      else if len > 1 \<and> c0 = CHR ''.'' \<and> c1 = CHR ''.'' then
        (if c2 \<noteq> CHR ''/'' then Inr Bad
         else
           andthen (str_store path_in) (\<lambda>tmp.
           andthen (getcwd_buf cwd) (\<lambda>d.
             case before_last_slash d of None \<Rightarrow> Inl Fault
             | Some d \<Rightarrow> andthen (str_store (d @ ''/'' @ drop 3 tmp)) (\<lambda>p. Inr (Built p)))))
      else if len > 1 \<and> c0 = CHR ''.'' \<and> c1 = CHR ''/'' then
        andthen (str_store path_in) (\<lambda>tmp.
        andthen (getcwd_buf cwd) (\<lambda>d.
        andthen (str_store (d @ ''/'' @ drop 2 tmp)) (\<lambda>p. Inr (Built p))))
      else if (c0 \<noteq> CHR ''/'' \<and> c0 \<noteq> CHR ''.'') \<or>
              (c0 = CHR ''.'' \<and> c1 \<noteq> CHR ''.'' \<and> c1 \<noteq> CHR ''/'') then
        andthen (getcwd_buf cwd) (\<lambda>d.
        andthen (str_store (d @ ''/'' @ path_in)) (\<lambda>p. Inr (Built p)))
      else if c0 = CHR ''.'' \<and> c1 = CHR 0x00 then
        andthen (getcwd_buf cwd) (\<lambda>d.
        andthen (str_store (d @ ''/'')) (\<lambda>p. Inr (Built p)))
      else Inr Bad)"

text \<open>\<open>BUILD_ABS_PATH_1\<close>: the path built, or the input itself.\<close>

definition full_path :: "string option \<Rightarrow> string \<Rightarrow> string res" where
  "full_path cwd path_in =
     andthen (build_abs_path cwd path_in)
       (\<lambda>r. Inr (case r of Built p \<Rightarrow> p | Already \<Rightarrow> path_in | Bad \<Rightarrow> path_in))"

section \<open>Properties\<close>

lemma before_last_slash_append:
  "CHR ''/'' \<notin> set name \<Longrightarrow> before_last_slash (d @ ''/'' @ name) = Some d"
proof -
  assume "CHR ''/'' \<notin> set name"
  then have "dropWhile (\<lambda>c. c \<noteq> CHR ''/'') (rev name @ ''/'' @ rev d) = dropWhile (\<lambda>c. c \<noteq> CHR ''/'') (''/'' @ rev d)"
    by (intro dropWhile_append2) auto
  then show ?thesis by (simp add: before_last_slash_def)
qed

lemma char_at_simps [simp]:
  "char_at (c # s) 0 = c" "char_at (c # s) (Suc i) = char_at s i" "char_at [] i = CHR 0x00"
  "char_at (c # c' # s) 2 = char_at s 0"
  by (simp_all add: char_at_def)

text \<open>
  (C39) Four spellings of one file lead to one key. In directory \<open>d = u/v\<close>, the names \<open>f\<close>, \<open>./f\<close>,
  \<open>../v/f\<close> and the absolute path \<open>u/v/f\<close> are all turned into \<open>u/v/f\<close>, for every plain name \<open>f\<close>
  (not empty, not starting with a dot or a slash) when the longest spelling and the result fit the
  buffers.
\<close>

theorem full_path_spellings_agree:
  assumes "d = u @ ''/'' @ v" "CHR ''/'' \<notin> set v" "f \<noteq> []" "hd f \<noteq> CHR ''.''" "hd f \<noteq> CHR ''/''"
    and "char_at d 0 = CHR ''/''" "char_at d 1 \<noteq> CHR ''.''" "2 \<le> length d"
    and "length (d @ ''/'' @ f) < PATH_MAX" "length (''../'' @ v @ ''/'' @ f) < PATH_MAX"
  shows "full_path (Some d) f = Inr (d @ ''/'' @ f) \<and>
    full_path (Some d) (''./'' @ f) = Inr (d @ ''/'' @ f) \<and>
    full_path (Some d) (''../'' @ v @ ''/'' @ f) = Inr (d @ ''/'' @ f) \<and>
    full_path (Some d) (d @ ''/'' @ f) = Inr (d @ ''/'' @ f)"
proof -
  have fits: "fits_path d" "fits_path (d @ ''/'' @ f)" "fits_path (''./'' @ f)" "fits_path (''../'' @ v @ ''/'' @ f)"
    using assms(8-10) by (auto simp: fits_path_def)
  obtain c g where f: "f = c # g" "c \<noteq> CHR ''.''" "c \<noteq> CHR ''/''" using assms(3-5) by (cases f) auto
  have last: "before_last_slash d = Some u" using before_last_slash_append [OF assms(2), of u] assms(1) by simp
  have "full_path (Some d) f = Inr (d @ ''/'' @ f)"
    using fits f by (simp add: full_path_def build_abs_path_def Let_def getcwd_buf_def str_store_def fits_path_def)
  moreover have "full_path (Some d) (''./'' @ f) = Inr (d @ ''/'' @ f)"
    using fits f by (simp add: full_path_def build_abs_path_def Let_def getcwd_buf_def str_store_def fits_path_def)
  moreover have "full_path (Some d) (''../'' @ v @ ''/'' @ f) = Inr (d @ ''/'' @ f)"
    using fits f last assms(1)
    by (simp add: full_path_def build_abs_path_def Let_def getcwd_buf_def str_store_def fits_path_def)
  moreover have "char_at (d @ ''/'' @ f) 0 = CHR ''/''" "char_at (d @ ''/'' @ f) 1 \<noteq> CHR ''.''"
    using assms(6-8) by (auto simp: char_at_def nth_append)
  with fits(2) have "full_path (Some d) (d @ ''/'' @ f) = Inr (d @ ''/'' @ f)"
    by (simp add: full_path_def build_abs_path_def Let_def fits_path_def)
  ultimately show ?thesis by blast
qed

theorem full_path_spellings_agree_witness:
  "full_path (Some ''/home/u'') ''f.o'' = Inr ''/home/u/f.o'' \<and>
   full_path (Some ''/home/u'') ''../u/f.o'' = Inr ''/home/u/f.o''"
  using full_path_spellings_agree [of "''/home/u''" "''/home''" "''u''" "''f.o''"]
  by (simp add: ufs_config)

text \<open>
  A path with \<open>/./\<close> or \<open>/../\<close> behind the first component is passed on as it is: two spellings of
  one file that differ there are two different keys, so the file has two entries.
\<close>

theorem full_path_inner_dots_differ:
  "full_path cwd ''/a/b'' = Inr ''/a/b'' \<and> full_path cwd ''/a/./b'' = Inr ''/a/./b''"
  by (simp add: full_path_def build_abs_path_def Let_def ufs_config)

text \<open>
  In the root directory a relative name gets two slashes in front, the one of the directory and
  another: it is not the key of the absolute path.
\<close>

theorem full_path_at_root_doubles_slash:
  "full_path (Some ''/'') ''a'' = Inr ''//a'' \<and> full_path (Some ''/'') ''/a'' = Inr ''/a''"
  by (simp add: full_path_def build_abs_path_def Let_def getcwd_buf_def str_store_def fits_path_def char_at_def ufs_config)

end
