(* ===== verification/Ufs_Util.thy ===== *)
theory Ufs_Util
  imports Ufs_Fd Ufs_Offset Ufs_Path
begin

text \<open>
  The rest of \<open>system/util/util.c\<close>: time stamps, loading a file from disk (\<open>upload_file\<close>), and
  writing the modified files back (\<open>flush_write\<close>). The Makefile defines \<open>WRITE_TO_DISK\<close>, so the
  \<open>#ifdef\<close> branch of \<open>write_to_disk\<close> is the one compiled. A block returned by \<open>malloc\<close> holds
  arbitrary bytes; they are the argument \<open>junk\<close>.
\<close>

unbundle bit_operations_syntax

section \<open>Time stamps\<close>

definition ST_ACS :: u32 where "ST_ACS = 1"
definition ST_MOD :: u32 where "ST_MOD = 2"
definition ST_CHG :: u32 where "ST_CHG = 4"

definition clock_gettime :: "('d, 'z) ustate_scheme \<Rightarrow> timespec \<times> ('d, 'z) ustate_scheme" where
  "clock_gettime s = (clock_src s (clock_pos s), s\<lparr>clock_pos := Suc (clock_pos s)\<rparr>)"

definition stamp :: "stat \<Rightarrow> u32 \<Rightarrow> ('d, 'z) ustate_scheme \<Rightarrow> (stat \<times> ('d, 'z) ustate_scheme) res" where
  "stamp st type s =
     (if type AND (ST_ACS OR ST_MOD OR ST_CHG) = 0 then Inl Exit
      else
        (let (st, s) = (if type AND ST_ACS \<noteq> 0 then
                          (case clock_gettime s of (t, s) \<Rightarrow> (st\<lparr>st_atim := t\<rparr>, s)) else (st, s));
             (st, s) = (if type AND ST_MOD \<noteq> 0 then
                          (case clock_gettime s of (t, s) \<Rightarrow> (st\<lparr>st_mtim := t\<rparr>, s)) else (st, s));
             (st, s) = (if type AND ST_CHG \<noteq> 0 then
                          (case clock_gettime s of (t, s) \<Rightarrow> (st\<lparr>st_ctim := t\<rparr>, s)) else (st, s))
         in Inr (st, s)))"

definition stamp_mb :: "nat \<Rightarrow> u32 \<Rightarrow> ('d, 'z) ustate_scheme \<Rightarrow> ('d, 'z) ustate_scheme res" where
  "stamp_mb m type s = andthen (stamp (mb_s (mb_arr s m)) type s)
     (\<lambda>(st, s). Inr (upd_mb m (\<lambda>mb. mb\<lparr>mb_s := st\<rparr>) s))"

definition MB_MODIFY :: "nat \<Rightarrow> 'z mstate_scheme \<Rightarrow> 'z mstate_scheme" where
  "MB_MODIFY m s = (if consisent (mb_arr s m) then upd_mb m (\<lambda>mb. mb\<lparr>consisent := False\<rparr>) s else s)"

definition round_up_division :: "nat \<Rightarrow> nat \<Rightarrow> nat" where
  "round_up_division a b = (a + (b - 1)) div b"

section \<open>Loading a file\<close>

definition EEXIST :: int where "EEXIST = 17"

text \<open>The loop over the whole buckets: \<open>db\<close> is the bucket of the round before.\<close>

fun upload_loop ::
  "nat \<Rightarrow> nat \<Rightarrow> nat \<Rightarrow> nat option \<Rightarrow> byte list \<Rightarrow> 'z mstate_scheme \<Rightarrow> (nat option \<times> 'z mstate_scheme) res" where
  "upload_loop 0 i m db buf s = Inr (db, s)"
| "upload_loop (Suc r) i m db buf s =
     andthen (get_free_dbucket_ix s) (\<lambda>(dbindex, s).
     andthen (if i = 0 then Inr (upd_mb m (\<lambda>mb. mb\<lparr>first_dbucket := dbindex\<rparr>) s)
              else (case db of None \<Rightarrow> Inl Fault
                    | Some p \<Rightarrow> Inr (upd_db p (\<lambda>b. b\<lparr>db_next_ix := dbindex\<rparr>) s))) (\<lambda>s.
     andthen (get_dbucket_ptr dbindex s) (\<lambda>(p, s).
       upload_loop r (Suc i) m (Some p) buf
         (upd_db p (\<lambda>b. b\<lparr>db_buf := mem_write (db_buf b) 0
                              (take DBUCKET_BUF_SIZE (drop (i * DBUCKET_BUF_SIZE) buf)),
                            db_bytes := DBUCKET_BUF_SIZE\<rparr>) s))))"

definition upload_data :: "nat \<Rightarrow> nat \<Rightarrow> byte list \<Rightarrow> 'z mstate_scheme \<Rightarrow> 'z mstate_scheme res" where
  "upload_data m sz buf s =
     (let rounds = sz div DBUCKET_BUF_SIZE; off = sz mod DBUCKET_BUF_SIZE in
      andthen (if rounds = 0 then
                 andthen (get_free_dbucket_ix s) (\<lambda>(dbindex, s).
                 andthen (get_dbucket_ptr dbindex s) (\<lambda>(p, s).
                   Inr (Some p, upd_mb m (\<lambda>mb. mb\<lparr>first_dbucket := dbindex\<rparr>)
                                  (upd_db p (\<lambda>b. b\<lparr>db_bytes := 0\<rparr>) s))))
               else Inr (None, s)) (\<lambda>(db, s).
      andthen (upload_loop rounds 0 m db buf s) (\<lambda>(db, s).
        if off > 0 then
          (case db of None \<Rightarrow> Inl Fault
           | Some p \<Rightarrow>
               if db_bytes (dbs s p) = 0 then
                 Inr (upd_db p (\<lambda>b. b\<lparr>db_buf := mem_write (db_buf b) 0 (take off buf), db_bytes := off\<rparr>) s)
               else
                 andthen (get_free_dbucket_ix s) (\<lambda>(dbindex, s).
                   (let s = upd_db p (\<lambda>b. b\<lparr>db_next_ix := dbindex\<rparr>) s in
                    andthen (get_dbucket_ptr dbindex s) (\<lambda>(q, s).
                      Inr (upd_db q (\<lambda>b. b\<lparr>db_buf := mem_write (db_buf b) 0
                                              (take off (drop (rounds * DBUCKET_BUF_SIZE) buf)),
                                            db_bytes := off\<rparr>) s)))))
        else Inr s)))"

definition upload_file ::
  "('d, 'x) os_scheme \<Rightarrow> string \<Rightarrow> ('d, 'z) ustate_scheme \<Rightarrow> (nat option \<times> ('d, 'z) ustate_scheme) res" where
  "upload_file os name s =
     (case os_call (os_stat os name) s of ((r, st), s) \<Rightarrow>
        if r \<noteq> 0 then Inr (None, s)
        else case os_call (os_open os name 0 0) s of (fd, s) \<Rightarrow>
          if fd < 0 then Inr (None, s)
          else andthen (strict_create_mbucket name s) (\<lambda>(mb, s).
            case mb of
              None \<Rightarrow> Inr (None, s\<lparr>errno := EEXIST\<rparr>)
            | Some m \<Rightarrow>
                (case os_call (os_read os fd (st_size st)) s of ((c, buf), s) \<Rightarrow>
                   if c \<noteq> int (st_size st) then Inr (None, s)
                   else case os_call (os_close os fd) s of (_, s) \<Rightarrow>
                     if \<not> fits_path name then Inl Fault
                     else
                       (let s = upd_mb m (\<lambda>mb. mb\<lparr>mb_path := name, mb_s := st\<rparr>) s in
                        andthen (upload_data m (st_size st) buf s) (\<lambda>s. Inr (Some m, s))))))"

section \<open>Writing back\<close>

function traverse_from :: "nat \<Rightarrow> 'z mstate_scheme \<Rightarrow> nat option" where
  "traverse_from pos s =
     (if pos < META_BUCKETS then
        (if mb_in_use (mb_arr s pos) then Some pos else traverse_from (Suc pos) s)
      else None)"
  by pat_completeness auto
termination
  by (relation "measure (\<lambda>(pos, s). META_BUCKETS - pos)") auto

declare traverse_from.simps [simp del]

definition traverse_next_bucket :: "nat option \<Rightarrow> 'z mstate_scheme \<Rightarrow> nat option" where
  "traverse_next_bucket mb s = traverse_from (case mb of None \<Rightarrow> 0 | Some i \<Rightarrow> i + 1) s"

fun image_loop :: "nat \<Rightarrow> nat \<Rightarrow> u32 \<Rightarrow> buffer \<Rightarrow> 'z dstate_scheme \<Rightarrow> ((u32 \<times> buffer) \<times> 'z dstate_scheme) res" where
  "image_loop 0 i dbindex buf s = Inr ((dbindex, buf), s)"
| "image_loop (Suc r) i dbindex buf s =
     andthen (get_dbucket_ptr dbindex s) (\<lambda>(p, s).
       image_loop r (Suc i) (db_next_ix (dbs s p))
         (mem_write buf (i * DBUCKET_BUF_SIZE) (mem_read (db_buf (dbs s p)) 0 DBUCKET_BUF_SIZE)) s)"

text \<open>The block \<open>buf\<close> at the time of the write.\<close>

definition disk_image :: "buffer \<Rightarrow> nat \<Rightarrow> u32 \<Rightarrow> 'z dstate_scheme \<Rightarrow> (byte list \<times> 'z dstate_scheme) res" where
  "disk_image junk sz first s =
     (let rounds = sz div DBUCKET_BUF_SIZE; off = sz mod DBUCKET_BUF_SIZE in
      andthen (image_loop rounds 0 first junk s) (\<lambda>((dbindex, buf), s).
        if off > 0 then
          andthen (get_dbucket_ptr dbindex s) (\<lambda>(p, s).
            Inr (mem_read (mem_write buf 0 (mem_read (db_buf (dbs s p)) 0 off)) 0 sz, s))
        else Inr (mem_read buf 0 sz, s)))"

definition write_to_disk ::
  "('d, 'x) os_scheme \<Rightarrow> buffer \<Rightarrow> nat \<Rightarrow> ('d, 'z) ustate_scheme \<Rightarrow> ('d, 'z) ustate_scheme res" where
  "write_to_disk os junk m s =
     andthen (disk_image junk (st_size (mb_s (mb_arr s m))) (first_dbucket (mb_arr s m)) s) (\<lambda>(buf, s).
       (case os_call (os_open os (mb_path (mb_arr s m)) (2 OR 64 OR 512) (st_mode (mb_s (mb_arr s m)))) s of
          (fd, s) \<Rightarrow>
            (case os_call (os_write os fd buf) s of (_, s) \<Rightarrow>
               (case os_call (os_close os fd) s of (_, s) \<Rightarrow> Inr s))))"

lemma traverse_from_Some:
  "traverse_from pos s = Some i \<longleftrightarrow>
     pos \<le> i \<and> i < META_BUCKETS \<and> mb_in_use (mb_arr s i) \<and> (\<forall>j. pos \<le> j \<and> j < i \<longrightarrow> \<not> mb_in_use (mb_arr s j))"
proof (induction pos s rule: traverse_from.induct)
  case (1 pos s)
  show ?case
  proof (cases "pos < META_BUCKETS \<and> \<not> mb_in_use (mb_arr s pos)")
    case True
    then have "traverse_from pos s = traverse_from (Suc pos) s" by (subst traverse_from.simps) simp
    with 1 True show ?thesis by (auto simp: Suc_le_eq order_less_le)
  next
    case False
    then show ?thesis by (subst traverse_from.simps) (auto simp: order_less_le)
  qed
qed

function flush_loop ::
  "('d, 'x) os_scheme \<Rightarrow> buffer \<Rightarrow> nat option \<Rightarrow> ('d, 'z) ustate_scheme \<Rightarrow> ('d, 'z) ustate_scheme res" where
  "flush_loop os junk mb s =
     (case traverse_next_bucket mb s of None \<Rightarrow> Inr s
      | Some m \<Rightarrow>
          andthen (if \<not> consisent (mb_arr s m) then write_to_disk os junk m s else Inr s)
            (flush_loop os junk (Some m)))"
  by pat_completeness auto
termination
  by (relation "measure (\<lambda>(os, junk, mb, s). case mb of None \<Rightarrow> Suc META_BUCKETS | Some i \<Rightarrow> META_BUCKETS - i)")
    (auto simp: traverse_next_bucket_def traverse_from_Some split: option.splits)

declare flush_loop.simps [simp del]

definition flush_write ::
  "('d, 'x) os_scheme \<Rightarrow> buffer \<Rightarrow> ('d, 'z) ustate_scheme \<Rightarrow> ('d, 'z) ustate_scheme res" where
  "flush_write os junk s = flush_loop os junk None s"

end
