(* ===== verification/Ufs_Syscalls.thy ===== *)
theory Ufs_Syscalls
  imports Ufs_Util
begin

text \<open>
  \<open>system/lib/file_syscalls.c\<close>: the file system calls the library puts in front of the C library's.
  Each returns the call's result (for the reading calls with the bytes written to the caller's
  buffer) and the new state, \<open>errno\<close> included. \<open>DEFER_TIMESTAMP_CLOSE\<close>, \<open>OFFSET_PROCESS_CACHE\<close> and
  \<open>UNLINK_IGNORE_DISK\<close> are defined and \<open>O_TRUNC_FREE\<close> is not, as in \<open>config.h\<close>. The flags are those
  of Linux.
\<close>

unbundle bit_operations_syntax

definition ENOENT :: int where "ENOENT = 2"
definition EBADF :: int where "EBADF = 9"
definition EMFILE :: int where "EMFILE = 24"
definition ENOSPC :: int where "ENOSPC = 28"
definition ENAMETOOLONG :: int where "ENAMETOOLONG = 36"

definition O_WRONLY :: u32 where "O_WRONLY = 1"
definition O_RDWR :: u32 where "O_RDWR = 2"
definition O_CREAT :: u32 where "O_CREAT = 64"
definition O_EXCL :: u32 where "O_EXCL = 128"
definition O_TRUNC :: u32 where "O_TRUNC = 512"
definition O_APPEND :: u32 where "O_APPEND = 1024"

definition has_flag :: "u32 \<Rightarrow> u32 \<Rightarrow> bool" where
  "has_flag flags f \<longleftrightarrow> flags AND f \<noteq> 0"

definition O_TRUNC_CHECK :: "u32 \<Rightarrow> bool" where
  "O_TRUNC_CHECK flags \<longleftrightarrow> has_flag flags O_TRUNC \<and> (has_flag flags O_RDWR \<or> has_flag flags O_WRONLY)"

section \<open>Opening\<close>

definition create_new_file ::
  "string \<Rightarrow> u32 \<Rightarrow> nat \<Rightarrow> ('d, 'z) ustate_scheme \<Rightarrow> (nat option \<times> ('d, 'z) ustate_scheme) res" where
  "create_new_file fpath flags mode s =
     andthen (strict_create_mbucket fpath s) (\<lambda>(mb, s).
       case mb of
         None \<Rightarrow> Inr (None, s\<lparr>errno := ENOSPC\<rparr>)
       | Some m \<Rightarrow>
           andthen (get_free_dbucket_ix s) (\<lambda>(dbindex, s).
             (let s = upd_mb m (\<lambda>mb. mb\<lparr>first_dbucket := dbindex,
                        mb_s := (mb_s mb)\<lparr>st_mode := mode, st_size := 0, st_blocks := 1,
                                          st_blksize := int DBUCKET_BUF_SIZE\<rparr>\<rparr>) s
              in if \<not> fits_path fpath then Inl Fault
                 else
                   andthen (stamp_mb m (ST_ACS OR ST_MOD OR ST_CHG)
                             (upd_mb m (\<lambda>mb. mb\<lparr>mb_path := fpath\<rparr>) s)) (\<lambda>s.
                     Inr (Some m, MB_MODIFY m s)))))"

definition exclusive_path :: "string \<Rightarrow> bool" where
  "exclusive_path path = (strstr path ''/dev/'' \<or> strstr path ''/proc/'')"

text \<open>The loop for \<open>O_APPEND\<close>: \<open>db->next_ix >= 0\<close> always holds of an unsigned field and nothing
  leaves the loop, so it has no result; it ends in \<open>get_dbucket_ptr\<close> or never.\<close>

fun append_loop :: "nat \<Rightarrow> u32 \<Rightarrow> 'z dstate_scheme \<Rightarrow> 'z dstate_scheme res" where
  "append_loop 0 dbindex s = Inl Hang"
| "append_loop (Suc k) dbindex s =
     andthen (get_dbucket_ptr dbindex s) (\<lambda>(p, s). append_loop k (db_next_ix (dbs s p)) s)"

text \<open>The body of \<open>open\<close> up to the cursor: the metadata bucket, or \<open>None\<close> with the error in
  \<open>err\<close>.\<close>

definition open_mb ::
  "('d, 'x) os_scheme \<Rightarrow> string \<Rightarrow> string \<Rightarrow> u32 \<Rightarrow> nat \<Rightarrow> ('d, 'z) ustate_scheme \<Rightarrow>
     ((int + nat) \<times> ('d, 'z) ustate_scheme) res" where
  "open_mb os pathname fpath flags mode s =
     (if \<not> has_flag flags O_CREAT then
        andthen (get_mbucket fpath s) (\<lambda>(mb, s).
          case mb of Some m \<Rightarrow> Inr (Inr m, s)
          | None \<Rightarrow> andthen (upload_file os fpath s) (\<lambda>(mb, s).
              case mb of Some m \<Rightarrow> Inr (Inr m, s) | None \<Rightarrow> Inr (Inl (errno s), s)))
      else if O_TRUNC_CHECK flags then
        andthen (get_mbucket fpath s) (\<lambda>(mb, s).
          case mb of
            Some m \<Rightarrow>
              andthen (truncate_chain (first_dbucket (mb_arr s m)) s) (\<lambda>s.
              andthen (stamp_mb m (ST_MOD OR ST_CHG)
                        (upd_mb m (\<lambda>mb. mb\<lparr>mb_s := (mb_s mb)\<lparr>st_size := 0, st_blocks := 1\<rparr>\<rparr>) s)) (\<lambda>s.
                Inr (Inr m, MB_MODIFY m s)))
          | None \<Rightarrow> andthen (create_new_file fpath flags mode s) (\<lambda>(mb, s).
              case mb of Some m \<Rightarrow> Inr (Inr m, s) | None \<Rightarrow> Inr (Inl (errno s), s)))
      else
        andthen (get_mbucket fpath s) (\<lambda>(mb, s).
          case mb of
            Some m \<Rightarrow> (if has_flag flags O_EXCL then Inr (Inl EEXIST, s) else Inr (Inr m, s))
          | None \<Rightarrow>
              (case os_call (os_stat os pathname) s of ((r, st), s) \<Rightarrow>
                 if r = 0 then
                   (if has_flag flags O_EXCL then Inr (Inl EEXIST, s)
                    else andthen (upload_file os fpath s) (\<lambda>(mb, s).
                      case mb of Some m \<Rightarrow> Inr (Inr m, s) | None \<Rightarrow> Inr (Inl (errno s), s)))
                 else andthen (create_new_file fpath flags mode s) (\<lambda>(mb, s).
                   case mb of Some m \<Rightarrow> Inr (Inr m, s) | None \<Rightarrow> Inr (Inl (errno s), s)))))"

definition ufs_open ::
  "('d, 'x) os_scheme \<Rightarrow> string \<Rightarrow> u32 \<Rightarrow> nat \<Rightarrow> ('d, 'z) ustate_scheme \<Rightarrow> (int \<times> ('d, 'z) ustate_scheme) res" where
  "ufs_open os pathname flags mode s =
     (if calling_shm_open s then Inr (os_call (os_open os pathname flags mode) s)
      else if exclusive_path pathname then
        (case os_call (os_open os pathname flags mode) s of (ret, s) \<Rightarrow>
           if ret > 0 then
             andthen (FDDES ret) (\<lambda>i. Inr (ret, upd_fd i (\<lambda>fi. fi\<lparr>fd_empty := False, exclusive := True\<rparr>) s))
           else Inr (ret, s))
      else if length pathname > PATH_MAX then Inr (- 1, s\<lparr>errno := ENAMETOOLONG\<rparr>)
      else
        andthen (full_path (os_getcwd os (disk s)) pathname) (\<lambda>fpath.
        andthen (open_mb os pathname fpath flags mode s) (\<lambda>(r, s).
          case r of
            Inl err \<Rightarrow> Inr (- 1, s\<lparr>errno := err\<rparr>)
          | Inr m \<Rightarrow>
              andthen (if has_flag flags O_APPEND then
                         append_loop (Suc (Suc (live s))) (first_dbucket (mb_arr s m)) s
                       else Inr (upd_mb m (\<lambda>mb. mb\<lparr>last_dbucket := first_dbucket mb, last_db_offset := 0\<rparr>) s))
                (\<lambda>s. andthen (get_empty_fd FIRST_USER_FD MAX_NUM_FD s) (\<lambda>(fd, s).
                   if fd < 0 then Inr (- 1, s\<lparr>errno := EMFILE\<rparr>)
                   else andthen (FDDES fd) (\<lambda>i.
                     Inr (fd, (upd_fd i (\<lambda>fi. fi\<lparr>mindex := of_nat m\<rparr>) s)\<lparr>errno := 0\<rparr>)))))))"

section \<open>Closing\<close>

definition timespec_comp :: "timespec \<Rightarrow> timespec \<Rightarrow> bool" where
  "timespec_comp a b = (if tv_sec a = tv_sec b then tv_nsec a > tv_nsec b else tv_sec a > tv_sec b)"

definition STAMP_CHECK :: "u32 \<Rightarrow> u32 \<Rightarrow> timespec \<Rightarrow> timespec \<Rightarrow> bool" where
  "STAMP_CHECK t1 t2 a b \<longleftrightarrow> t1 AND t2 \<noteq> 0 \<and> timespec_comp a b"

definition merge_stamps :: "fd_info \<Rightarrow> stat \<Rightarrow> stat" where
  "merge_stamps fi st =
     (let st = (if STAMP_CHECK (stamp_type fi) ST_ACS (st_atim (priv_s fi)) (st_atim st)
                then st\<lparr>st_atim := st_atim (priv_s fi)\<rparr> else st);
          st = (if STAMP_CHECK (stamp_type fi) ST_MOD (st_mtim (priv_s fi)) (st_mtim st)
                then st\<lparr>st_mtim := st_mtim (priv_s fi)\<rparr> else st)
      in if STAMP_CHECK (stamp_type fi) ST_CHG (st_ctim (priv_s fi)) (st_ctim st)
         then st\<lparr>st_ctim := st_ctim (priv_s fi)\<rparr> else st)"

text \<open>The metadata bucket of an open descriptor.\<close>

definition fd_mb :: "nat \<Rightarrow> ('d, 'z) ustate_scheme \<Rightarrow> nat res" where
  "fd_mb i s = MB_PTR (int (unat (mindex (fdTable s i))))"

definition ufs_close ::
  "('d, 'x) os_scheme \<Rightarrow> int \<Rightarrow> ('d, 'z) ustate_scheme \<Rightarrow> (int \<times> ('d, 'z) ustate_scheme) res" where
  "ufs_close os fd s =
     andthen (FDDES fd) (\<lambda>i.
       if exclusive (fdTable s i) then
         (case os_call (os_close os fd) s of (ret, s) \<Rightarrow>
            if ret = 0 then (let err = errno s in andthen (reset_fd fd s) (\<lambda>s. Inr (ret, s\<lparr>errno := err\<rparr>)))
            else Inr (ret, s))
       else if fd_empty (fdTable s i) then Inr (- 1, s\<lparr>errno := EBADF\<rparr>)
       else
         andthen (fd_mb i s) (\<lambda>m.
         andthen (reset_fd fd (upd_mb m (\<lambda>mb. mb\<lparr>mb_s := merge_stamps (fdTable s i) (mb_s mb)\<rparr>) s)) (\<lambda>s.
           Inr (0, s\<lparr>errno := 0\<rparr>))))"

section \<open>Reading and writing at the cursor\<close>

definition stamp_fd :: "nat \<Rightarrow> u32 \<Rightarrow> ('d, 'z) ustate_scheme \<Rightarrow> ('d, 'z) ustate_scheme res" where
  "stamp_fd i type s = andthen (stamp (priv_s (fdTable s i)) type s)
     (\<lambda>(st, s). Inr (upd_fd i (\<lambda>fi. fi\<lparr>priv_s := st, stamp_type := stamp_type fi OR type\<rparr>) s))"

text \<open>\<open>(size_t)\<close> of the signed field \<open>last_db_offset\<close>, and \<open>(int)\<close> of the \<open>size_t\<close> stored there.\<close>

definition cursor_off :: "meta_bucket \<Rightarrow> nat" where
  "cursor_off mb = nat (last_db_offset mb mod 2 ^ 64)"

definition set_cursor :: "nat \<Rightarrow> u32 \<Rightarrow> nat \<Rightarrow> 'z mstate_scheme \<Rightarrow> 'z mstate_scheme" where
  "set_cursor m dbindex off s =
     upd_mb m (\<lambda>mb. mb\<lparr>last_dbucket := dbindex, last_db_offset := to_int32 (int off)\<rparr>) s"

definition ufs_read ::
  "('d, 'x) os_scheme \<Rightarrow> int \<Rightarrow> nat \<Rightarrow> ('d, 'z) ustate_scheme \<Rightarrow> ((int \<times> byte list) \<times> ('d, 'z) ustate_scheme) res" where
  "ufs_read os fd count s =
     andthen (FDDES fd) (\<lambda>i.
       if exclusive (fdTable s i) then Inr (os_call (os_read os fd count) s)
       else if fd_empty (fdTable s i) then Inr ((- 1, []), s\<lparr>errno := EBADF\<rparr>)
       else
         andthen (fd_mb i s) (\<lambda>m.
         andthen (read_loop (loop_fuel count s) (last_dbucket (mb_arr s m)) (cursor_off (mb_arr s m)) count [] s)
           (\<lambda>((out, dbindex, off), s).
             andthen (if length out > 0 then stamp_fd i ST_ACS (set_cursor m dbindex off s) else Inr s)
               (\<lambda>s. Inr ((int (length out), out), s\<lparr>errno := 0\<rparr>)))))"

definition grow_file :: "nat \<Rightarrow> nat \<Rightarrow> 'z mstate_scheme \<Rightarrow> 'z mstate_scheme" where
  "grow_file m size_ind s =
     (if size_ind > 0 then
        upd_mb m (\<lambda>mb. (let sz = size_ind + st_size (mb_s mb) in
          mb\<lparr>mb_s := (mb_s mb)\<lparr>st_size := sz,
                               st_blocks := int (round_up_division sz DBUCKET_BUF_SIZE)\<rparr>\<rparr>)) s
      else s)"

definition ufs_write ::
  "('d, 'x) os_scheme \<Rightarrow> int \<Rightarrow> byte list \<Rightarrow> ('d, 'z) ustate_scheme \<Rightarrow> (int \<times> ('d, 'z) ustate_scheme) res" where
  "ufs_write os fd buf s =
     andthen (FDDES fd) (\<lambda>i.
       if exclusive (fdTable s i) then Inr (os_call (os_write os fd buf) s)
       else if fd_empty (fdTable s i) then Inr (- 1, s\<lparr>errno := EBADF\<rparr>)
       else
         andthen (fd_mb i s) (\<lambda>m.
         andthen (write_loop get_free_dbucket_ix (last_dbucket (mb_arr s m)) (cursor_off (mb_arr s m)) buf 0 0 s)
           (\<lambda>((n, size_ind, dbindex, off), s).
             andthen (if n > 0 then
                        andthen (stamp_fd i (ST_MOD OR ST_CHG) (set_cursor m dbindex off s)) (\<lambda>s. Inr (MB_MODIFY m s))
                      else Inr s)
               (\<lambda>s. Inr (int n, (grow_file m size_ind s)\<lparr>errno := 0\<rparr>)))))"

section \<open>Reading and writing at an offset\<close>

text \<open>The lookup in the per-descriptor cache: the last matching entry wins.\<close>

definition cache_lookup :: "fd_info \<Rightarrow> int \<Rightarrow> u32" where
  "cache_lookup fi offset =
     foldl (\<lambda>r j. if oi_offset (off_db_mapping fi j) = offset then oi_dbindex (off_db_mapping fi j) else r)
       nil_ix [0 ..< OFFSET_PROCESS_CACHE_SIZE]"

definition cache_store :: "int \<Rightarrow> u32 \<Rightarrow> fd_info \<Rightarrow> fd_info" where
  "cache_store offset dbindex fi =
     fi\<lparr>off_db_mapping := (off_db_mapping fi)(off_db_ptr fi := \<lparr>oi_offset = offset, oi_dbindex = dbindex\<rparr>),
        off_db_ptr := (off_db_ptr fi + 1) mod OFFSET_PROCESS_CACHE_SIZE\<rparr>"

text \<open>From offset to bucket: the cache, else the walk along the chain. \<open>None\<close> is the early return
  with 0.\<close>

definition find_bucket ::
  "nat \<Rightarrow> nat \<Rightarrow> int \<Rightarrow> ('d, 'z) ustate_scheme \<Rightarrow> (u32 option \<times> ('d, 'z) ustate_scheme) res" where
  "find_bucket i m offset s =
     (let dbindex = cache_lookup (fdTable s i) offset in
      if dbindex = nil_ix then
        andthen (seek_loop (nat (to_int32 (c_div offset (int DBUCKET_BUF_SIZE)))) (first_dbucket (mb_arr s m)) s)
          (\<lambda>(r, s). case r of None \<Rightarrow> Inr (None, s)
            | Some dbindex \<Rightarrow> Inr (Some dbindex, upd_fd i (cache_store offset dbindex) s))
      else Inr (Some dbindex, s))"

definition bucket_off :: "int \<Rightarrow> nat" where
  "bucket_off offset = nat (c_rem offset (int DBUCKET_BUF_SIZE) mod 2 ^ 64)"

definition ufs_pread ::
  "('d, 'x) os_scheme \<Rightarrow> int \<Rightarrow> nat \<Rightarrow> int \<Rightarrow> ('d, 'z) ustate_scheme \<Rightarrow>
     ((int \<times> byte list) \<times> ('d, 'z) ustate_scheme) res" where
  "ufs_pread os fd count offset s =
     andthen (FDDES fd) (\<lambda>i.
       if exclusive (fdTable s i) then Inr (os_call (os_pread os fd count offset) s)
       else if fd_empty (fdTable s i) then Inr ((- 1, []), s\<lparr>errno := EBADF\<rparr>)
       else
         andthen (fd_mb i s) (\<lambda>m.
         andthen (find_bucket i m offset s) (\<lambda>(r, s).
           case r of None \<Rightarrow> Inr ((0, []), s\<lparr>errno := 0\<rparr>)
           | Some dbindex \<Rightarrow>
               andthen (pread_loop (loop_fuel count s) dbindex (bucket_off offset) count [] s) (\<lambda>(out, s).
               andthen (if length out > 0 then stamp_fd i ST_ACS s else Inr s) (\<lambda>s.
                 Inr ((int (length out), out), s\<lparr>errno := 0\<rparr>))))))"

definition ufs_pwrite ::
  "('d, 'x) os_scheme \<Rightarrow> int \<Rightarrow> byte list \<Rightarrow> int \<Rightarrow> ('d, 'z) ustate_scheme \<Rightarrow> (int \<times> ('d, 'z) ustate_scheme) res" where
  "ufs_pwrite os fd buf offset s =
     andthen (FDDES fd) (\<lambda>i.
       if exclusive (fdTable s i) then Inr (os_call (os_pwrite os fd buf offset) s)
       else if fd_empty (fdTable s i) then Inr (- 1, s\<lparr>errno := EBADF\<rparr>)
       else
         andthen (fd_mb i s) (\<lambda>m.
         andthen (find_bucket i m offset s) (\<lambda>(r, s).
           case r of None \<Rightarrow> Inr (0, s\<lparr>errno := 0\<rparr>)
           | Some dbindex \<Rightarrow>
               andthen (pwrite_loop get_free_dbucket_ix dbindex (bucket_off offset) buf 0 0 s) (\<lambda>((n, size_ind), s).
               andthen (if n > 0 then
                          andthen (stamp_fd i (ST_MOD OR ST_CHG) s) (\<lambda>s. Inr (MB_MODIFY m s))
                        else Inr s) (\<lambda>s.
                 Inr (int n, (grow_file m size_ind s)\<lparr>errno := 0\<rparr>))))))"

section \<open>Names\<close>

definition ufs_unlink ::
  "('d, 'x) os_scheme \<Rightarrow> string \<Rightarrow> ('d, 'z) ustate_scheme \<Rightarrow> (int \<times> ('d, 'z) ustate_scheme) res" where
  "ufs_unlink os pathname s =
     (if calling_shm_unlink s then Inr (os_call (os_unlink os pathname) s)
      else if length pathname > PATH_MAX then Inr (- 1, s\<lparr>errno := ENAMETOOLONG\<rparr>)
      else
        andthen (full_path (os_getcwd os (disk s)) pathname) (\<lambda>fpath.
        andthen (release_meta_bucket fpath s) (\<lambda>(r, s).
          if r = 0 then Inr (0, s\<lparr>errno := 0\<rparr>) else Inr (- 1, s\<lparr>errno := ENOENT\<rparr>))))"

definition ufs_rename ::
  "('d, 'x) os_scheme \<Rightarrow> string \<Rightarrow> string \<Rightarrow> ('d, 'z) ustate_scheme \<Rightarrow> (int \<times> ('d, 'z) ustate_scheme) res" where
  "ufs_rename os oldpath newpath s =
     (if oldpath = newpath then Inr (0, s\<lparr>errno := 0\<rparr>)
      else if length oldpath > PATH_MAX \<or> length newpath > PATH_MAX then Inr (- 1, s\<lparr>errno := ENAMETOOLONG\<rparr>)
      else
        andthen (full_path (os_getcwd os (disk s)) oldpath) (\<lambda>foldpath.
        andthen (full_path (os_getcwd os (disk s)) newpath) (\<lambda>fnewpath.
        andthen (mb_chpath foldpath fnewpath s) (\<lambda>(ret, s).
          if ret < 0 then
            (case os_call (os_rename os oldpath newpath) s of (ret, s) \<Rightarrow>
               (let err = errno s in
                if ret = 0 then
                  andthen (get_mbucket fnewpath s) (\<lambda>(mb, s).
                    case mb of Some m \<Rightarrow> Inl Exit | None \<Rightarrow> Inr (ret, s\<lparr>errno := err\<rparr>))
                else Inr (ret, s\<lparr>errno := err\<rparr>)))
          else
            andthen (get_mbucket fnewpath s) (\<lambda>(mb, s).
              case mb of None \<Rightarrow> Inl Fault | Some m \<Rightarrow> Inr (ret, (MB_MODIFY m s)\<lparr>errno := 0\<rparr>))))))"

definition ufs_fsync :: "int \<Rightarrow> int" where
  "ufs_fsync fd = 0"

end
