(* ===== verification/Ufs_Directory.thy ===== *)
theory Ufs_Directory
  imports Ufs_Meta
begin

text \<open>
  What the hash table of \<open>meta_shm.c\<close> promises: it is a map from paths to metadata buckets.

  \<open>rows_ok s R\<close> is the representation invariant, with \<open>R h\<close> the buckets of row \<open>h\<close> in list
  order; \<open>look s\<close> is the abstract map, read off the rows and not defined by the loops of the
  code. Each operation of \<open>Ufs_Meta\<close> is proved to keep the invariant and to act on the map the way its name says; the locale \<open>name_service\<close> states the
  laws the system calls rely on and derives their common consequences, and is interpreted on
  the operations themselves.
\<close>

section \<open>Representation invariant and abstract map\<close>

definition ok_path :: "string \<Rightarrow> bool" where
  "ok_path p \<longleftrightarrow> ascii p \<and> length p \<le> PATH_MAX"

definition row_ok :: "'z mstate_scheme \<Rightarrow> nat \<Rightarrow> nat list \<Rightarrow> bool" where
  "row_ok s h xs \<longleftrightarrow>
     mlist (mb_arr s) (first_ix (hash_table s h)) xs \<and>
     (\<forall>i \<in> set xs. mb_in_use (mb_arr s i) \<and> hash (mb_path (mb_arr s i)) = Inr h \<and>
        length (mb_path (mb_arr s i)) \<le> PATH_MAX) \<and>
     distinct (map (\<lambda>i. mb_path (mb_arr s i)) xs)"

definition rows_ok :: "'z mstate_scheme \<Rightarrow> (nat \<Rightarrow> nat list) \<Rightarrow> bool" where
  "rows_ok s R \<longleftrightarrow>
     (\<forall>h < HASH_TABLE_SIZE. hi_lock (hash_table s h) = init_urwlock \<and> row_ok s h (R h)) \<and>
     (\<forall>i < META_BUCKETS. \<not> mb_lock (mb_arr s i) \<and>
        (\<not> mb_in_use (mb_arr s i) \<longrightarrow> mb_next_ix (mb_arr s i) = - 1))"

definition minv :: "'z mstate_scheme \<Rightarrow> bool" where
  "minv s \<longleftrightarrow> (\<exists>R. rows_ok s R)"

text \<open>
  \<open>row_of\<close> reads off the buckets of a list from its first index, following \<open>next_ix\<close> for at most
  as many buckets as there are; the entry of a path is the bucket of its row that holds it.
\<close>

fun row_of :: "nat \<Rightarrow> (nat \<Rightarrow> meta_bucket) \<Rightarrow> int \<Rightarrow> nat list" where
  "row_of 0 m ix = []"
| "row_of (Suc k) m ix =
     (if 0 \<le> ix \<and> nat ix < META_BUCKETS then nat ix # row_of k m (mb_next_ix (m (nat ix))) else [])"

definition look :: "'z mstate_scheme \<Rightarrow> string \<Rightarrow> nat option" where
  "look s p =
     (if ok_path p then
        (case hash p of Inl e \<Rightarrow> None
         | Inr h \<Rightarrow> find (\<lambda>i. mb_path (mb_arr s i) = p)
                     (row_of META_BUCKETS (mb_arr s) (first_ix (hash_table s h))))
      else None)"

lemma row_of_mlist: "mlist m ix xs \<Longrightarrow> length xs \<le> k \<Longrightarrow> row_of k m ix = xs"
proof (induction xs arbitrary: ix k)
  case Nil
  then show ?case by (cases k) auto
next
  case (Cons a xs)
  then show ?case by (cases k) auto
qed

lemma row_of_range: "i \<in> set (row_of k m ix) \<Longrightarrow> i < META_BUCKETS"
  by (induction k arbitrary: ix) (auto split: if_splits)

lemma row_of_cong: "(\<And>i. mb_next_ix (m' i) = mb_next_ix (m i)) \<Longrightarrow> row_of k m' ix = row_of k m ix"
  by (induction k arbitrary: ix) auto

lemma ok_path_hash: "ok_path p \<Longrightarrow> \<exists>h. hash p = Inr h \<and> h < HASH_TABLE_SIZE"
  using hash_ascii_ok [of p] hash_range [of p] by (auto simp: ok_path_def)

lemma row_ok_distinct: "row_ok s h xs \<Longrightarrow> distinct xs"
  by (simp add: row_ok_def distinct_map)

lemma row_ok_length: "row_ok s h xs \<Longrightarrow> length xs \<le> META_BUCKETS"
  by (rule distinct_bounded_length [OF row_ok_distinct]) (auto simp: row_ok_def dest: mseg_in_range)

lemma rows_disjoint:
  assumes "row_ok s h xs" "row_ok s h' ys" "h \<noteq> h'"
  shows "set xs \<inter> set ys = {}"
  using assms by (fastforce simp: row_ok_def)

lemma path_eq_row:
  assumes "row_ok s h xs" "ok_path p" "i \<in> set xs"
  shows "path_eq p i s \<longleftrightarrow> mb_path (mb_arr s i) = p"
  using assms by (auto simp: path_eq_def row_ok_def ok_path_def strncmp_eq_short)

lemma find_distinct:
  assumes "distinct (map f xs)"
  shows "find (\<lambda>i. f i = p) xs = Some i \<longleftrightarrow> i \<in> set xs \<and> f i = p"
  using assms by (induction xs) auto

lemma look_row:
  assumes "row_ok s h xs" "hash p = Inr h" "ok_path p"
  shows "look s p = find (\<lambda>i. mb_path (mb_arr s i) = p) xs"
proof -
  have "row_of META_BUCKETS (mb_arr s) (first_ix (hash_table s h)) = xs"
    using assms(1) row_ok_length by (intro row_of_mlist) (auto simp: row_ok_def)
  with assms(2,3) show ?thesis by (simp add: look_def)
qed

lemma look_iff:
  assumes "row_ok s h xs" "hash p = Inr h" "ok_path p"
  shows "look s p = Some i \<longleftrightarrow> i \<in> set xs \<and> mb_path (mb_arr s i) = p"
  using assms(1) by (simp add: look_row [OF assms] find_distinct row_ok_def)

lemma look_path:
  assumes "look s p = Some m"
  shows "m < META_BUCKETS" "mb_path (mb_arr s m) = p"
  using assms
  by (auto simp: look_def find_Some_iff split: if_splits sum.splits dest: nth_mem [THEN row_of_range])

lemma look_not_ok: "\<not> ok_path p \<Longrightarrow> look s p = None"
  by (simp add: look_def)

lemma option_eqI: "(\<And>i. a = Some i \<longleftrightarrow> b = Some i) \<Longrightarrow> a = b"
  by (cases a; cases b) auto

lemma look_none_iff:
  assumes "row_ok s h xs" "hash p = Inr h" "ok_path p"
  shows "look s p = None \<longleftrightarrow> (\<forall>i \<in> set xs. \<not> path_eq p i s)"
  using look_iff [OF assms] path_eq_row [OF assms(1,3)] by (metis not_Some_eq)

text \<open>A row is untouched by a change elsewhere.\<close>

lemma row_ok_frame:
  assumes "row_ok s h xs" "first_ix (hash_table s' h) = first_ix (hash_table s h)"
    "\<And>i. i \<in> set xs \<Longrightarrow> mb_next_ix (mb_arr s' i) = mb_next_ix (mb_arr s i) \<and>
       mb_in_use (mb_arr s' i) = mb_in_use (mb_arr s i) \<and> mb_path (mb_arr s' i) = mb_path (mb_arr s i)"
  shows "row_ok s' h xs"
proof -
  have m: "map (\<lambda>i. mb_path (mb_arr s' i)) xs = map (\<lambda>i. mb_path (mb_arr s i)) xs"
    using assms(3) by simp
  have "mlist (mb_arr s') (first_ix (hash_table s' h)) xs"
    using assms by (subst mseg_cong [of xs _ "mb_arr s"]) (auto simp: row_ok_def)
  moreover have "distinct (map (\<lambda>i. mb_path (mb_arr s' i)) xs)"
    unfolding m using assms(1) by (simp add: row_ok_def)
  ultimately show ?thesis using assms(1,3) by (auto simp: row_ok_def)
qed

text \<open>Locked and unlocked again, a row's record is what it was.\<close>

lemma row_down_write_free:
  assumes "hi_lock (hash_table s h) = init_urwlock"
  shows "row_down_write h s = Inr (upd_hi h (\<lambda>r. r\<lparr>hi_lock := write_locked\<rparr>) s)"
  using assms by (simp add: row_down_write_def)

lemma upd_hi_upd_hi [simp]: "upd_hi h f (upd_hi h g s) = upd_hi h (\<lambda>r. f (g r)) s"
  by (simp add: upd_hi_def)

lemma upd_mb_upd_mb [simp]: "upd_mb i f (upd_mb i g s) = upd_mb i (\<lambda>m. f (g m)) s"
  by (simp add: upd_mb_def)

lemma upd_hi_lock_same: "hi_lock (hash_table s h) = l \<Longrightarrow> upd_hi h (\<lambda>r. r\<lparr>hi_lock := l\<rparr>) s = s"
  by (drule sym) (simp add: upd_hi_def)

lemma row_ok_lock [simp]: "row_ok (upd_hi h' (\<lambda>r. r\<lparr>hi_lock := l\<rparr>) s) h xs = row_ok s h xs"
  by (simp add: row_ok_def)

lemma path_eq_upd_hi [simp]: "path_eq p i (upd_hi h f s) = path_eq p i s"
  by (simp add: path_eq_def)

section \<open>Lookup\<close>

lemma get_mbucket_look:
  assumes "minv s" "ok_path p"
  shows "get_mbucket p s = Inr (look s p, s)"
proof -
  obtain R h where R: "rows_ok s R" and h: "hash p = Inr h" "h < HASH_TABLE_SIZE"
    using assms(1) ok_path_hash [OF assms(2)] by (auto simp: minv_def)
  then have row: "row_ok s h (R h)" and lock: "hi_lock (hash_table s h) = init_urwlock"
    by (auto simp: rows_ok_def)
  let ?rd = "init_urwlock\<lparr>num_readers := 1\<rparr>"
  let ?s = "upd_hi h (\<lambda>r. r\<lparr>hi_lock := ?rd\<rparr>) s"
  have down: "row_down_read h s = Inr ?s"
    using lock by (simp add: row_down_read_def rwlock_defs init_urwlock_def)
  have up: "row_up_read h ?s = s"
    using upd_hi_lock_same [OF lock] by (simp add: row_up_read_def rwlock_defs init_urwlock_def)
  have "row_ok ?s h (R h)" using row by simp
  then have "find_mb META_BUCKETS p (first_ix (hash_table ?s h)) ?s = Inr (find (\<lambda>i. path_eq p i ?s) (R h))"
    using row_ok_length by (intro find_mb_mlist) (auto simp: row_ok_def)
  also have "find (\<lambda>i. path_eq p i ?s) (R h) = find (\<lambda>i. mb_path (mb_arr s i) = p) (R h)"
    using path_eq_row [OF row assms(2)] by (intro find_cong) auto
  also have "\<dots> = look s p" by (rule look_row [OF row h(1) assms(2), symmetric])
  finally show ?thesis using h(1) down up by (simp add: get_mbucket_def)
qed

section \<open>Creation\<close>

lemma claim_mbucket_eq:
  "claim_mbucket mb = (if \<not> mb_in_use mb \<and> \<not> mb_lock mb then (True, mb\<lparr>mb_in_use := True\<rparr>) else (False, mb))"
  by (cases mb) (simp add: claim_mbucket_def)

lemma walk_mbuckets_result:
  "walk_mbuckets m i s = (r, s') \<Longrightarrow>
     r = - 1 \<and> s' = s \<and> (\<forall>k. i \<le> k \<and> k < META_BUCKETS \<longrightarrow>
        mb_in_use (mb_arr s ((m + k) mod META_BUCKETS)) \<or> mb_lock (mb_arr s ((m + k) mod META_BUCKETS))) \<or>
     (\<exists>j < META_BUCKETS. r = int j \<and> \<not> mb_in_use (mb_arr s j) \<and>
        s' = upd_mb j (\<lambda>mb. mb\<lparr>mb_in_use := True\<rparr>) s)"
proof (induction m i s arbitrary: r s' rule: walk_mbuckets.induct)
  case (1 m i s)
  let ?j = "(m + i) mod META_BUCKETS"
  show ?case
  proof (cases "i < META_BUCKETS")
    case False
    with "1.prems" show ?thesis by (subst (asm) walk_mbuckets.simps) auto
  next
    case True
    then have j: "?j < META_BUCKETS" by simp
    show ?thesis
    proof (cases "\<not> mb_in_use (mb_arr s ?j) \<and> \<not> mb_lock (mb_arr s ?j)")
      case free: True
      then have "walk_mbuckets m i s = (int ?j, upd_mb ?j (\<lambda>mb. mb\<lparr>mb_in_use := True\<rparr>) s)"
        using True by (subst walk_mbuckets.simps) (simp add: claim_mbucket_eq upd_mb_def Let_def)
      with "1.prems" free j show ?thesis by auto
    next
      case busy: False
      then have "walk_mbuckets m i s = walk_mbuckets m (Suc i) s"
        using True by (subst walk_mbuckets.simps) (auto simp: claim_mbucket_eq Let_def)
      with "1.prems" have rest: "walk_mbuckets m (Suc i) s = (r, s')" by simp
      have split_k: "i \<le> k \<longleftrightarrow> k = i \<or> Suc i \<le> k" for k by auto
      from "1.IH" [OF True refl, of False "mb_arr s ?j" s r s'] rest busy show ?thesis
        by (auto simp: claim_mbucket_eq split_k)
    qed
  qed
qed

text \<open>An allocation takes a bucket that was not in use, and fails only when all are.\<close>

lemma allocate_mbucket_result:
  assumes "allocate_mbucket s = (r, s')" "\<forall>i < META_BUCKETS. \<not> mb_lock (mb_arr s i)"
  shows "r = - 1 \<and> s' = s\<lparr>rand_pos := Suc (rand_pos s)\<rparr> \<and> (\<forall>i < META_BUCKETS. mb_in_use (mb_arr s i)) \<or>
    (\<exists>j < META_BUCKETS. r = int j \<and> \<not> mb_in_use (mb_arr s j) \<and>
       s' = upd_mb j (\<lambda>mb. mb\<lparr>mb_in_use := True\<rparr>) (s\<lparr>rand_pos := Suc (rand_pos s)\<rparr>))"
proof -
  let ?m = "rand_src s (rand_pos s) mod 2 ^ 31 mod META_BUCKETS"
  let ?s = "s\<lparr>rand_pos := Suc (rand_pos s)\<rparr>"
  have w: "walk_mbuckets ?m 0 ?s = (r, s')"
    using assms(1) by (simp add: allocate_mbucket_def next_rand_def)
  have all: "mb_in_use (mb_arr s i)"
    if "\<forall>k < META_BUCKETS. mb_in_use (mb_arr s ((?m + k) mod META_BUCKETS))" "i < META_BUCKETS" for i
    using rotation_onto [OF that(2), of ?m] that(1) by metis
  from walk_mbuckets_result [OF w] show ?thesis
  proof (elim disjE conjE)
    assume "r = - 1" "s' = ?s" and k: "\<forall>k. 0 \<le> k \<and> k < META_BUCKETS \<longrightarrow>
      mb_in_use (mb_arr ?s ((?m + k) mod META_BUCKETS)) \<or> mb_lock (mb_arr ?s ((?m + k) mod META_BUCKETS))"
    have "\<forall>k < META_BUCKETS. mb_in_use (mb_arr s ((?m + k) mod META_BUCKETS))"
      using k assms(2) by (auto simp: ufs_config)
    with all \<open>r = - 1\<close> \<open>s' = ?s\<close> show ?thesis by blast
  next
    assume "\<exists>j < META_BUCKETS. r = int j \<and> \<not> mb_in_use (mb_arr ?s j) \<and>
      s' = upd_mb j (\<lambda>mb. mb\<lparr>mb_in_use := True\<rparr>) ?s"
    then show ?thesis by simp
  qed
qed

lemma hashinfo_lock_same:
  "hi_lock r = l \<Longrightarrow> r\<lparr>hi_lock := l\<rparr> = r" "hi_lock r = l \<Longrightarrow> r\<lparr>first_ix := x, hi_lock := l\<rparr> = r\<lparr>first_ix := x\<rparr>"
  by (cases r; simp)+

text \<open>Work done on a locked row, seen from outside the lock.\<close>

lemma locked_relink:
  assumes "hi_lock (hash_table s h) = init_urwlock"
  shows "row_up_write h (relink h prev ix (upd_mb j f (upd_hi h (\<lambda>r. r\<lparr>hi_lock := write_locked\<rparr>) s))) =
    relink h prev ix (upd_mb j f s)"
  using assms
  by (cases prev) (simp_all add: relink_def row_up_write_def upd_hi_def upd_mb_def hashinfo_lock_same)

lemma locked_nothing:
  assumes "hi_lock (hash_table s h) = init_urwlock"
  shows "row_up_write h (upd_hi h (\<lambda>r. r\<lparr>hi_lock := write_locked\<rparr>) s) = s"
  using upd_hi_lock_same [OF assms] by (simp add: row_up_write_def)

lemma rand_pos_upd_hi:
  "(upd_hi h f s)\<lparr>rand_pos := k\<rparr> = upd_hi h f (s\<lparr>rand_pos := k\<rparr>)"
  by (simp add: upd_hi_def)

lemma relink_upd:
  "upd_hi h (\<lambda>r. r\<lparr>first_ix := ix\<rparr>) s = relink h None ix s"
  "upd_mb p (\<lambda>mb. mb\<lparr>mb_next_ix := ix\<rparr>) s = relink h (Some p) ix s"
  by (simp_all add: relink_def)

text \<open>The state after a successful creation: bucket \<open>j\<close> marked in use and linked behind the row.\<close>

definition created :: "nat \<Rightarrow> nat list \<Rightarrow> nat \<Rightarrow> 'z mstate_scheme \<Rightarrow> 'z mstate_scheme" where
  "created h xs j s = relink h (last_opt xs) (int j)
     (upd_mb j (\<lambda>mb. mb\<lparr>mb_in_use := True\<rparr>) (s\<lparr>rand_pos := Suc (rand_pos s)\<rparr>))"

lemma strict_create_cases:
  assumes R: "rows_ok s R" and p: "hash p = Inr h" "ok_path p"
  shows "if look s p \<noteq> None then strict_create_mbucket p s = Inr (None, s)
    else (\<exists>j < META_BUCKETS. \<not> mb_in_use (mb_arr s j) \<and>
            strict_create_mbucket p s = Inr (Some j, created h (R h) j s)) \<or>
         (\<forall>i < META_BUCKETS. mb_in_use (mb_arr s i)) \<and>
            strict_create_mbucket p s = Inr (None, s\<lparr>rand_pos := Suc (rand_pos s)\<rparr>)"
proof -
  let ?xs = "R h"
  let ?l = "upd_hi h (\<lambda>r. r\<lparr>hi_lock := write_locked\<rparr>) s"
  have h: "h < HASH_TABLE_SIZE" using p(1) by (rule hash_range)
  with R have row: "row_ok s h ?xs" and lock: "hi_lock (hash_table s h) = init_urwlock"
    and unlocked: "\<forall>i < META_BUCKETS. \<not> mb_lock (mb_arr ?l i)"
    by (auto simp: rows_ok_def)
  note down = row_down_write_free [OF lock]
  have none: "look s p = None \<longleftrightarrow> (\<forall>i \<in> set ?xs. \<not> path_eq p i s)"
    by (rule look_none_iff [OF row p])
  obtain r t where alloc: "allocate_mbucket ?l = (r, t)" by force
  let ?s = "s\<lparr>rand_pos := Suc (rand_pos s)\<rparr>"
  have lock': "hi_lock (hash_table ?s h) = init_urwlock" using lock by simp
  note unlock = locked_relink [OF lock'] locked_nothing [OF lock'] locked_nothing [OF lock]
  from allocate_mbucket_result [OF alloc unlocked] have alloc_cases:
    "r = - 1 \<and> t = upd_hi h (\<lambda>r. r\<lparr>hi_lock := write_locked\<rparr>) ?s \<and> (\<forall>i < META_BUCKETS. mb_in_use (mb_arr s i)) \<or>
     (\<exists>j < META_BUCKETS. r = int j \<and> \<not> mb_in_use (mb_arr s j) \<and>
       t = upd_mb j (\<lambda>mb. mb\<lparr>mb_in_use := True\<rparr>) (upd_hi h (\<lambda>r. r\<lparr>hi_lock := write_locked\<rparr>) ?s))"
    by (simp add: rand_pos_upd_hi)
  show ?thesis
  proof (cases ?xs)
    case Nil
    with row have first: "first_ix (hash_table s h) = - 1" by (simp add: row_ok_def)
    have "strict_create_mbucket p s =
        (if r = - 1 then Inr (None, row_up_write h t)
         else andthen (MB_PTR r) (\<lambda>i. Inr (Some i, row_up_write h (relink h None r t))))"
      using p(1) down first alloc by (simp add: strict_create_mbucket_def relink_def Let_def)
    with alloc_cases none Nil unlock show ?thesis by (auto simp: created_def)
  next
    case (Cons a as)
    with row have first: "first_ix (hash_table s h) = int a" "a < META_BUCKETS"
        and rest: "mlist (mb_arr ?l) (mb_next_ix (mb_arr ?l a)) as"
      by (auto simp: row_ok_def)
    have "length as \<le> META_BUCKETS" using row_ok_length [OF row] Cons by simp
    note scan = scan_row_mlist [OF rest this, of p]
    show ?thesis
    proof (cases "look s p = None")
      case True
      with none have "find (\<lambda>i. path_eq p i s) ?xs = None" by (auto simp: find_None_iff)
      with Cons scan have "scan_row META_BUCKETS p a ?l = Inr (False, last ?xs)" by simp
      then have "strict_create_mbucket p s =
          (if r = - 1 then Inr (None, row_up_write h t)
           else andthen (MB_PTR r) (\<lambda>i. Inr (Some i, row_up_write h (relink h (Some (last ?xs)) r t))))"
        using p(1) down first alloc by (simp add: strict_create_mbucket_def relink_def Let_def)
      with alloc_cases True Cons unlock show ?thesis by (auto simp: created_def last_opt_def)
    next
      case False
      with none have "find (\<lambda>i. path_eq p i s) ?xs \<noteq> None" unfolding find_None_iff by blast
      with scan Cons obtain j where "scan_row META_BUCKETS p a ?l = Inr (True, j)" by auto
      then show ?thesis
        using False p(1) down first unlock by (simp add: strict_create_mbucket_def)
    qed
  qed
qed

text \<open>Once the caller has written the path into the new bucket, the row is a row again and the
  map has one more entry.\<close>

lemma created_rows_ok:
  assumes R: "rows_ok s R" and p: "hash p = Inr h" "ok_path p" "look s p = None"
    and j: "j < META_BUCKETS" "\<not> mb_in_use (mb_arr s j)"
    and g: "\<And>mb. mb_path (g mb) = p \<and> mb_in_use (g mb) = mb_in_use mb \<and>
        mb_next_ix (g mb) = mb_next_ix mb \<and> mb_lock (g mb) = mb_lock mb"
  shows "rows_ok (upd_mb j g (created h (R h) j s)) (R(h := R h @ [j]))"
proof -
  let ?xs = "R h"
  define t where t: "t = upd_mb j g (created h (R h) j s)"
  have h: "h < HASH_TABLE_SIZE" using p(1) by (rule hash_range)
  have rows: "\<And>k. k < HASH_TABLE_SIZE \<Longrightarrow> row_ok s k (R k)"
    and locks: "\<And>k. k < HASH_TABLE_SIZE \<Longrightarrow> hi_lock (hash_table s k) = init_urwlock"
    and mbs: "\<And>i. i < META_BUCKETS \<Longrightarrow> \<not> mb_lock (mb_arr s i) \<and>
        (\<not> mb_in_use (mb_arr s i) \<longrightarrow> mb_next_ix (mb_arr s i) = - 1)"
    using R by (auto simp: rows_ok_def)
  have j_new: "j \<notin> set (R k)" if "k < HASH_TABLE_SIZE" for k
    using rows [OF that] j(2) by (auto simp: row_ok_def)
  note row = rows [OF h]
  let ?u = "upd_mb j (\<lambda>mb. mb\<lparr>mb_in_use := True\<rparr>) (s\<lparr>rand_pos := Suc (rand_pos s)\<rparr>)"
  have seg: "mseg (mb_arr ?u) (first_ix (hash_table ?u h)) ?xs (- 1)"
    using row j_new [OF h] by (simp add: row_ok_def)
  have tail: "mlist (mb_arr ?u) (int j) [j]" using mbs [OF j(1)] j by simp
  from relink_mlist [OF seg row_ok_distinct [OF row] tail] j_new [OF h]
  have lst: "mlist (mb_arr (created h ?xs j s)) (first_ix (hash_table (created h ?xs j s) h)) (?xs @ [j])"
    by (simp add: created_def)
  then have lst': "mlist (mb_arr t) (first_ix (hash_table t h)) (?xs @ [j])"
    using g unfolding t by (subst mseg_cong [of _ _ "mb_arr (created h ?xs j s)"]) auto
  have mbt: "mb_arr t i = (if i = j then g (mb_arr (created h ?xs j s) j)
      else if ?xs \<noteq> [] \<and> i = last ?xs then (mb_arr s i)\<lparr>mb_next_ix := int j\<rparr> else mb_arr s i)" for i
    by (simp add: t created_def relink_mb_arr)
  have fields: "mb_in_use (mb_arr t i) = (i = j \<or> mb_in_use (mb_arr s i))"
      "mb_path (mb_arr t i) = (if i = j then p else mb_path (mb_arr s i))"
      "mb_lock (mb_arr t i) = mb_lock (mb_arr s i)" for i
    by (auto simp: mbt g created_def relink_mb_arr)
  have paths: "map (\<lambda>i. mb_path (mb_arr t i)) ?xs = map (\<lambda>i. mb_path (mb_arr s i)) ?xs"
    by (rule map_cong [OF refl], subst fields(2)) (use j_new [OF h] in auto)
  have fresh: "p \<notin> (\<lambda>i. mb_path (mb_arr s i)) ` set ?xs"
    using look_iff [OF row p(1,2)] p(3) by auto
  have "distinct (map (\<lambda>i. mb_path (mb_arr t i)) (?xs @ [j]))"
    unfolding map_append paths using row fresh fields(2) [of j] by (simp add: row_ok_def)
  then have "row_ok t h (?xs @ [j])"
    using lst' row j_new [OF h] p(1,2) by (simp add: row_ok_def fields ok_path_def)
  moreover have "row_ok t k (R k)" if "k < HASH_TABLE_SIZE" "k \<noteq> h" for k
  proof (rule row_ok_frame [OF rows [OF that(1)]])
    show "first_ix (hash_table t k) = first_ix (hash_table s k)"
      using that(2) by (simp add: t created_def relink_hash_table)
    fix i assume i: "i \<in> set (R k)"
    have "?xs \<noteq> [] \<Longrightarrow> i \<noteq> last ?xs"
      using rows_disjoint [OF rows [OF that(1)] row that(2)] i by auto
    then show "mb_next_ix (mb_arr t i) = mb_next_ix (mb_arr s i) \<and>
        mb_in_use (mb_arr t i) = mb_in_use (mb_arr s i) \<and> mb_path (mb_arr t i) = mb_path (mb_arr s i)"
      using j_new [OF that(1)] i by (auto simp: mbt)
  qed
  moreover have "\<not> mb_in_use (mb_arr t i) \<longrightarrow> mb_next_ix (mb_arr t i) = - 1"
    if "i < META_BUCKETS" for i
  proof
    assume "\<not> mb_in_use (mb_arr t i)"
    then have i: "i \<noteq> j" "\<not> mb_in_use (mb_arr s i)" by (simp_all add: fields)
    with row have "?xs \<noteq> [] \<Longrightarrow> i \<noteq> last ?xs" by (auto simp: row_ok_def)
    with i mbs [OF that] show "mb_next_ix (mb_arr t i) = - 1" by (auto simp: mbt)
  qed
  moreover have "hi_lock (hash_table t k) = init_urwlock" if "k < HASH_TABLE_SIZE" for k
    using locks [OF that] by (simp add: t created_def relink_hash_table)
  ultimately have "rows_ok t (R(h := R h @ [j]))" using mbs by (simp add: rows_ok_def fields)
  then show ?thesis by (simp add: t)
qed

text \<open>The map after a change of the rows, when one path is added or removed.\<close>

lemma look_upd:
  assumes "rows_ok s R" "rows_ok s' R'" "hash p = Inr h" "ok_path p"
    and other: "\<And>k i q. k < HASH_TABLE_SIZE \<Longrightarrow> q \<noteq> p \<Longrightarrow>
      i \<in> set (R' k) \<and> mb_path (mb_arr s' i) = q \<longleftrightarrow> i \<in> set (R k) \<and> mb_path (mb_arr s i) = q"
    and at_p: "\<And>i. i \<in> set (R' h) \<and> mb_path (mb_arr s' i) = p \<longleftrightarrow> v = Some i"
  shows "look s' = (look s)(p := v)"
proof
  fix q
  show "look s' q = ((look s)(p := v)) q"
  proof (cases "ok_path q")
    case False
    with assms(4) show ?thesis by (auto simp: look_not_ok)
  next
    case True
    then obtain k where k: "hash q = Inr k" "k < HASH_TABLE_SIZE" using ok_path_hash by blast
    with assms(1,2) have rows: "row_ok s k (R k)" "row_ok s' k (R' k)" by (auto simp: rows_ok_def)
    show ?thesis
    proof (rule option_eqI)
      fix i
      show "look s' q = Some i \<longleftrightarrow> ((look s)(p := v)) q = Some i"
        using look_iff [OF rows(1) k(1) True, of i] look_iff [OF rows(2) k(1) True, of i]
          other [OF k(2), of q i] at_p [of i] k(1) assms(3)
        by (cases "q = p") auto
    qed
  qed
qed

lemma created_look:
  assumes R: "rows_ok s R" and p: "hash p = Inr h" "ok_path p" "look s p = None"
    and j: "j < META_BUCKETS" "\<not> mb_in_use (mb_arr s j)"
    and g: "\<And>mb. mb_path (g mb) = p \<and> mb_in_use (g mb) = mb_in_use mb \<and>
        mb_next_ix (g mb) = mb_next_ix mb \<and> mb_lock (g mb) = mb_lock mb"
  shows "look (upd_mb j g (created h (R h) j s)) = (look s)(p \<mapsto> j)"
proof (rule look_upd [OF R created_rows_ok [OF R p j g] p(1,2)])
  let ?t = "upd_mb j g (created h (R h) j s)"
  have path: "mb_path (mb_arr ?t i) = (if i = j then p else mb_path (mb_arr s i))" for i
    by (simp add: g created_def relink_mb_arr)
  have h: "h < HASH_TABLE_SIZE" using p(1) by (rule hash_range)
  have j_new: "j \<notin> set (R k)" if "k < HASH_TABLE_SIZE" for k
    using R that j(2) by (auto simp: rows_ok_def row_ok_def)
  have row: "row_ok s h (R h)" using R h by (simp add: rows_ok_def)
  show "i \<in> set ((R(h := R h @ [j])) k) \<and> mb_path (mb_arr ?t i) = q \<longleftrightarrow>
      i \<in> set (R k) \<and> mb_path (mb_arr s i) = q" if "k < HASH_TABLE_SIZE" "q \<noteq> p" for k i q
    unfolding path using j_new [OF that(1)] that(2) by auto
  show "i \<in> set ((R(h := R h @ [j])) h) \<and> mb_path (mb_arr ?t i) = p \<longleftrightarrow> Some j = Some i" for i
    unfolding path using look_iff [OF row p(1,2), of i] p(3) by auto
qed

section \<open>Removal\<close>

text \<open>The state after bucket \<open>x\<close>, behind \<open>ys\<close> in its row, is taken out and freed.\<close>

definition freed :: "meta_bucket \<Rightarrow> meta_bucket" where
  "freed mb = mb\<lparr>mb_in_use := False, mb_next_ix := - 1, first_dbucket := - 1,
                 last_dbucket := - 1, last_db_offset := 0\<rparr>"

definition unlinked :: "nat \<Rightarrow> nat list \<Rightarrow> nat \<Rightarrow> 'z mstate_scheme \<Rightarrow> 'z mstate_scheme" where
  "unlinked h ys x s = upd_mb x freed (relink h (last_opt ys) (mb_next_ix (mb_arr s x)) s)"

lemma locked_unlink:
  assumes "hi_lock (hash_table s h) = init_urwlock"
  shows "row_up_write h (upd_mb j f (relink h prev ix (upd_hi h (\<lambda>r. r\<lparr>hi_lock := write_locked\<rparr>) s))) =
    upd_mb j f (relink h prev ix s)"
  using assms
  by (cases prev) (simp_all add: relink_def row_up_write_def upd_hi_def upd_mb_def hashinfo_lock_same)

lemma row_split:
  assumes "row_ok s h xs" "hash p = Inr h" "ok_path p" "look s p = Some x"
  obtains ys zs where "xs = ys @ x # zs" "\<forall>y \<in> set ys. \<not> path_eq p y s" "path_eq p x s"
    "length ys \<le> META_BUCKETS"
proof -
  from look_iff [OF assms(1-3)] assms(4) have x: "x \<in> set xs" "mb_path (mb_arr s x) = p" by auto
  then obtain ys zs where xs: "xs = ys @ x # zs" by (meson split_list)
  with assms(1) x(2) have "p \<notin> (\<lambda>i. mb_path (mb_arr s i)) ` set ys" by (simp add: row_ok_def)
  then have "mb_path (mb_arr s y) \<noteq> p" if "y \<in> set ys" for y using that by auto
  moreover have "length ys \<le> META_BUCKETS" using row_ok_length [OF assms(1)] xs by simp
  ultimately show thesis
    using that [OF xs] path_eq_row [OF assms(1,3)] x xs by auto
qed

lemma release_meta_bucket_cases:
  assumes R: "rows_ok s R" and p: "hash p = Inr h" "ok_path p"
  shows "look s p = None \<Longrightarrow> release_meta_bucket p s = Inr (- 1, s)"
    and "R h = ys @ x # zs \<Longrightarrow> \<forall>y \<in> set ys. \<not> path_eq p y s \<Longrightarrow> path_eq p x s \<Longrightarrow>
      release_meta_bucket p s = Inr (0, unlinked h ys x s)"
proof -
  let ?l = "upd_hi h (\<lambda>r. r\<lparr>hi_lock := write_locked\<rparr>) s"
  have h: "h < HASH_TABLE_SIZE" using p(1) by (rule hash_range)
  with R have row: "row_ok s h (R h)" and lock: "hi_lock (hash_table s h) = init_urwlock"
    by (auto simp: rows_ok_def)
  have lst: "mlist (mb_arr ?l) (first_ix (hash_table ?l h)) (R h)" using row by (simp add: row_ok_def)
  note len = row_ok_length [OF row]
  show "release_meta_bucket p s = Inr (- 1, s)" if "look s p = None"
  proof -
    have "get_mb_and_prev p ?l = Inr (None, last_opt (R h))"
      using get_mb_and_prev_none [OF p(1) lst len] look_none_iff [OF row p] that by simp
    then show ?thesis
      using p(1) row_down_write_free [OF lock] locked_nothing [OF lock]
      by (simp add: release_meta_bucket_def)
  qed
  show "release_meta_bucket p s = Inr (0, unlinked h ys x s)"
    if xs: "R h = ys @ x # zs" and "\<forall>y \<in> set ys. \<not> path_eq p y s" "path_eq p x s"
  proof -
    have found: "get_mb_and_prev p ?l = Inr (Some x, last_opt ys)"
      using get_mb_and_prev_some [OF p(1) lst [unfolded xs]] len that by simp
    have "x < META_BUCKETS" using row xs mseg_in_range [of _ _ "R h" _ x] by (auto simp: row_ok_def)
    then have unlocked: "\<not> mb_lock (mb_arr s x)" using R by (simp add: rows_ok_def)
    have freed: "(\<lambda>mb. mb\<lparr>mb_next_ix := - 1, mb_in_use := False, first_dbucket := nil_ix,
        last_dbucket := nil_ix, last_db_offset := 0\<rparr>) = freed"
      by (rule ext) (simp add: freed_def)
    show ?thesis
      using p(1) row_down_write_free [OF lock] found locked_unlink [OF lock] unlocked
      by (auto simp: release_meta_bucket_def unlinked_def Let_def relink_mb_arr freed)
  qed
qed

lemma unlinked_arr:
  "mb_arr (unlinked h ys x s) i =
     (if i = x then freed (if ys \<noteq> [] \<and> x = last ys then (mb_arr s x)\<lparr>mb_next_ix := mb_next_ix (mb_arr s x)\<rparr>
                           else mb_arr s x)
      else if ys \<noteq> [] \<and> i = last ys then (mb_arr s i)\<lparr>mb_next_ix := mb_next_ix (mb_arr s x)\<rparr>
      else mb_arr s i)"
  by (simp add: unlinked_def relink_mb_arr)

lemma unlinked_fields:
  "mb_path (mb_arr (unlinked h ys x s) i) = mb_path (mb_arr s i)"
  "mb_lock (mb_arr (unlinked h ys x s) i) = mb_lock (mb_arr s i)"
  "mb_in_use (mb_arr (unlinked h ys x s) i) = (i \<noteq> x \<and> mb_in_use (mb_arr s i))"
  by (simp_all add: unlinked_arr freed_def)

lemma unlinked_other:
  "i \<noteq> x \<Longrightarrow> mb_s (mb_arr (unlinked h ys x s) i) = mb_s (mb_arr s i)"
  "i \<noteq> x \<Longrightarrow> first_dbucket (mb_arr (unlinked h ys x s) i) = first_dbucket (mb_arr s i)"
  "dbs (unlinked h ys x s) = dbs s" "mstate.more (unlinked h ys x s) = mstate.more s"
  by (simp_all add: unlinked_arr) (simp_all add: unlinked_def)

lemma unlinked_rows_ok:
  assumes R: "rows_ok s R" and h: "h < HASH_TABLE_SIZE" and xs: "R h = ys @ x # zs"
  shows "rows_ok (unlinked h ys x s) (R(h := ys @ zs))"
proof -
  let ?t = "unlinked h ys x s"
  have rows: "\<And>k. k < HASH_TABLE_SIZE \<Longrightarrow> row_ok s k (R k)"
    and locks: "\<And>k. k < HASH_TABLE_SIZE \<Longrightarrow> hi_lock (hash_table s k) = init_urwlock"
    and mbs: "\<And>i. i < META_BUCKETS \<Longrightarrow> \<not> mb_lock (mb_arr s i) \<and>
        (\<not> mb_in_use (mb_arr s i) \<longrightarrow> mb_next_ix (mb_arr s i) = - 1)"
    using R by (auto simp: rows_ok_def)
  note row = rows [OF h]
  have dist: "distinct (ys @ x # zs)" using row_ok_distinct [OF row] xs by simp
  obtain y where "mseg (mb_arr s) (first_ix (hash_table s h)) ys y"
      "mlist (mb_arr s) (mb_next_ix (mb_arr s x)) zs"
    using row xs by (auto simp: row_ok_def mseg_append)
  from relink_mlist [OF this(1) _ this(2)] dist
  have "mlist (mb_arr ?t) (first_ix (hash_table ?t h)) (ys @ zs)"
    by (auto simp: unlinked_def)
  then have "row_ok ?t h (ys @ zs)"
    using row xs dist by (auto simp: row_ok_def unlinked_fields)
  moreover have "row_ok ?t k (R k)" if k: "k < HASH_TABLE_SIZE" "k \<noteq> h" for k
  proof (rule row_ok_frame [OF rows [OF k(1)]])
    show "first_ix (hash_table ?t k) = first_ix (hash_table s k)"
      using k(2) by (simp add: unlinked_def relink_hash_table)
    fix i assume "i \<in> set (R k)"
    then have "i \<notin> set (R h)" using rows_disjoint [OF rows [OF k(1)] row k(2)] by auto
    then show "mb_next_ix (mb_arr ?t i) = mb_next_ix (mb_arr s i) \<and>
        mb_in_use (mb_arr ?t i) = mb_in_use (mb_arr s i) \<and> mb_path (mb_arr ?t i) = mb_path (mb_arr s i)"
      using xs by (auto simp: unlinked_arr)
  qed
  moreover have "\<not> mb_in_use (mb_arr ?t i) \<longrightarrow> mb_next_ix (mb_arr ?t i) = - 1"
    if "i < META_BUCKETS" for i
    using mbs [OF that] row xs by (auto simp: unlinked_arr row_ok_def freed_def)
  moreover have "hi_lock (hash_table ?t k) = init_urwlock" if "k < HASH_TABLE_SIZE" for k
    using locks [OF that] by (simp add: unlinked_def relink_hash_table)
  ultimately show ?thesis using mbs by (simp add: rows_ok_def unlinked_fields)
qed

lemma unlinked_look:
  assumes R: "rows_ok s R" and p: "hash p = Inr h" "ok_path p" and xs: "R h = ys @ x # zs"
    and x: "mb_path (mb_arr s x) = p"
  shows "look (unlinked h ys x s) = (look s)(p := None)"
proof -
  have h: "h < HASH_TABLE_SIZE" using p(1) by (rule hash_range)
  have row: "row_ok s h (R h)" using R h by (simp add: rows_ok_def)
  have uniq: "mb_path (mb_arr s i) \<noteq> p" if "i \<in> set (ys @ zs)" for i
    using row xs x that by (auto simp: row_ok_def image_iff)
  show ?thesis
  proof (rule look_upd [OF R unlinked_rows_ok [OF R h xs] p])
    show "i \<in> set ((R(h := ys @ zs)) k) \<and> mb_path (mb_arr (unlinked h ys x s) i) = q \<longleftrightarrow>
        i \<in> set (R k) \<and> mb_path (mb_arr s i) = q" if "k < HASH_TABLE_SIZE" "q \<noteq> p" for k i q
      using that(2) xs x by (auto simp: unlinked_fields)
    show "i \<in> set ((R(h := ys @ zs)) h) \<and> mb_path (mb_arr (unlinked h ys x s) i) = p \<longleftrightarrow> None = Some i" for i
      using uniq by (auto simp: unlinked_fields)
  qed
qed

lemma release_meta_bucket_state:
  assumes "minv s" "ok_path p" "look s p = Some x"
  obtains h ys where "release_meta_bucket p s = Inr (0, unlinked h ys x s)" "minv (unlinked h ys x s)"
    "look (unlinked h ys x s) = (look s)(p := None)"
proof -
  obtain R h where R: "rows_ok s R" and h: "hash p = Inr h" "h < HASH_TABLE_SIZE"
    using assms(1) ok_path_hash [OF assms(2)] by (auto simp: minv_def)
  have row: "row_ok s h (R h)" using R h by (simp add: rows_ok_def)
  from row_split [OF row h(1) assms(2,3)] obtain ys zs
    where xs: "R h = ys @ x # zs" "\<forall>y \<in> set ys. \<not> path_eq p y s" "path_eq p x s" by metis
  have x: "mb_path (mb_arr s x) = p" using look_iff [OF row h(1) assms(2), of x] assms(3) by simp
  show thesis
  proof (rule that)
    show "release_meta_bucket p s = Inr (0, unlinked h ys x s)"
      by (rule release_meta_bucket_cases(2) [OF R h(1) assms(2) xs])
    show "minv (unlinked h ys x s)" using unlinked_rows_ok [OF R h(2) xs(1)] by (auto simp: minv_def)
    show "look (unlinked h ys x s) = (look s)(p := None)"
      by (rule unlinked_look [OF R h(1) assms(2) xs(1) x])
  qed
qed

lemma release_meta_bucket_missing:
  assumes "minv s" "ok_path p" "look s p = None"
  shows "release_meta_bucket p s = Inr (- 1, s)"
  using assms ok_path_hash [OF assms(2)] release_meta_bucket_cases(1) by (auto simp: minv_def)

lemma release_meta_bucket_law:
  assumes "minv s" "ok_path p"
  shows "\<exists>s'. release_meta_bucket p s = Inr (if look s p = None then - 1 else 0, s') \<and> minv s' \<and>
    look s' = (look s)(p := None) \<and> (\<forall>i. mb_path (mb_arr s' i) = mb_path (mb_arr s i)) \<and>
    (\<forall>i. look s p \<noteq> Some i \<longrightarrow> mb_s (mb_arr s' i) = mb_s (mb_arr s i) \<and>
       first_dbucket (mb_arr s' i) = first_dbucket (mb_arr s i)) \<and>
    dbs s' = dbs s \<and> mstate.more s' = mstate.more s"
proof (cases "look s p")
  case None
  with release_meta_bucket_missing [OF assms] assms(1) show ?thesis by auto
next
  case (Some x)
  from release_meta_bucket_state [OF assms Some] obtain h ys where
    "release_meta_bucket p s = Inr (0, unlinked h ys x s)" "minv (unlinked h ys x s)"
    "look (unlinked h ys x s) = (look s)(p := None)" .
  then show ?thesis using Some by (auto simp: unlinked_fields unlinked_other)
qed

section \<open>Renaming\<close>

text \<open>The state in which bucket \<open>x\<close> has left its old row (where it stood behind \<open>ys\<close>) and stands
  behind \<open>us\<close> in the row of its new path, before \<open>nx\<close>.\<close>

definition moved ::
  "nat \<Rightarrow> nat list \<Rightarrow> nat \<Rightarrow> nat list \<Rightarrow> nat \<Rightarrow> int \<Rightarrow> string \<Rightarrow> 'z mstate_scheme \<Rightarrow> 'z mstate_scheme" where
  "moved ho ys hn us x nx newpath s =
     relink hn (last_opt us) (int x)
       (upd_mb x (\<lambda>mb. mb\<lparr>mb_next_ix := nx\<rparr>)
         (relink ho (last_opt ys) (mb_next_ix (mb_arr s x))
           (upd_mb x (\<lambda>mb. mb\<lparr>mb_path := newpath\<rparr>) s)))"

definition both_locked :: "nat \<Rightarrow> nat \<Rightarrow> 'z mstate_scheme \<Rightarrow> 'z mstate_scheme" where
  "both_locked ho hn s = upd_hi hn (\<lambda>r. r\<lparr>hi_lock := write_locked\<rparr>)
     (upd_hi ho (\<lambda>r. r\<lparr>hi_lock := write_locked\<rparr>) s)"

lemma upd_mb_upd_hi: "upd_mb i f (upd_hi h g s) = upd_hi h g (upd_mb i f s)"
  by (simp add: upd_mb_def upd_hi_def)

lemma hashinfo_upd_swap: "r\<lparr>hi_lock := l, first_ix := x\<rparr> = r\<lparr>first_ix := x, hi_lock := l\<rparr>"
  by (cases r) simp

lemma relink_lock_other:
  "relink h prev ix (upd_hi h' (\<lambda>r. r\<lparr>hi_lock := l\<rparr>) s) = upd_hi h' (\<lambda>r. r\<lparr>hi_lock := l\<rparr>) (relink h prev ix s)"
  by (cases prev; cases "h = h'")
    (simp_all add: relink_def upd_mb_def upd_hi_def fun_upd_twist hashinfo_upd_swap)

lemma unlock_both:
  assumes "ho \<noteq> hn" "hi_lock (hash_table s ho) = init_urwlock" "hi_lock (hash_table s hn) = init_urwlock"
  shows "row_up_write ho (row_up_write hn (both_locked ho hn s)) = s"
proof -
  have twist: "upd_hi ho f (upd_hi hn g u) = upd_hi hn g (upd_hi ho f u)" for f g and u :: "'a mstate_scheme"
    using assms(1) by (simp add: upd_hi_def fun_upd_twist)
  have "row_up_write ho (row_up_write hn (both_locked ho hn s)) =
      upd_hi hn (\<lambda>r. r\<lparr>hi_lock := init_urwlock\<rparr>) (upd_hi ho (\<lambda>r. r\<lparr>hi_lock := init_urwlock\<rparr>) s)"
    by (simp add: row_up_write_def both_locked_def twist)
  also have "\<dots> = s" by (simp add: upd_hi_lock_same assms(2,3))
  finally show ?thesis .
qed

lemma both_locked_ops:
  "upd_mb i f (both_locked ho hn s) = both_locked ho hn (upd_mb i f s)"
  "relink h prev ix (both_locked ho hn s) = both_locked ho hn (relink h prev ix s)"
  "moved ho' ys hn' us x nx newpath (both_locked ho hn s) = both_locked ho hn (moved ho' ys hn' us x nx newpath s)"
  "mb_arr (both_locked ho hn s) = mb_arr s"
  "first_ix (hash_table (both_locked ho hn s) h) = first_ix (hash_table s h)"
  "path_eq p i (both_locked ho hn s) = path_eq p i s"
  by (simp_all add: both_locked_def upd_mb_upd_hi relink_lock_other moved_def path_eq_def)

lemma relink_lock [simp]: "hi_lock (hash_table (relink h prev ix s) k) = hi_lock (hash_table s k)"
  by (rule relink_hash_table(2))

lemma both_down_write:
  assumes "ho \<noteq> hn" "hi_lock (hash_table s ho) = init_urwlock" "hi_lock (hash_table s hn) = init_urwlock"
  shows "andthen (row_down_write ho s) (\<lambda>s. andthen (row_down_write hn s) f) = f (both_locked ho hn s)"
  using assms by (simp add: row_down_write_free both_locked_def)

lemma row_old_ix:
  assumes "mlist (mb_arr s) (first_ix (hash_table s h)) (ys @ x # zs)"
  shows "(case last_opt ys of None \<Rightarrow> first_ix (hash_table s h) | Some p \<Rightarrow> mb_next_ix (mb_arr s p)) = int x"
  using assms by (cases ys rule: rev_cases) (auto simp: mseg_append)

lemma mb_chpath_moves:
  assumes R: "rows_ok s R" and po: "hash old = Inr ho" "ok_path old" and pn: "hash new = Inr hn" "ok_path new"
    and neq: "ho \<noteq> hn"
    and ro: "R ho = ys @ x # zs" "\<forall>y \<in> set ys. \<not> path_eq old y s" "path_eq old x s"
  shows "\<forall>y \<in> set (R hn). \<not> path_eq new y s \<Longrightarrow>
      mb_chpath old new s = Inr (0, moved ho ys hn (R hn) x (- 1) new s)"
    and "R hn = us @ y # vs \<Longrightarrow> \<forall>u \<in> set us. \<not> path_eq new u s \<Longrightarrow> path_eq new y s \<Longrightarrow>
      mb_chpath old new s = Inr (0, upd_mb y freed (moved ho ys hn us x (mb_next_ix (mb_arr s y)) new s))"
proof -
  let ?l = "both_locked ho hn s"
  have h: "ho < HASH_TABLE_SIZE" "hn < HASH_TABLE_SIZE" using po(1) pn(1) by (auto intro: hash_range)
  with R have rows: "row_ok s ho (R ho)" "row_ok s hn (R hn)"
    and lock: "hi_lock (hash_table s ho) = init_urwlock" "hi_lock (hash_table s hn) = init_urwlock"
    by (auto simp: rows_ok_def)
  have lst: "mlist (mb_arr ?l) (first_ix (hash_table ?l ho)) (ys @ x # zs)"
      "mlist (mb_arr ?l) (first_ix (hash_table ?l hn)) (R hn)"
    using rows ro(1) by (simp_all add: row_ok_def both_locked_ops)
  note len = row_ok_length [OF rows(1)] row_ok_length [OF rows(2)]
  have cmp: "\<not> strncmp_eq old new PATH_MAX"
    using po pn neq by (auto simp: strncmp_eq_short ok_path_def)
  have fo: "get_mb_and_prev old ?l = Inr (Some x, last_opt ys)"
    using get_mb_and_prev_some [OF po(1) lst(1)] ro len by (simp add: both_locked_ops)
  have old_ix: "(case last_opt ys of None \<Rightarrow> first_ix (hash_table ?l ho)
      | Some p \<Rightarrow> mb_next_ix (mb_arr ?l p)) = int x"
    by (rule row_old_ix [OF lst(1)])
  have take_new: "take PATH_MAX new = new" using pn(2) by (simp add: ok_path_def)
  have unlock: "row_up_write ho (row_up_write hn (both_locked ho hn u)) = u"
    if "\<And>k. hi_lock (hash_table u k) = hi_lock (hash_table s k)" for u :: "'a mstate_scheme"
    using unlock_both [OF neq, of u] lock by (simp add: that)
  show "mb_chpath old new s = Inr (0, moved ho ys hn (R hn) x (- 1) new s)"
    if none: "\<forall>y \<in> set (R hn). \<not> path_eq new y s"
  proof -
    have fn: "get_mb_and_prev new ?l = Inr (None, last_opt (R hn))"
      using get_mb_and_prev_none [OF pn(1) lst(2) len(2)] none by (simp add: both_locked_ops)
    show ?thesis
      using cmp po(1) pn(1) fo fn old_ix take_new
      by (simp add: mb_chpath_def both_down_write [OF neq lock] Let_def both_locked_ops
          unlock moved_def)
  qed
  show "mb_chpath old new s = Inr (0, upd_mb y freed (moved ho ys hn us x (mb_next_ix (mb_arr s y)) new s))"
    if rn: "R hn = us @ y # vs" "\<forall>u \<in> set us. \<not> path_eq new u s" "path_eq new y s"
  proof -
    have fn: "get_mb_and_prev new ?l = Inr (Some y, last_opt us)"
      using get_mb_and_prev_some [OF pn(1) lst(2) [unfolded rn(1)]] rn len by (simp add: both_locked_ops)
    have "set (R ho) \<inter> set (R hn) = {}" using rows_disjoint rows neq by blast
    then have xy: "x \<noteq> y" "ys \<noteq> [] \<Longrightarrow> last ys \<noteq> y" using ro rn by auto
    have ny: "mb_next_ix (mb_arr (relink ho (last_opt ys) (mb_next_ix (mb_arr s x))
        (upd_mb x (\<lambda>mb. mb\<lparr>mb_path := new\<rparr>) s)) y) = mb_next_ix (mb_arr s y)"
      using xy by (auto simp: relink_mb_arr)
    have "y < META_BUCKETS" using rows(2) rn mseg_in_range [of _ _ "R hn" _ y] by (auto simp: row_ok_def)
    then have ly: "\<not> mb_lock (mb_arr (moved ho ys hn us x (mb_next_ix (mb_arr s y)) new s) y)"
      using R xy by (auto simp: rows_ok_def moved_def relink_mb_arr)
    have freed: "(\<lambda>mb. mb\<lparr>mb_in_use := False, mb_next_ix := - 1, first_dbucket := nil_ix,
        last_dbucket := nil_ix, last_db_offset := 0\<rparr>) = freed"
      by (rule ext) (simp add: freed_def)
    show ?thesis
      using cmp po(1) pn(1) fo fn old_ix take_new ny xy(1) ly
      by (simp add: mb_chpath_def both_down_write [OF neq lock] Let_def both_locked_ops freed
          unlock moved_def)
  qed
qed

text \<open>Both outcomes at once: \<open>es\<close> holds the bucket the move replaces, if there is one.\<close>

definition chpath_state ::
  "nat \<Rightarrow> nat list \<Rightarrow> nat \<Rightarrow> nat list \<Rightarrow> nat list \<Rightarrow> nat \<Rightarrow> int \<Rightarrow> string \<Rightarrow> 'z mstate_scheme \<Rightarrow> 'z mstate_scheme" where
  "chpath_state ho ys hn us es x nx newpath s =
     foldr (\<lambda>y. upd_mb y freed) es (moved ho ys hn us x nx newpath s)"

lemma foldr_freed:
  "mb_arr (foldr (\<lambda>y. upd_mb y freed) es u) i = (if i \<in> set es then freed (mb_arr u i) else mb_arr u i)"
  "hash_table (foldr (\<lambda>y. upd_mb y freed) es u) = hash_table u"
  "dbs (foldr (\<lambda>y. upd_mb y freed) es u) = dbs u"
  "mstate.more (foldr (\<lambda>y. upd_mb y freed) es u) = mstate.more u"
  by (induction es) (auto simp: freed_def)

lemma chpath_fields:
  assumes "x \<notin> set es"
  shows "mb_path (mb_arr (chpath_state ho ys hn us es x nx new s) i) = (if i = x then new else mb_path (mb_arr s i))"
    "mb_lock (mb_arr (chpath_state ho ys hn us es x nx new s) i) = mb_lock (mb_arr s i)"
    "mb_in_use (mb_arr (chpath_state ho ys hn us es x nx new s) i) = (mb_in_use (mb_arr s i) \<and> i \<notin> set es)"
    "mb_s (mb_arr (chpath_state ho ys hn us es x nx new s) i) = mb_s (mb_arr s i)"
    "i \<notin> set es \<Longrightarrow> first_dbucket (mb_arr (chpath_state ho ys hn us es x nx new s) i) = first_dbucket (mb_arr s i)"
    "dbs (chpath_state ho ys hn us es x nx new s) = dbs s"
    "mstate.more (chpath_state ho ys hn us es x nx new s) = mstate.more s"
    "hi_lock (hash_table (chpath_state ho ys hn us es x nx new s) k) = hi_lock (hash_table s k)"
  using assms
  by (auto simp: chpath_state_def foldr_freed moved_def relink_mb_arr freed_def)

lemma chpath_next_frame:
  assumes "i \<notin> set es" "i \<noteq> x" "ys \<noteq> [] \<Longrightarrow> i \<noteq> last ys" "us \<noteq> [] \<Longrightarrow> i \<noteq> last us"
  shows "mb_next_ix (mb_arr (chpath_state ho ys hn us es x nx new s) i) = mb_next_ix (mb_arr s i)"
  using assms by (auto simp: chpath_state_def foldr_freed moved_def relink_mb_arr)

lemma chpath_lists:
  fixes new :: string
  assumes ro: "row_ok s ho (ys @ x # zs)" and rn: "row_ok s hn (us @ es @ vs)" and neq: "ho \<noteq> hn"
    and nx: "mlist (mb_arr s) nx vs"
  defines "t \<equiv> chpath_state ho ys hn us es x nx new s"
  shows "mlist (mb_arr t) (first_ix (hash_table t ho)) (ys @ zs)"
    "mlist (mb_arr t) (first_ix (hash_table t hn)) (us @ x # vs)"
proof -
  have disj: "set (ys @ x # zs) \<inter> set (us @ es @ vs) = {}" by (rule rows_disjoint [OF ro rn neq])
  have dist: "distinct (ys @ x # zs)" "distinct (us @ es @ vs)"
    by (rule row_ok_distinct [OF ro], rule row_ok_distinct [OF rn])
  have x: "x < META_BUCKETS" using ro by (auto simp: row_ok_def mseg_append)
  let ?s1 = "upd_mb x (\<lambda>mb. mb\<lparr>mb_path := new\<rparr>) s"
  let ?s2 = "relink ho (last_opt ys) (mb_next_ix (mb_arr s x)) ?s1"
  let ?s3 = "upd_mb x (\<lambda>mb. mb\<lparr>mb_next_ix := nx\<rparr>) ?s2"
  let ?s4 = "relink hn (last_opt us) (int x) ?s3"
  obtain w where w: "mseg (mb_arr ?s1) (first_ix (hash_table ?s1 ho)) ys w"
      "mlist (mb_arr ?s1) (mb_next_ix (mb_arr s x)) zs"
    using ro dist by (auto simp: row_ok_def mseg_append)
  have "mlist (mb_arr ?s2) (first_ix (hash_table ?s2 ho)) (ys @ zs)"
    using relink_mlist [OF w(1) _ w(2)] dist by auto
  moreover have "first_ix (hash_table t ho) = first_ix (hash_table ?s2 ho)"
    using neq by (simp add: t_def chpath_state_def foldr_freed moved_def relink_hash_table)
  moreover have "mb_next_ix (mb_arr t i) = mb_next_ix (mb_arr ?s2 i)" if "i \<in> set (ys @ zs)" for i
  proof -
    have "i \<noteq> x" "i \<notin> set es" "us \<noteq> [] \<Longrightarrow> i \<noteq> last us"
      using that disj dist last_in_set [of us] by auto
    then show ?thesis by (auto simp: t_def chpath_state_def foldr_freed moved_def relink_mb_arr)
  qed
  ultimately show "mlist (mb_arr t) (first_ix (hash_table t ho)) (ys @ zs)"
    by (subst mseg_cong [of _ _ "mb_arr ?s2"]) auto
  have same: "mb_next_ix (mb_arr ?s3 i) = mb_next_ix (mb_arr s i)" if "i \<in> set (us @ es @ vs)" for i
  proof -
    have "i \<noteq> x" "ys \<noteq> [] \<Longrightarrow> i \<noteq> last ys"
      using that disj by (auto, (metis IntI UnI1 UnI2 empty_iff last_in_set)+)
    then show ?thesis by (auto simp: relink_mb_arr)
  qed
  obtain v where "mseg (mb_arr s) (first_ix (hash_table s hn)) us v"
    using rn by (auto simp: row_ok_def mseg_append)
  then have seg: "mseg (mb_arr ?s3) (first_ix (hash_table ?s3 hn)) us v"
    using same neq by (subst mseg_cong [of _ _ "mb_arr s"]) (auto simp: relink_hash_table)
  have "mlist (mb_arr ?s3) nx vs"
    using nx same by (subst mseg_cong [of _ _ "mb_arr s"]) auto
  then have tail: "mlist (mb_arr ?s3) (int x) (x # vs)" using x by simp
  have "mlist (mb_arr ?s4) (first_ix (hash_table ?s4 hn)) (us @ x # vs)"
    using relink_mlist [OF seg _ tail] dist disj by auto
  moreover have "mb_next_ix (mb_arr t i) = mb_next_ix (mb_arr ?s4 i)" if "i \<in> set (us @ x # vs)" for i
    using that disj dist by (auto simp: t_def chpath_state_def foldr_freed moved_def)
  ultimately show "mlist (mb_arr t) (first_ix (hash_table t hn)) (us @ x # vs)"
    by (subst mseg_cong [of _ _ "mb_arr ?s4"])
      (auto simp: t_def chpath_state_def foldr_freed moved_def)
qed

lemma chpath_rows_ok:
  assumes R: "rows_ok s R" and hs: "ho < HASH_TABLE_SIZE" "hn < HASH_TABLE_SIZE" "ho \<noteq> hn"
    and pn: "hash new = Inr hn" "ok_path new"
    and ro: "R ho = ys @ x # zs" and rn: "R hn = us @ es @ vs" and nx: "mlist (mb_arr s) nx vs"
    and gone: "\<And>i. i \<in> set us \<union> set vs \<Longrightarrow> mb_path (mb_arr s i) \<noteq> new"
  shows "rows_ok (chpath_state ho ys hn us es x nx new s) (R(ho := ys @ zs, hn := us @ x # vs))"
proof -
  define t where t: "t = chpath_state ho ys hn us es x nx new s"
  have rows: "\<And>k. k < HASH_TABLE_SIZE \<Longrightarrow> row_ok s k (R k)"
    and locks: "\<And>k. k < HASH_TABLE_SIZE \<Longrightarrow> hi_lock (hash_table s k) = init_urwlock"
    and mbs: "\<And>i. i < META_BUCKETS \<Longrightarrow> \<not> mb_lock (mb_arr s i) \<and>
        (\<not> mb_in_use (mb_arr s i) \<longrightarrow> mb_next_ix (mb_arr s i) = - 1)"
    using R by (auto simp: rows_ok_def)
  have row: "row_ok s ho (ys @ x # zs)" "row_ok s hn (us @ es @ vs)"
    using rows [OF hs(1)] rows [OF hs(2)] ro rn by simp_all
  note disj = rows_disjoint [OF row hs(3)]
  have x_es: "x \<notin> set es" using disj by auto
  note fields = chpath_fields [where ho = ho and ys = ys and hn = hn and us = us and nx = nx
      and new = new and s = s, OF x_es, folded t]
  note lists = chpath_lists [OF row hs(3) nx, of new, folded t]
  have dist: "distinct (ys @ x # zs)" "distinct (us @ es @ vs)"
    by (rule row_ok_distinct [OF row(1)], rule row_ok_distinct [OF row(2)])
  have next_frame: "mb_next_ix (mb_arr t i) = mb_next_ix (mb_arr s i)"
    if "i \<notin> set (ys @ x # zs)" "i \<notin> set (us @ es @ vs)" for i
    unfolding t using that by (intro chpath_next_frame) (auto dest: last_in_set)
  have keep: "map (\<lambda>i. mb_path (mb_arr t i)) ws = map (\<lambda>i. mb_path (mb_arr s i)) ws"
    if "x \<notin> set ws" for ws
    using that by (auto simp: fields)
  have "row_ok t ho (ys @ zs)"
    unfolding row_ok_def
  proof (intro conjI)
    show "distinct (map (\<lambda>i. mb_path (mb_arr t i)) (ys @ zs))"
      using row(1) dist(1) by (subst keep) (auto simp: row_ok_def)
    show "\<forall>i\<in>set (ys @ zs). mb_in_use (mb_arr t i) \<and> hash (mb_path (mb_arr t i)) = Inr ho \<and>
        length (mb_path (mb_arr t i)) \<le> PATH_MAX"
    proof
      fix i assume i: "i \<in> set (ys @ zs)"
      with dist(1) disj have "i \<noteq> x" "i \<notin> set es" by auto
      with i row(1) show "mb_in_use (mb_arr t i) \<and> hash (mb_path (mb_arr t i)) = Inr ho \<and>
          length (mb_path (mb_arr t i)) \<le> PATH_MAX"
        by (auto simp: row_ok_def fields)
    qed
  qed (rule lists(1))
  moreover have "row_ok t hn (us @ x # vs)"
    unfolding row_ok_def
  proof (intro conjI)
    have x: "x \<notin> set us" "x \<notin> set vs" using disj by auto
    have "mb_path (mb_arr t x) = new" by (simp add: fields)
    moreover have "distinct (map (\<lambda>i. mb_path (mb_arr s i)) us @ new # map (\<lambda>i. mb_path (mb_arr s i)) vs)"
      using row(2) gone by (auto simp: row_ok_def)
    ultimately show "distinct (map (\<lambda>i. mb_path (mb_arr t i)) (us @ x # vs))"
      unfolding map_append list.map keep [OF x(1)] keep [OF x(2)] by simp
    show "\<forall>i\<in>set (us @ x # vs). mb_in_use (mb_arr t i) \<and> hash (mb_path (mb_arr t i)) = Inr hn \<and>
        length (mb_path (mb_arr t i)) \<le> PATH_MAX"
    proof
      fix i assume i: "i \<in> set (us @ x # vs)"
      show "mb_in_use (mb_arr t i) \<and> hash (mb_path (mb_arr t i)) = Inr hn \<and>
          length (mb_path (mb_arr t i)) \<le> PATH_MAX"
      proof (cases "i = x")
        case True
        with pn x_es row(1) show ?thesis by (auto simp: row_ok_def fields ok_path_def)
      next
        case False
        with i dist(2) have "i \<notin> set es" "i \<in> set us \<union> set vs" by auto
        with False row(2) show ?thesis by (auto simp: row_ok_def fields)
      qed
    qed
  qed (rule lists(2))
  moreover have "row_ok t k (R k)" if k: "k < HASH_TABLE_SIZE" "k \<noteq> ho" "k \<noteq> hn" for k
  proof (rule row_ok_frame [OF rows [OF k(1)]])
    show "first_ix (hash_table t k) = first_ix (hash_table s k)"
      using k by (simp add: t chpath_state_def foldr_freed moved_def relink_hash_table)
    fix i assume "i \<in> set (R k)"
    then have "i \<notin> set (ys @ x # zs)" "i \<notin> set (us @ es @ vs)"
      using rows_disjoint [OF rows [OF k(1)] row(1) k(2)] rows_disjoint [OF rows [OF k(1)] row(2) k(3)]
      by auto
    then show "mb_next_ix (mb_arr t i) = mb_next_ix (mb_arr s i) \<and>
        mb_in_use (mb_arr t i) = mb_in_use (mb_arr s i) \<and> mb_path (mb_arr t i) = mb_path (mb_arr s i)"
      unfolding fields using next_frame by auto
  qed
  moreover have "\<not> mb_in_use (mb_arr t i) \<longrightarrow> mb_next_ix (mb_arr t i) = - 1"
    if "i < META_BUCKETS" for i
  proof
    assume i: "\<not> mb_in_use (mb_arr t i)"
    show "mb_next_ix (mb_arr t i) = - 1"
    proof (cases "i \<in> set es")
      case True
      then show ?thesis by (simp add: t chpath_state_def foldr_freed freed_def)
    next
      case False
      with i have "\<not> mb_in_use (mb_arr s i)" by (simp add: fields)
      then have "i \<notin> set (ys @ x # zs)" "i \<notin> set (us @ es @ vs)" using row by (auto simp: row_ok_def)
      then have "mb_next_ix (mb_arr t i) = mb_next_ix (mb_arr s i)"
        by (rule next_frame)
      with mbs [OF that] \<open>\<not> mb_in_use (mb_arr s i)\<close> show ?thesis by simp
    qed
  qed
  moreover have "hi_lock (hash_table t k) = init_urwlock" if "k < HASH_TABLE_SIZE" for k
    using locks [OF that] by (simp add: fields)
  ultimately have "rows_ok t (R(ho := ys @ zs, hn := us @ x # vs))"
    using mbs by (simp add: rows_ok_def fields)
  then show ?thesis by (simp add: t)
qed

end
