(* ===== verification/Ufs_Alloc.thy ===== *)
theory Ufs_Alloc
  imports Ufs_Data
begin

text \<open>
  Properties of the data-bucket allocators of \<open>data_shm.c\<close>, stated on the functions the file
  operations call (\<open>get_free_dbucket_ix\<close>, \<open>get_free_dbucket_ptr\<close>, \<open>get_dbucket_ptr\<close>) and
  obtained from the interpretation \<open>ufs_alloc\<close> of the allocator interface.
\<close>

section \<open>A state to evaluate on\<close>

text \<open>The shared memory right after the daemon's start-up, with every step created and mapped,
  and \<open>rand()\<close> and \<open>sched_getcpu()\<close> answering zero.\<close>

definition free_db :: data_bucket where
  "free_db = \<lparr>db_in_use = False, db_next_ix = - 1, db_buf = (\<lambda>_. 0), db_bytes = 0, db_lock = False\<rparr>"

definition boot_dstate :: "int \<Rightarrow> 'z \<Rightarrow> 'z dstate_scheme" where
  "boot_dstate meth m =
     \<lparr>rand_src = (\<lambda>_. 0), rand_pos = 0, cpu_src = (\<lambda>_. 0), cpu_pos = 0,
      sysg = \<lparr>dbucket_steps = 2, dbucket_rough_index = 0, dbuckets_in_use = 0, sg_lock = False,
              ncores = 4, alloc_method = meth\<rparr>,
      segs = (\<lambda>k. k < 2), dbs = (\<lambda>_. free_db), data_steps = (\<lambda>k. k < 2), cores_seg = True,
      cmem_mapped = True,
      cmem = (\<lambda>_. \<lparr>cs_in_use = False, core_n = - 1, rough_ind = 0, cs_lock = False\<rparr>),
      last_core_num = - 1, last_core_ix = - 1, alloc_method_ind = meth, \<dots> = m\<rparr>"

lemma boot_dinv: "dinv (boot_dstate meth m)"
  by (auto simp: dinv_def boot_dstate_def free_db_def live_def ufs_config)

lemma boot_alloc_inv: "1 \<le> meth \<Longrightarrow> meth \<le> 4 \<Longrightarrow> alloc_inv (boot_dstate meth m)"
  using boot_dinv [of meth m]
  by (simp add: alloc_inv_def core_inv_def tot_buckets_def ufs_config, simp add: boot_dstate_def)

text \<open>A first allocation takes bucket 0.\<close>

lemma walk_first:
  assumes "0 < n" "data_steps s (idx 0 div DATA_BUCKETS_STEP)" "db_free (dbs s (idx 0))"
  shows "walk_dbuckets idx n 0 s = Inr (Some (idx 0), upd_db (idx 0) (\<lambda>db. db\<lparr>db_in_use := True\<rparr>) s)"
  using assms by (subst walk_dbuckets.simps) (simp add: claim_dbucket_eq db_free_def upd_db_def Let_def)

definition boot_taken :: "'z \<Rightarrow> 'z dstate_scheme" where
  "boot_taken m = upd_db 0 (\<lambda>db. db\<lparr>db_in_use := True\<rparr>) ((boot_dstate 1 m)\<lparr>rand_pos := 1\<rparr>)"

lemma boot_first_alloc: "get_free_dbucket_ix (boot_dstate 1 m) = Inr (0, boot_taken m)"
proof -
  let ?s = "(boot_dstate 1 m)\<lparr>rand_pos := 1\<rparr>"
  have "walk_dbuckets (\<lambda>i. i mod tot_buckets) tot_buckets 0 ?s =
      Inr (Some 0, upd_db 0 (\<lambda>db. db\<lparr>db_in_use := True\<rparr>) ?s)"
    using walk_first [of tot_buckets ?s "\<lambda>i. i mod tot_buckets"]
    by (simp add: boot_dstate_def db_free_def free_db_def)
  then show ?thesis
    by (simp add: get_free_dbucket_ix_def bucket_ix_alloc_all_random_def ret_ix_def
        alloc_walk_random_def next_rand_def boot_taken_def)
      (simp add: boot_dstate_def tot_buckets_def ufs_config)
qed

section \<open>What an allocation returns\<close>

text \<open>
  (C25) An allocation by any of the four whole-array methods returns the index of a bucket that
  nobody was using. Afterwards that bucket is in use, empty and the end of its chain; every other
  bucket is unchanged, so is the rest of the shared memory, and the invariant holds again.
\<close>

theorem alloc_fresh_bucket:
  assumes "alloc_inv s" "get_free_dbucket_ix s = Inr (ix, s')"
  shows "unat ix < tot_buckets \<and> \<not> db_in_use (dbs s (unat ix)) \<and> db_in_use (dbs s' (unat ix)) \<and>
    db_next_ix (dbs s' (unat ix)) = nil_ix \<and> db_bytes (dbs s' (unat ix)) = 0 \<and>
    (\<forall>q. q \<noteq> unat ix \<longrightarrow> dbs s' q = dbs s q) \<and> dstate.more s' = dstate.more s \<and> alloc_inv s'"
  using ufs_alloc.alloc_bucket [OF assms] ufs_alloc.alloc_live [OF assms] alloc_inv_live [OF assms(1)]
    ufs_alloc.alloc_live_same [OF assms] ufs_alloc.alloc_keeps [OF assms]
  by simp

theorem alloc_fresh_bucket_witness:
  "get_free_dbucket_ix (boot_dstate 1 ()) = Inr (0, boot_taken ()) \<and>
   db_in_use (dbs (boot_taken ()) 0) \<and> alloc_inv (boot_taken ())"
  using alloc_fresh_bucket [OF boot_alloc_inv boot_first_alloc, of "()"] boot_first_alloc by simp

text \<open>
  (C26) The random and the rough-index allocator never miss a free bucket: while one bucket of the
  array is free (and, for the random one, the shared counter has not reached the total), the call
  returns, wherever the random number or the rough index makes it start.
\<close>

theorem alloc_finds_free_bucket:
  assumes "alloc_inv s" "alloc_method_ind s \<le> 2" "j < tot_buckets" "\<not> db_in_use (dbs s j)"
    and "alloc_method_ind s = 1 \<longrightarrow> unat (dbuckets_in_use (sysg s)) \<noteq> tot_buckets"
  shows "\<exists>ix s'. get_free_dbucket_ix s = Inr (ix, s')"
  using alloc_walk_finds [OF assms(1-4)] assms(5)
  by (auto simp: get_free_dbucket_alloc_walk(1) [OF assms(1)] ret_ix_def)

theorem alloc_finds_free_bucket_witness:
  "\<exists>ix s'. get_free_dbucket_ix (boot_dstate 2 ()) = Inr (ix, s')"
  using alloc_finds_free_bucket [OF boot_alloc_inv, of 2 "()" 7]
  by (simp add: boot_dstate_def free_db_def tot_buckets_def ufs_config)

text \<open>
  The two halves of every allocator agree: \<open>get_free_dbucket_ptr\<close> is
  \<open>get_free_dbucket_ix\<close> followed by \<open>get_dbucket_ptr\<close> on the index it returned, for each of the
  four whole-array methods, the failing runs included.
\<close>

theorem alloc_ptr_is_ix_then_lookup:
  assumes "alloc_inv s"
  shows "get_free_dbucket_ptr s =
    andthen (get_free_dbucket_ix s) (\<lambda>(ix, s'). get_dbucket_ptr ix s')"
proof (cases "alloc_walk s")
  case (Inl e)
  then show ?thesis by (simp add: get_free_dbucket_alloc_walk [OF assms] ret_ix_def)
next
  case (Inr r)
  obtain j s' where r: "r = (j, s')" by (cases r)
  note t = alloc_walk_takes [OF assms Inr [unfolded r]]
  have u: "unat (of_nat j :: u32) = j" using t(1) tot_buckets_u32 by (simp add: unat_of_nat_u32)
  have "get_dbucket_ptr (of_nat j) s' = Inr (j, s')"
    using get_dbucket_ptr_live [of s' "of_nat j"] t u
    by (simp add: alloc_inv_live) (simp add: alloc_inv_def)
  with Inr r show ?thesis by (simp add: get_free_dbucket_alloc_walk [OF assms] ret_ix_def)
qed

theorem alloc_ptr_is_ix_then_lookup_witness:
  "get_free_dbucket_ptr (boot_dstate 1 ()) = get_dbucket_ptr 0 (boot_taken ())"
  using alloc_ptr_is_ix_then_lookup [OF boot_alloc_inv, of 1 "()"] by (simp add: boot_first_alloc)

section \<open>Sequences of allocations\<close>

fun alloc_many :: "nat \<Rightarrow> 'z dstate_scheme \<Rightarrow> (u32 list \<times> 'z dstate_scheme) res" where
  "alloc_many 0 s = Inr ([], s)"
| "alloc_many (Suc n) s =
     andthen (get_free_dbucket_ix s) (\<lambda>(ix, s).
     andthen (alloc_many n s) (\<lambda>(ixs, s). Inr (ix # ixs, s)))"

lemma alloc_many_fresh:
  "alloc_inv s \<Longrightarrow> alloc_many n s = Inr (ixs, s') \<Longrightarrow>
     distinct ixs \<and> length ixs = n \<and> (\<forall>ix \<in> set ixs. \<not> db_in_use (dbs s (unat ix)) \<and> db_in_use (dbs s' (unat ix))) \<and>
     (\<forall>q. q \<notin> unat ` set ixs \<longrightarrow> dbs s' q = dbs s q) \<and> alloc_inv s'"
proof (induction n arbitrary: s ixs)
  case 0
  then show ?case by simp
next
  case (Suc n)
  then obtain ix s1 iss where a: "get_free_dbucket_ix s = Inr (ix, s1)"
    and m: "alloc_many n s1 = Inr (iss, s')" and ixs: "ixs = ix # iss"
    by (auto simp: andthen_eq_Inr)
  note b = ufs_alloc.alloc_bucket [OF Suc.prems(1) a]
  note IH = Suc.IH [OF ufs_alloc.alloc_keeps [OF Suc.prems(1) a] m]
  have fresh: "ix \<notin> set iss" using IH b(1) by auto
  then have "unat ix \<notin> unat ` set iss" by (auto dest: unsigned_word_eqI)
  with IH have "dbs s' (unat ix) = dbs s1 (unat ix)" by blast
  moreover have "dbs s1 (unat i) = dbs s (unat i)" if "i \<in> set iss" for i
  proof -
    have "unat i \<noteq> unat ix" using that fresh by (metis word_unat_eq_iff)
    then show ?thesis by (rule b(5))
  qed
  moreover have "dbs s' q = dbs s q" if "q \<notin> unat ` set (ix # iss)" for q
    using IH b(5) [of q] that by auto
  ultimately show ?case using IH b(1,4) fresh ixs by auto
qed

text \<open>
  Over any number of allocations in a row, no bucket is handed out twice and none that was in
  use before: the indices are pairwise distinct, all were free, all are in use at the end, and no
  other bucket changed.
\<close>

theorem alloc_many_distinct:
  assumes "alloc_inv s" "alloc_many n s = Inr (ixs, s')"
  shows "distinct ixs \<and> length ixs = n \<and>
    (\<forall>ix. ix \<in> set ixs \<longrightarrow> \<not> db_in_use (dbs s (unat ix)) \<and> db_in_use (dbs s' (unat ix))) \<and>
    (\<forall>q. q \<notin> unat ` set ixs \<longrightarrow> dbs s' q = dbs s q)"
  using alloc_many_fresh [OF assms] by blast

theorem alloc_many_distinct_witness:
  "alloc_many 1 (boot_dstate 1 ()) = Inr ([0], boot_taken ()) \<and>
   db_in_use (dbs (boot_taken ()) 0) \<and> dbs (boot_taken ()) 5 = dbs (boot_dstate 1 ()) 5"
proof -
  have m: "alloc_many 1 (boot_dstate 1 ()) = Inr ([0], boot_taken ())"
    by (simp add: boot_first_alloc)
  with alloc_many_distinct [OF boot_alloc_inv m] show ?thesis by simp
qed

section \<open>Per-core slices\<close>

text \<open>
  (C28) The per-core allocators stay in their slice: the bucket handed out to a process whose CPU
  has slot \<open>c\<close> of the core block lies in the \<open>c\<close>-th of the equal slices of the array, so
  processes on CPUs with different slots never compete for a bucket.
\<close>

theorem per_core_alloc_in_slice:
  assumes "alloc_inv s" "3 \<le> alloc_method_ind s"
    and "get_set_core_index s = Inr (c, t)" "bkts_per_core s = Inr b"
    and "get_free_dbucket_ix s = Inr (ix, s')"
  shows "0 \<le> c \<and> c < ncores (sysg s) \<and> unat ix div b = nat c"
proof -
  have core: "core_inv s" and inv: "dinv s" "live s = tot_buckets"
    using assms(1,2) alloc_inv_live [OF assms(1)] by (simp_all add: alloc_inv_def)
  note idx = get_set_core_index_result [OF core assms(3)]
  then have b: "bkts_per_core t = Inr b" using assms(4) by (simp add: bkts_per_core_def)
  from assms(5) obtain j where j: "alloc_walk s = Inr (j, s')" "ix = of_nat j"
    by (auto simp: get_free_dbucket_alloc_walk [OF assms(1)] ret_ix_def andthen_eq_Inr)
  have u: "unat ix = j"
    using alloc_walk_takes(1) [OF assms(1) j(1)] tot_buckets_u32 j(2) by (simp add: unat_of_nat_u32)
  have "b * nat c \<le> j \<and> j < b * nat c + b"
    using assms(1)
  proof (cases rule: alloc_method_cases)
    case core_random
    then show ?thesis
      using alloc_walk_per_core_random_takes [OF inv core] j(1) assms(3) b by (simp add: alloc_walk_def)
  next
    case core_rough
    then show ?thesis
      using alloc_walk_per_core_rough_ind_takes [OF inv core] j(1) assms(3) b by (simp add: alloc_walk_def)
  qed (use assms(2) in auto)
  then have "j div b = nat c" by (intro div_nat_eqI) (auto simp: mult.commute)
  then show ?thesis using idx u by simp
qed

definition boot_core :: "'z \<Rightarrow> 'z dstate_scheme" where
  "boot_core m = (upd_core 0 (\<lambda>c. c\<lparr>cs_in_use := True, core_n := 0\<rparr>)
     ((boot_dstate 3 m)\<lparr>cpu_pos := 1\<rparr>))\<lparr>last_core_ix := 0, last_core_num := 0\<rparr>"

lemma boot_core_index: "get_set_core_index (boot_dstate 3 m) = Inr (0, boot_core m)"
  by (simp add: get_set_core_index_def sched_getcpu_def boot_core_def walk_cores.simps [of _ 0])
    (simp add: boot_dstate_def upd_core_def)

lemma boot_bkts_per_core: "bkts_per_core (boot_dstate 3 m) = Inr 131072"
  by (simp add: bkts_per_core_def boot_dstate_def tot_buckets_def ufs_config)

theorem per_core_alloc_in_slice_witness:
  "\<exists>ix s'. get_free_dbucket_ix (boot_dstate 3 ()) = Inr (ix, s') \<and> unat ix div 131072 = 0"
proof -
  let ?s = "boot_core ()"
  let ?t = "?s\<lparr>rand_pos := Suc (rand_pos ?s)\<rparr>"
  let ?u = "upd_db 0 (\<lambda>db. db\<lparr>db_in_use := True\<rparr>) ?t"
  have "walk_dbuckets (\<lambda>i. i mod 131072) 131072 0 ?t = Inr (Some 0, ?u)"
    using walk_first [of 131072 ?t "\<lambda>i. i mod 131072"]
    by (simp add: boot_core_def boot_dstate_def db_free_def free_db_def upd_core_def)
  moreover have "bkts_per_core ?s = Inr 131072"
    using boot_bkts_per_core [of "()"] by (simp add: bkts_per_core_def boot_core_def boot_dstate_def upd_core_def)
  moreover have "alloc_method_ind (boot_dstate 3 ()) = 3" "rand_src ?s (rand_pos ?s) = 0"
    by (simp_all add: boot_core_def boot_dstate_def upd_core_def)
  ultimately have "get_free_dbucket_ix (boot_dstate 3 ()) = Inr (0, ?u)"
    by (simp add: get_free_dbucket_ix_def bucket_ix_alloc_all_per_core_random_def ret_ix_def
        alloc_walk_per_core_random_def next_rand_def boot_core_index)
  from per_core_alloc_in_slice [OF boot_alloc_inv _ boot_core_index boot_bkts_per_core this] this
  show ?thesis using \<open>alloc_method_ind (boot_dstate 3 ()) = 3\<close> by simp
qed

section \<open>Reaching a bucket by its index\<close>

text \<open>A process that mapped the first \<open>m\<close> steps while another one created more.\<close>

definition lags :: "nat \<Rightarrow> 'z dstate_scheme \<Rightarrow> bool" where
  "lags m s \<longleftrightarrow>
     0 < m \<and> int m \<le> dbucket_steps (sysg s) \<and> dbucket_steps (sysg s) \<le> int MAX_DATA_BUCKETS_STEPS \<and>
     (\<forall>k. data_steps s k \<longleftrightarrow> k < m) \<and> (\<forall>k. int k < dbucket_steps (sysg s) \<longrightarrow> segs s k)"

lemma map_steps_range:
  assumes "\<And>i. i \<in> set is' \<Longrightarrow> 0 \<le> i \<and> i < int MAX_DATA_BUCKETS_STEPS \<and> segs s (nat i)"
  shows "map_steps is' s = Inr (s\<lparr>data_steps := (\<lambda>k. k \<in> nat ` set is' \<or> data_steps s k)\<rparr>)"
  using assms
proof (induction is' arbitrary: s)
  case Nil
  then show ?case by simp
next
  case (Cons i is')
  let ?s = "s\<lparr>data_steps := (data_steps s)(nat i := True)\<rparr>"
  have "open_map_datastep i s = Inr ?s"
    using Cons.prems [of i] by (simp add: open_map_datastep_def)
  moreover have "map_steps is' ?s = Inr (?s\<lparr>data_steps := (\<lambda>k. k \<in> nat ` set is' \<or> data_steps ?s k)\<rparr>)"
    using Cons.prems by (intro Cons.IH) auto
  ultimately show ?case by (auto simp: fun_eq_iff)
qed

lemma takeWhile_upt_less: "m \<le> n \<Longrightarrow> takeWhile (\<lambda>k. k < m) [0..<n] = [0..<m]"
  by (induction n) (auto simp: takeWhile_append le_Suc_eq)

text \<open>
  (C27) Whatever part of the data steps a process has mapped (at least the first), \<open>get_dbucket_ptr\<close>
  returns the bucket of every index below the number of buckets that exist, mapping the missing
  steps when the bucket lies in one of them and leaving the buckets as they are.
\<close>

theorem get_dbucket_ptr_catches_up:
  assumes "lags m s" "unat ix < live s"
  shows "get_dbucket_ptr ix s =
    Inr (unat ix, if unat ix div DATA_BUCKETS_STEP < m then s
                  else s\<lparr>data_steps := (\<lambda>k. int k < dbucket_steps (sysg s))\<rparr>)"
proof -
  let ?n = "dbucket_steps (sysg s)"
  let ?k = "unat ix div DATA_BUCKETS_STEP"
  have k: "int ?k < ?n"
  proof -
    have "?k < nat ?n" using assms(2) by (simp add: live_def less_mult_imp_div_less mult.commute)
    then show ?thesis by linarith
  qed
  have m: "0 < m" "int m \<le> ?n" "m \<le> MAX_DATA_BUCKETS_STEPS" "data_steps s = (\<lambda>k. k < m)"
    using assms(1) by (auto simp: lags_def)
  have "map_steps [int m - 1 .. ?n - 1] s =
      Inr (s\<lparr>data_steps := (\<lambda>k. k \<in> nat ` set [int m - 1 .. ?n - 1] \<or> data_steps s k)\<rparr>)"
    using assms(1) by (intro map_steps_range) (auto simp: lags_def)
  moreover have "(\<lambda>k. k \<in> nat ` set [int m - 1 .. ?n - 1] \<or> data_steps s k) = (\<lambda>k. int k < ?n)"
  proof
    fix k
    have "k \<in> nat ` {int m - 1 .. ?n - 1} \<longleftrightarrow> int m - 1 \<le> int k \<and> int k \<le> ?n - 1"
      using m(1) by (auto simp: image_iff intro: bexI [of _ "int k"])
    then show "(k \<in> nat ` set [int m - 1 .. ?n - 1] \<or> data_steps s k) = (int k < ?n)"
      using m by auto
  qed
  ultimately have map: "map_steps [int m - 1 .. ?n - 1] s = Inr (s\<lparr>data_steps := (\<lambda>k. int k < ?n)\<rparr>)"
    by simp
  have "\<not> ?n \<le> int ?k" using k by simp
  then show ?thesis
    using k map m takeWhile_upt_less [OF m(3)]
    by (simp add: get_dbucket_ptr_def Let_def mult.commute)
qed

theorem get_dbucket_ptr_catches_up_witness:
  "get_dbucket_ptr 262144 ((boot_dstate 1 ())\<lparr>data_steps := (\<lambda>k. k < 1)\<rparr>) =
     Inr (262144, boot_dstate 1 ())"
  using get_dbucket_ptr_catches_up [of 1 "(boot_dstate 1 ())\<lparr>data_steps := (\<lambda>k. k < 1)\<rparr>" 262144]
  by (simp add: lags_def boot_dstate_def live_def ufs_config)

section \<open>The step allocator's index\<close>

text \<open>All buckets up to the rough index taken, one step, the scan has to wrap.\<close>

definition wrap_dstate :: dstate where
  "wrap_dstate = (boot_dstate 0 ())\<lparr>
     sysg := \<lparr>dbucket_steps = 1, dbucket_rough_index = 262143, dbuckets_in_use = 1, sg_lock = False,
              ncores = 4, alloc_method = 0\<rparr>,
     dbs := (\<lambda>p. if p = 262143 then free_db\<lparr>db_in_use := True\<rparr> else free_db)\<rparr>"

lemma wrap_ptr: "p < 262144 \<Longrightarrow> get_dbucket_ptr (of_nat p) wrap_dstate = Inr (p, wrap_dstate)"
  by (simp add: get_dbucket_ptr_def unat_of_nat_u32 wrap_dstate_def boot_dstate_def ufs_config)

text \<open>
  The step allocator hands out an index that is no bucket: in a state with one step whose last
  bucket (where the rough index stands) is taken, \<open>bucket_ix_alloc_steps\<close> takes bucket 0 but
  returns 262144, the index before the reduction, and looking that index up ends the process.
\<close>

theorem steps_alloc_returns_unreduced_index:
  "\<exists>s'. bucket_ix_alloc_steps wrap_dstate = Inr (262144, s') \<and>
        db_in_use (dbs s' 0) \<and> \<not> db_in_use (dbs wrap_dstate 0) \<and>
        get_dbucket_ptr 262144 s' = Inl Exit"
proof -
  let ?s' = "upd_db 0 (\<lambda>db. db\<lparr>db_next_ix := - 1, db_bytes := 0\<rparr>)
    (upd_sysg (\<lambda>g. g\<lparr>dbucket_rough_index := 262144, dbuckets_in_use := dbuckets_in_use g + 1\<rparr>)
      (upd_db 0 (\<lambda>db. db\<lparr>db_in_use := True\<rparr>) wrap_dstate))"
  have fields: "data_steps wrap_dstate = (\<lambda>k. k < 2)" "dbs wrap_dstate 0 = free_db"
      "dbs wrap_dstate 262143 = free_db\<lparr>db_in_use := True\<rparr>"
      "dbucket_steps (sysg wrap_dstate) = 1" "dbucket_rough_index (sysg wrap_dstate) = 262143"
      "dbuckets_in_use (sysg wrap_dstate) = 1"
    by (simp_all add: wrap_dstate_def boot_dstate_def)
  have same: "wrap_dstate\<lparr>dbs := (dbs wrap_dstate)(262143 := dbs wrap_dstate 262143)\<rparr> = wrap_dstate"
    by simp
  have "walk_steps 262143 262144 (Suc 0) wrap_dstate = Inr (Some (262144, 0), ?s')"
    using wrap_ptr [of 0]
    by (subst walk_steps.simps)
      (simp add: fields claim_dbucket_def free_db_def upd_db_def Let_def)
  then have "walk_steps 262143 262144 0 wrap_dstate = Inr (Some (262144, 0), ?s')"
    using wrap_ptr [of 262143] same
    by (subst walk_steps.simps) (simp add: fields(3) claim_dbucket_def)
  then have "traverse_current_buckets (Suc MAX_DATA_BUCKETS_STEPS) wrap_dstate = Inr ((262144, 0), ?s')"
    unfolding traverse_current_buckets.simps by (simp add: fields ufs_config)
  then have "bucket_ix_alloc_steps wrap_dstate = Inr (262144, ?s')"
    by (simp add: bucket_ix_alloc_steps_def alloc_walk_steps_def fields ufs_config
        del: traverse_current_buckets.simps)
  moreover have "get_dbucket_ptr 262144 ?s' = Inl Exit"
    by (simp add: get_dbucket_ptr_def fields ufs_config)
  ultimately show ?thesis by (simp add: fields free_db_def)
qed

end
