(* ===== verification/Ufs_Names.thy ===== *)
theory Ufs_Names
  imports Ufs_Directory Ufs_Alloc
begin

text \<open>
  The hash table as the system calls see it: renaming as a law about the abstract map, the
  contract \<open>name_service\<close> with its interpretation on the operations of \<open>meta_shm.c\<close>, and the
  properties of the component.
\<close>

section \<open>Renaming on the abstract map\<close>

lemma look_rows:
  assumes "rows_ok s R" "hash q = Inr k" "ok_path q"
  shows "look s q = Some i \<longleftrightarrow> i \<in> set (R k) \<and> mb_path (mb_arr s i) = q"
  using assms hash_range [OF assms(2)] by (intro look_iff) (auto simp: rows_ok_def)

lemma chpath_look:
  assumes R: "rows_ok s R" and hs: "ho \<noteq> hn"
    and po: "hash old = Inr ho" "ok_path old" and pn: "hash new = Inr hn" "ok_path new"
    and ro: "R ho = ys @ x # zs" and rn: "R hn = us @ es @ vs" and nx: "mlist (mb_arr s) nx vs"
    and gone: "\<And>i. i \<in> set us \<union> set vs \<Longrightarrow> mb_path (mb_arr s i) \<noteq> new"
    and es: "\<And>i. i \<in> set es \<Longrightarrow> mb_path (mb_arr s i) = new"
    and x: "mb_path (mb_arr s x) = old"
  shows "look (chpath_state ho ys hn us es x nx new s) = (look s)(old := None, new \<mapsto> x)"
proof
  fix q
  define t where t: "t = chpath_state ho ys hn us es x nx new s"
  have h: "ho < HASH_TABLE_SIZE" "hn < HASH_TABLE_SIZE" using po(1) pn(1) by (auto intro: hash_range)
  have R': "rows_ok t (R(ho := ys @ zs, hn := us @ x # vs))"
    unfolding t by (rule chpath_rows_ok [OF R h hs pn ro rn nx gone])
  have row: "row_ok s ho (ys @ x # zs)" "row_ok s hn (us @ es @ vs)"
    using R h ro rn by (auto simp: rows_ok_def)
  have x_es: "x \<notin> set es" using rows_disjoint [OF row hs] by auto
  have path: "mb_path (mb_arr t i) = (if i = x then new else mb_path (mb_arr s i))" for i
    unfolding t by (rule chpath_fields(1) [OF x_es])
  have on: "old \<noteq> new" using po pn hs by auto
  have uniq: "mb_path (mb_arr s i) \<noteq> old" if "i \<in> set (ys @ zs)" for i
    using row(1) x that by (auto simp: row_ok_def image_iff)
  show "look t q = ((look s)(old := None, new \<mapsto> x)) q"
  proof (cases "ok_path q")
    case False
    with po pn show ?thesis by (auto simp: look_not_ok)
  next
    case True
    then obtain k where k: "hash q = Inr k" using ok_path_hash by blast
    note l = look_rows [OF R k True] look_rows [OF R' k True]
    show ?thesis
    proof (rule option_eqI)
      fix i
      have x_row: "i \<noteq> x" if "i \<in> set (R k)" "k \<noteq> ho"
        using rows_disjoint [of s k "R k" ho "R ho"] that R hash_range [OF k] h ro
        by (auto simp: rows_ok_def)
      consider "q = new" | "q = old" | "q \<noteq> new" "q \<noteq> old" by blast
      then show "look t q = Some i \<longleftrightarrow> ((look s)(old := None, new \<mapsto> x)) q = Some i"
      proof cases
        case 1
        then have "k = hn" using k pn by simp
        with 1 gone l(2) [of i] show ?thesis by (auto simp: path split: if_splits)
      next
        case 2
        then have "k = ho" using k po by simp
        with 2 on uniq hs l(2) [of i] show ?thesis by (auto simp: path split: if_splits)
      next
        case 3
        then have "look t q = Some i \<longleftrightarrow> i \<in> set (R k) \<and> mb_path (mb_arr s i) = q"
          using es x x_row ro rn hs unfolding l path by (cases "k = ho"; cases "k = hn") auto
        with 3 show ?thesis by (simp add: l)
      qed
    qed
  qed
qed

text \<open>What a rename that finds its source does, whether or not the target exists.\<close>

lemma mb_chpath_state:
  assumes "minv s" "ok_path old" "ok_path new" "hash old \<noteq> hash new" "look s old = Some x"
  obtains ho ys hn us es nx where "mb_chpath old new s = Inr (0, chpath_state ho ys hn us es x nx new s)"
    "minv (chpath_state ho ys hn us es x nx new s)"
    "look (chpath_state ho ys hn us es x nx new s) = (look s)(old := None, new \<mapsto> x)"
    "x \<notin> set es" "set es = {i. look s new = Some i}"
proof -
  obtain R ho hn where R: "rows_ok s R" and ho: "hash old = Inr ho" and hn: "hash new = Inr hn"
    using assms(1) ok_path_hash [OF assms(2)] ok_path_hash [OF assms(3)] by (auto simp: minv_def)
  have neq: "ho \<noteq> hn" using ho hn assms(4) by auto
  have h: "ho < HASH_TABLE_SIZE" "hn < HASH_TABLE_SIZE" using ho hn by (auto intro: hash_range)
  have row: "row_ok s ho (R ho)" "row_ok s hn (R hn)" using R h by (auto simp: rows_ok_def)
  from row_split [OF row(1) ho assms(2,5)] obtain ys zs
    where ro: "R ho = ys @ x # zs" "\<forall>y \<in> set ys. \<not> path_eq old y s" "path_eq old x s" by metis
  have x: "mb_path (mb_arr s x) = old" using look_iff [OF row(1) ho assms(2), of x] assms(5) by simp
  note moves = mb_chpath_moves [OF R ho assms(2) hn assms(3) neq ro]
  obtain us es vs nx where rn: "R hn = us @ es @ vs" and nx: "mlist (mb_arr s) nx vs"
    and gone: "\<And>i. i \<in> set us \<union> set vs \<Longrightarrow> mb_path (mb_arr s i) \<noteq> new"
    and es: "\<And>i. i \<in> set es \<Longrightarrow> mb_path (mb_arr s i) = new"
    and res: "mb_chpath old new s = Inr (0, chpath_state ho ys hn us es x nx new s)"
  proof (cases "look s new")
    case None
    then have none: "\<forall>i \<in> set (R hn). \<not> path_eq new i s"
      using look_none_iff [OF row(2) hn assms(3)] by simp
    show ?thesis
    proof (rule that [of "R hn" "[]" "[]" "- 1"])
      show "mb_path (mb_arr s i) \<noteq> new" if "i \<in> set (R hn) \<union> set []" for i
        using none path_eq_row [OF row(2) assms(3), of i] that by auto
      show "mb_chpath old new s = Inr (0, chpath_state ho ys hn (R hn) [] x (- 1) new s)"
        using moves(1) [OF none] by (simp add: chpath_state_def)
    qed simp_all
  next
    case (Some y)
    from row_split [OF row(2) hn assms(3) Some] obtain us vs
      where s: "R hn = us @ y # vs" "\<forall>u \<in> set us. \<not> path_eq new u s" "path_eq new y s" by metis
    have y: "mb_path (mb_arr s y) = new" using look_iff [OF row(2) hn assms(3), of y] Some by simp
    show ?thesis
    proof (rule that [of us "[y]" vs "mb_next_ix (mb_arr s y)"])
      show "mlist (mb_arr s) (mb_next_ix (mb_arr s y)) vs"
        using row(2) s(1) by (auto simp: row_ok_def mseg_append)
      show "mb_path (mb_arr s i) \<noteq> new" if "i \<in> set us \<union> set vs" for i
        using row(2) s(1) y that by (auto simp: row_ok_def image_iff)
      show "mb_chpath old new s =
          Inr (0, chpath_state ho ys hn us [y] x (mb_next_ix (mb_arr s y)) new s)"
        using moves(2) [OF s] by (simp add: chpath_state_def)
    qed (use s y in auto)
  qed
  have x_es: "x \<notin> set es" using rows_disjoint [OF row neq] ro rn by auto
  have "i \<in> set es \<longleftrightarrow> look s new = Some i" for i
    using look_iff [OF row(2) hn assms(3), of i] es [of i] gone [of i] rn by auto
  then have "set es = {i. look s new = Some i}" by auto
  then show thesis
    using that [OF res _ _ x_es] chpath_rows_ok [OF R h neq hn assms(3) ro(1) rn nx gone]
      chpath_look [OF R neq ho assms(2) hn assms(3) ro(1) rn nx gone es x]
    by (auto simp: minv_def)
qed

lemma mb_chpath_law:
  assumes "minv s" "ok_path old" "ok_path new" "hash old \<noteq> hash new" "look s old = Some x"
  shows "\<exists>s'. mb_chpath old new s = Inr (0, s') \<and> minv s' \<and>
    look s' = (look s)(old := None, new \<mapsto> x) \<and>
    (\<forall>i. mb_s (mb_arr s' i) = mb_s (mb_arr s i)) \<and>
    (\<forall>i. look s new \<noteq> Some i \<longrightarrow> first_dbucket (mb_arr s' i) = first_dbucket (mb_arr s i)) \<and>
    dbs s' = dbs s \<and> mstate.more s' = mstate.more s"
proof -
  from mb_chpath_state [OF assms] obtain ho ys hn us es nx where
    c: "mb_chpath old new s = Inr (0, chpath_state ho ys hn us es x nx new s)"
      "minv (chpath_state ho ys hn us es x nx new s)"
      "look (chpath_state ho ys hn us es x nx new s) = (look s)(old := None, new \<mapsto> x)"
      "x \<notin> set es" "set es = {i. look s new = Some i}" .
  note fields = chpath_fields [where ho = ho and ys = ys and hn = hn and us = us and nx = nx
      and new = new and s = s, OF c(4)]
  from c fields show ?thesis by auto
qed

lemma mb_chpath_missing:
  assumes "minv s" "ok_path old" "ok_path new" "hash old = Inr ho" "hash new = Inr hn" "ho \<noteq> hn"
    "look s old = None"
  shows "mb_chpath old new s = Inr (- 1, both_locked ho hn s)"
proof -
  let ?l = "both_locked ho hn s"
  obtain R where R: "rows_ok s R" using assms(1) by (auto simp: minv_def)
  have h: "ho < HASH_TABLE_SIZE" "hn < HASH_TABLE_SIZE" using assms by (auto intro: hash_range)
  have row: "row_ok s ho (R ho)" "row_ok s hn (R hn)"
    and lock: "hi_lock (hash_table s ho) = init_urwlock" "hi_lock (hash_table s hn) = init_urwlock"
    using R h by (auto simp: rows_ok_def)
  have lst: "mlist (mb_arr ?l) (first_ix (hash_table ?l ho)) (R ho)"
      "mlist (mb_arr ?l) (first_ix (hash_table ?l hn)) (R hn)"
    using row by (simp_all add: row_ok_def both_locked_ops)
  have none: "\<forall>i \<in> set (R ho). \<not> path_eq old i ?l"
    using look_none_iff [OF row(1) assms(4,2)] assms(7) by (simp add: both_locked_ops)
  have fo: "get_mb_and_prev old ?l = Inr (None, last_opt (R ho))"
    by (rule get_mb_and_prev_none [OF assms(4) lst(1) row_ok_length [OF row(1)] none])
  have "\<exists>r. get_mb_and_prev new ?l = Inr r"
  proof (cases "look s new")
    case None
    then have "\<forall>i \<in> set (R hn). \<not> path_eq new i ?l"
      using look_none_iff [OF row(2) assms(5,3)] by (simp add: both_locked_ops)
    from get_mb_and_prev_none [OF assms(5) lst(2) row_ok_length [OF row(2)] this]
    show ?thesis by blast
  next
    case (Some y)
    from row_split [OF row(2) assms(5,3) Some] obtain us vs
      where "R hn = us @ y # vs" "\<forall>u \<in> set us. \<not> path_eq new u s" "path_eq new y s" by metis
    with get_mb_and_prev_some [OF assms(5), of ?l us y vs] lst(2) row_ok_length [OF row(2)]
    show ?thesis by (auto simp: both_locked_ops)
  qed
  moreover have "\<not> strncmp_eq old new PATH_MAX"
    using assms by (auto simp: strncmp_eq_short ok_path_def)
  ultimately show ?thesis
    using assms fo by (auto simp: mb_chpath_def both_down_write [OF assms(6) lock])
qed

lemma mb_chpath_same_row:
  assumes "minv s" "ok_path old" "ok_path new" "old \<noteq> new" "hash old = hash new"
  shows "mb_chpath old new s = Inl Hang"
proof -
  obtain h where h: "hash old = Inr h" "h < HASH_TABLE_SIZE" using ok_path_hash assms(2) by blast
  then have "hi_lock (hash_table s h) = init_urwlock" using assms(1) by (auto simp: minv_def rows_ok_def)
  with h assms show ?thesis
    by (simp add: mb_chpath_def strncmp_eq_short ok_path_def row_down_write_free row_down_write_def)
qed

section \<open>The contract of the name table\<close>

text \<open>What the system calls rely on: \<open>view\<close> is the map from paths to buckets; looking a path up
  reads it, removing a path takes it out and reports whether it was there, moving a path that is
  there carries its bucket over. \<open>apart\<close> says the two paths of a move are in different rows.\<close>

locale name_service =
  fixes inv :: "'s \<Rightarrow> bool" and view :: "'s \<Rightarrow> string \<Rightarrow> nat option"
    and ok :: "string \<Rightarrow> bool" and apart :: "string \<Rightarrow> string \<Rightarrow> bool"
    and lookup :: "string \<Rightarrow> 's \<Rightarrow> (nat option \<times> 's) res"
    and remove :: "string \<Rightarrow> 's \<Rightarrow> (int \<times> 's) res"
    and move :: "string \<Rightarrow> string \<Rightarrow> 's \<Rightarrow> (int \<times> 's) res"
  assumes lookup_view: "inv s \<Longrightarrow> ok p \<Longrightarrow> lookup p s = Inr (view s p, s)"
    and remove_view: "inv s \<Longrightarrow> ok p \<Longrightarrow> \<exists>s'. remove p s = Inr (if view s p = None then - 1 else 0, s') \<and>
      inv s' \<and> view s' = (view s)(p := None)"
    and move_view: "inv s \<Longrightarrow> ok p \<Longrightarrow> ok q \<Longrightarrow> apart p q \<Longrightarrow> view s p = Some i \<Longrightarrow>
      \<exists>s'. move p q s = Inr (0, s') \<and> inv s' \<and> view s' = (view s)(p := None, q \<mapsto> i)"
    and apart_sym: "apart p q \<Longrightarrow> apart q p"
    and apart_neq: "apart p q \<Longrightarrow> p \<noteq> q"
begin

lemma lookup_after_remove:
  assumes "inv s" "ok p" "ok q"
  shows "andthen (remove p s) (\<lambda>(r, s'). andthen (lookup q s') (\<lambda>(x, s''). Inr x)) =
    Inr (if q = p then None else view s q)"
  using remove_view [OF assms(1,2)] assms(3) by (auto simp: lookup_view)

lemma remove_twice:
  assumes "inv s" "ok p"
  shows "\<exists>s'. andthen (remove p s) (\<lambda>(r, s1). remove p s1) = Inr (- 1, s')"
proof -
  obtain r s1 where s1: "remove p s = Inr (r, s1)" "inv s1" "view s1 = (view s)(p := None)"
    using remove_view [OF assms] by blast
  from remove_view [OF s1(2) assms(2)] s1 show ?thesis by auto
qed

lemma lookup_after_move:
  assumes "inv s" "ok p" "ok q" "apart p q" "view s p = Some i"
  shows "andthen (move p q s) (\<lambda>(r, s'). andthen (lookup q s') (\<lambda>(x, s''). Inr x)) = Inr (Some i)"
    "andthen (move p q s) (\<lambda>(r, s'). andthen (lookup p s') (\<lambda>(x, s''). Inr x)) = Inr None"
  using move_view [OF assms] assms(2,3) apart_neq [OF assms(4)] by (auto simp: lookup_view)

lemma move_there_and_back:
  assumes "inv s" "ok p" "ok q" "apart p q" "view s p = Some i" "view s q = None"
  shows "\<exists>s'. andthen (move p q s) (\<lambda>(r, s1). move q p s1) = Inr (0, s') \<and> inv s' \<and> view s' = view s"
proof -
  obtain s1 where s1: "move p q s = Inr (0, s1)" "inv s1" "view s1 = (view s)(p := None, q \<mapsto> i)"
    using move_view [OF assms(1-5)] by blast
  moreover from s1(3) have "view s1 q = Some i" by simp
  ultimately obtain s' where "move q p s1 = Inr (0, s')" "inv s'"
      "view s' = (view s1)(q := None, p \<mapsto> i)"
    using move_view [OF s1(2) assms(3,2) apart_sym [OF assms(4)]] by blast
  moreover have "(view s1)(q := None, p \<mapsto> i) = view s"
    using s1(3) assms(5,6) by (auto simp: fun_eq_iff)
  ultimately show ?thesis using s1(1) by auto
qed

end

definition rows_differ :: "string \<Rightarrow> string \<Rightarrow> bool" where
  "rows_differ p q \<longleftrightarrow> hash p \<noteq> hash q"

interpretation names: name_service minv look ok_path rows_differ
  get_mbucket release_meta_bucket mb_chpath
proof
  fix s :: "'a mstate_scheme" and p q i
  show "minv s \<Longrightarrow> ok_path p \<Longrightarrow> get_mbucket p s = Inr (look s p, s)"
    by (rule get_mbucket_look)
  show "minv s \<Longrightarrow> ok_path p \<Longrightarrow> \<exists>s'. release_meta_bucket p s = Inr (if look s p = None then - 1 else 0, s') \<and>
      minv s' \<and> look s' = (look s)(p := None)"
    using release_meta_bucket_law [of s p] by blast
  show "minv s \<Longrightarrow> ok_path p \<Longrightarrow> ok_path q \<Longrightarrow> rows_differ p q \<Longrightarrow> look s p = Some i \<Longrightarrow>
      \<exists>s'. mb_chpath p q s = Inr (0, s') \<and> minv s' \<and> look s' = (look s)(p := None, q \<mapsto> i)"
    using mb_chpath_law [of s p q i] by (auto simp: rows_differ_def)
qed (auto simp: rows_differ_def)

section \<open>A table to evaluate on\<close>

definition free_mb :: meta_bucket where
  "free_mb = \<lparr>mb_in_use = False, mb_next_ix = - 1, mb_path = [],
     mb_s = \<lparr>st_dev = 0, st_ino = 0, st_mode = 0, st_nlink = 0, st_uid = 0, st_gid = 0, st_rdev = 0,
             st_size = 0, st_blksize = 0, st_blocks = 0, st_atim = \<lparr>tv_sec = 0, tv_nsec = 0\<rparr>,
             st_mtim = \<lparr>tv_sec = 0, tv_nsec = 0\<rparr>, st_ctim = \<lparr>tv_sec = 0, tv_nsec = 0\<rparr>\<rparr>,
     first_dbucket = nil_ix, last_dbucket = nil_ix, last_db_offset = 0, consisent = False,
     mb_lock = False\<rparr>"

text \<open>The table as the daemon leaves it, and the same with one file in bucket 0.\<close>

definition boot_mstate :: "'z \<Rightarrow> 'z mstate_scheme" where
  "boot_mstate m = boot_dstate 1
     \<lparr>hash_table = (\<lambda>_. \<lparr>first_ix = - 1, hi_lock = init_urwlock\<rparr>), mb_arr = (\<lambda>_. free_mb), \<dots> = m\<rparr>"

lemma boot_mstate_sel [simp]:
  "hash_table (boot_mstate m) h = \<lparr>first_ix = - 1, hi_lock = init_urwlock\<rparr>"
  "mb_arr (boot_mstate m) i = free_mb" "mstate.more (boot_mstate m) = m"
  by (simp_all add: boot_mstate_def boot_dstate_def)

lemma boot_rows_ok: "rows_ok (boot_mstate m) (\<lambda>_. [])"
  by (simp add: rows_ok_def row_ok_def free_mb_def)

lemma boot_minv: "minv (boot_mstate m)"
  unfolding minv_def by (rule exI, rule boot_rows_ok)

lemma boot_look: "look (boot_mstate m) p = None"
proof -
  have "look (boot_mstate m) p \<noteq> Some i" if "ok_path p" for i
    using look_rows [OF boot_rows_ok [of m], of p _ i] ok_path_hash [of p] that by auto
  then show ?thesis using look_not_ok [of p "boot_mstate m"] by (cases "ok_path p") auto
qed

definition one_file :: "string \<Rightarrow> nat \<Rightarrow> 'z \<Rightarrow> 'z mstate_scheme" where
  "one_file p h m = upd_mb 0 (\<lambda>mb. mb\<lparr>mb_path := p\<rparr>) (created h [] 0 (boot_mstate m))"

lemma one_file_inv:
  assumes "hash p = Inr h" "ok_path p"
  shows "minv (one_file p h m)" "look (one_file p h m) = [p \<mapsto> 0]"
proof -
  have "look (boot_mstate m) = Map.empty" by (rule ext) (simp add: boot_look)
  then show "minv (one_file p h m)" "look (one_file p h m) = [p \<mapsto> 0]"
    using created_rows_ok [OF boot_rows_ok assms boot_look, of 0 m "\<lambda>mb. mb\<lparr>mb_path := p\<rparr>"]
      created_look [OF boot_rows_ok assms boot_look, of 0 m "\<lambda>mb. mb\<lparr>mb_path := p\<rparr>"]
    by (auto simp: one_file_def minv_def free_mb_def ufs_config)
qed

lemma sample_paths:
  "hash ''/a'' = Inr 12469" "hash ''/b'' = Inr 12470" "hash ''/aB'' = hash ''/b!''"
  "ok_path ''/a''" "ok_path ''/b''" "ok_path ''/aB''" "ok_path ''/b!''"
  by (simp_all add: hash_def ok_path_def ascii_def ufs_config)

lemma sample_file:
  "minv (one_file ''/a'' 12469 m)" "look (one_file ''/a'' 12469 m) = [''/a'' \<mapsto> 0]"
  by (rule one_file_inv [OF sample_paths(1,4)])+

section \<open>Properties\<close>

text \<open>
  (C20) Looking a path up gives exactly the abstract map's answer, the first bucket among the buckets the
  links of the path's row lead to that carries the path, or none when no bucket of the row does; it
  terminates, takes and gives back the row's lock, and leaves the whole memory as it was.
\<close>

theorem get_mbucket_refines_map:
  assumes "minv s" "ok_path p"
  shows "get_mbucket p s = Inr (look s p, s)"
  by (rule names.lookup_view [OF assms])

theorem get_mbucket_refines_map_witness:
  "get_mbucket ''/a'' (one_file ''/a'' 12469 ()) = Inr (Some 0, one_file ''/a'' 12469 ())"
  using get_mbucket_refines_map [OF sample_file(1) sample_paths(4), of "()"]
    sample_file(2) [of "()"] sample_paths(1,4) by simp

text \<open>
  (C21) \<open>strict_create_mbucket\<close> on a path that exists returns NULL and changes nothing. On a new path
  it returns a bucket that was not in use, and once the caller has written the path into it the
  table satisfies its invariant and maps the path to that bucket and every other path as before;
  it returns NULL only when all buckets are in use.
\<close>

theorem strict_create_adds_entry:
  assumes "minv s" "ok_path p"
  shows "if look s p \<noteq> None then strict_create_mbucket p s = Inr (None, s)
    else (\<exists>j s'. strict_create_mbucket p s = Inr (Some j, s') \<and> j < META_BUCKETS \<and>
            \<not> mb_in_use (mb_arr s j) \<and> mb_in_use (mb_arr s' j) \<and>
            minv (upd_mb j (\<lambda>mb. mb\<lparr>mb_path := p\<rparr>) s') \<and>
            look (upd_mb j (\<lambda>mb. mb\<lparr>mb_path := p\<rparr>) s') = (look s)(p \<mapsto> j)) \<or>
         (\<exists>s'. strict_create_mbucket p s = Inr (None, s') \<and> (\<forall>i. i < META_BUCKETS \<longrightarrow> mb_in_use (mb_arr s i)))"
proof -
  obtain R h where R: "rows_ok s R" and h: "hash p = Inr h"
    using assms(1) ok_path_hash [OF assms(2)] by (auto simp: minv_def)
  let ?g = "\<lambda>mb. mb\<lparr>mb_path := p\<rparr>"
  have "minv (upd_mb j ?g (created h (R h) j s)) \<and> look (upd_mb j ?g (created h (R h) j s)) = (look s)(p \<mapsto> j) \<and>
      mb_in_use (mb_arr (created h (R h) j s) j)"
    if "j < META_BUCKETS" "\<not> mb_in_use (mb_arr s j)" "look s p = None" for j
    using created_rows_ok [OF R h assms(2) that(3,1,2), of ?g] created_look [OF R h assms(2) that(3,1,2), of ?g]
    by (auto simp: minv_def created_def relink_mb_arr)
  with strict_create_cases [OF R h assms(2)] show ?thesis by (auto split: if_splits)
qed

theorem strict_create_adds_entry_witness:
  "strict_create_mbucket ''/a'' (one_file ''/a'' 12469 ()) = Inr (None, one_file ''/a'' 12469 ()) \<and>
   (\<exists>j s'. strict_create_mbucket ''/b'' (one_file ''/a'' 12469 ()) = Inr (Some j, s') \<and>
      look (upd_mb j (\<lambda>mb. mb\<lparr>mb_path := ''/b''\<rparr>) s') = [''/a'' \<mapsto> 0, ''/b'' \<mapsto> j])"
proof
  let ?s = "one_file ''/a'' 12469 ()"
  show "strict_create_mbucket ''/a'' ?s = Inr (None, ?s)"
    using strict_create_adds_entry [OF sample_file(1) sample_paths(4), of "()"] sample_file(2) [of "()"] by simp
  have "\<not> mb_in_use (mb_arr ?s 1)" "1 < META_BUCKETS"
    by (simp_all add: one_file_def created_def boot_mstate_def boot_dstate_def free_mb_def ufs_config)
  then show "\<exists>j s'. strict_create_mbucket ''/b'' ?s = Inr (Some j, s') \<and>
      look (upd_mb j (\<lambda>mb. mb\<lparr>mb_path := ''/b''\<rparr>) s') = [''/a'' \<mapsto> 0, ''/b'' \<mapsto> j]"
    using strict_create_adds_entry [OF sample_file(1) sample_paths(5), of "()"] sample_file(2) [of "()"] by auto
qed

text \<open>
  (C22) \<open>release_meta_bucket\<close> removes exactly one entry: 0 when the path was there and -1 when it was
  not, with the invariant kept, every other path still mapped to its bucket with its attributes and
  data, and no data bucket touched.
\<close>

theorem release_removes_entry:
  assumes "minv s" "ok_path p"
  shows "\<exists>s'. release_meta_bucket p s = Inr (if look s p = None then - 1 else 0, s') \<and> minv s' \<and>
    look s' = (look s)(p := None) \<and>
    (\<forall>i. look s p \<noteq> Some i \<longrightarrow> mb_s (mb_arr s' i) = mb_s (mb_arr s i) \<and>
       first_dbucket (mb_arr s' i) = first_dbucket (mb_arr s i)) \<and> dbs s' = dbs s"
  using release_meta_bucket_law [OF assms] by blast

theorem release_removes_entry_witness:
  "\<exists>s'. release_meta_bucket ''/a'' (one_file ''/a'' 12469 ()) = Inr (0, s') \<and> look s' ''/a'' = None"
  using release_removes_entry [OF sample_file(1) sample_paths(4), of "()"]
    sample_file(2) [of "()"] sample_paths(1,4) by auto

text \<open>
  (C23) A rename between different rows moves the entry: afterwards the new path leads to the bucket
  of the old one, with its attributes and data, whatever the new path led to before; the old path
  leads nowhere and every other path is as it was.
\<close>

theorem mb_chpath_moves_entry:
  assumes "minv s" "ok_path old" "ok_path new" "hash old \<noteq> hash new" "look s old = Some x"
  shows "\<exists>s'. mb_chpath old new s = Inr (0, s') \<and> minv s' \<and>
    look s' = (look s)(old := None, new \<mapsto> x) \<and>
    mb_s (mb_arr s' x) = mb_s (mb_arr s x) \<and>
    (look s new \<noteq> Some x \<longrightarrow> first_dbucket (mb_arr s' x) = first_dbucket (mb_arr s x)) \<and> dbs s' = dbs s"
  using mb_chpath_law [OF assms] by blast

theorem mb_chpath_moves_entry_witness:
  "\<exists>s'. mb_chpath ''/a'' ''/b'' (one_file ''/a'' 12469 ()) = Inr (0, s') \<and> look s' = [''/b'' \<mapsto> 0]"
  using mb_chpath_moves_entry [OF sample_file(1) sample_paths(4,5), of "()" 0]
    sample_file(2) [of "()"] sample_paths(1,2,4) by (auto simp: fun_upd_def fun_eq_iff)

text \<open>
  Renaming a file and renaming it back, when the other name was free, restores the whole map
  from paths to buckets.
\<close>

theorem mb_chpath_round_trip:
  assumes "minv s" "ok_path p" "ok_path q" "hash p \<noteq> hash q" "look s p = Some i" "look s q = None"
  shows "\<exists>s'. andthen (mb_chpath p q s) (\<lambda>(r, s1). mb_chpath q p s1) = Inr (0, s') \<and>
    minv s' \<and> look s' = look s"
  using names.move_there_and_back [of s p q i] assms by (simp add: rows_differ_def)

theorem mb_chpath_round_trip_witness:
  "\<exists>s'. andthen (mb_chpath ''/a'' ''/b'' (one_file ''/a'' 12469 ()))
      (\<lambda>(r, s1). mb_chpath ''/b'' ''/a'' s1) = Inr (0, s') \<and> look s' = [''/a'' \<mapsto> 0]"
  using mb_chpath_round_trip [OF sample_file(1) sample_paths(4,5), of "()" 0]
    sample_file(2) [of "()"] sample_paths(1,2,4) by auto

text \<open>
  (C37) A rename between two different paths of the same row never returns: it takes the row's lock
  for the old path and then waits for that same lock for the new one.
\<close>

theorem mb_chpath_same_row_deadlock:
  assumes "minv s" "ok_path old" "ok_path new" "old \<noteq> new" "hash old = hash new"
  shows "mb_chpath old new s = Inl Hang"
  by (rule mb_chpath_same_row [OF assms])

theorem mb_chpath_same_row_deadlock_witness:
  "mb_chpath ''/aB'' ''/b!'' (boot_mstate ()) = Inl Hang"
  using mb_chpath_same_row_deadlock [OF boot_minv sample_paths(6,7) _ sample_paths(3)] by simp

text \<open>
  A rename whose source does not exist returns -1 with both rows still locked for writing: any
  later lookup of either path never returns.
\<close>

theorem mb_chpath_missing_leaks_locks:
  assumes "minv s" "ok_path old" "ok_path new" "hash old \<noteq> hash new" "look s old = None"
  shows "\<exists>s'. mb_chpath old new s = Inr (- 1, s') \<and>
    get_mbucket old s' = Inl Hang \<and> get_mbucket new s' = Inl Hang"
proof -
  obtain ho hn where h: "hash old = Inr ho" "hash new = Inr hn"
    using ok_path_hash assms(2,3) by blast
  with mb_chpath_missing [OF assms(1-3) h _ assms(5)] assms(4) show ?thesis
    by (auto simp: get_mbucket_def row_down_read_def both_locked_def)
qed

theorem mb_chpath_missing_leaks_locks_witness:
  "\<exists>s'. mb_chpath ''/a'' ''/b'' (boot_mstate ()) = Inr (- 1, s') \<and> get_mbucket ''/a'' s' = Inl Hang"
  using mb_chpath_missing_leaks_locks [OF boot_minv sample_paths(4,5), of "()"]
    sample_paths(1,2) by (auto simp: boot_look)

end
