(* ===== verification/Ufs_Files.thy ===== *)
theory Ufs_Files
  imports Ufs_Syscalls Ufs_Names
begin

text \<open>
  The system calls on open files, as a user of the library sees them: a file is a list of bytes
  with a cursor. \<open>file_ok\<close> says that a metadata bucket describes the chain of its data buckets;
  the calls are proved to act on the list the way POSIX describes them, to keep \<open>file_ok\<close>, and to
  leave every other file alone. Where the code does something else, the theorem says what.
\<close>

section \<open>Which part of the state an operation touches\<close>

text \<open>Two states with the same data memory.\<close>

definition same_data :: "'y dstate_scheme \<Rightarrow> 'z dstate_scheme \<Rightarrow> bool" where
  "same_data s' s \<longleftrightarrow> dstate.truncate s' = dstate.truncate s"

lemma same_dataD:
  assumes "same_data s' s"
  shows "dbs s' = dbs s" "sysg s' = sysg s" "segs s' = segs s" "data_steps s' = data_steps s"
    "alloc_method_ind s' = alloc_method_ind s" "live s' = live s"
    "dinv s' = dinv s" "alloc_inv s' = alloc_inv s" "whole_array s' = whole_array s"
proof -
  from assms show d: "dbs s' = dbs s" "sysg s' = sysg s" "segs s' = segs s" "data_steps s' = data_steps s"
    "alloc_method_ind s' = alloc_method_ind s"
    by (simp_all add: same_data_def dstate.defs)
  then show "live s' = live s" "dinv s' = dinv s" by (simp_all add: live_def dinv_def)
  moreover from assms have "core_inv s' = core_inv s"
    by (simp add: same_data_def dstate.defs core_inv_def)
  ultimately show "alloc_inv s' = alloc_inv s" using d by (simp add: alloc_inv_def)
  show "whole_array s' = whole_array s" using d by (simp add: whole_array_def)
qed

lemma same_data_chain:
  assumes "same_data s' s"
  shows "dchain s' ix ps = dchain s ix ps" "content s' ps = content s ps" "packed s' ps = packed s ps"
    "full s' ps = full s ps" "at_pos s' ps ix off n = at_pos s ps ix off n"
    "at_fpos s' ps ix off n = at_fpos s ps ix off n"
proof -
  note d = same_dataD [OF assms]
  show c: "dchain s' ix ps = dchain s ix ps" "packed s' ps = packed s ps"
    using d by (intro dchain_frame; simp)+
  show cc: "content s' ps = content s ps" for ps using d by (intro dchain_frame; simp)
  show f: "full s' ps = full s ps" for ps using d by (simp add: full_def)
  show "at_pos s' ps ix off n = at_pos s ps ix off n" "at_fpos s' ps ix off n = at_fpos s ps ix off n"
    using d cc f by (simp_all add: at_pos_def at_fpos_def)
qed

lemma same_data_refl [simp]: "same_data s s"
  by (simp add: same_data_def)

lemma same_data_trans: "same_data s'' s' \<Longrightarrow> same_data s' s \<Longrightarrow> same_data s'' s"
  by (simp add: same_data_def)

lemma same_data_upd [simp]:
  "same_data (upd_mb m f s) s" "same_data (upd_hi h g s) s" "same_data (upd_fd i k u) u"
  "same_data (u\<lparr>errno := e\<rparr>) u" "same_data (u\<lparr>clock_pos := c\<rparr>) u" "same_data (MB_MODIFY m s) s"
  "same_data (set_cursor m ix off s) s" "same_data (grow_file m si s) s"
  by (simp_all add: same_data_def dstate.defs upd_mb_def upd_hi_def upd_fd_def MB_MODIFY_def set_cursor_def
      grow_file_def)

text \<open>What hangs on the data memory's record: the metadata and the process state.\<close>

lemma more_same:
  assumes "dstate.more s' = dstate.more (s :: ('d, 'z) ustate_scheme)"
  shows "mb_arr s' = mb_arr s" "hash_table s' = hash_table s" "fdTable s' = fdTable s" "errno s' = errno s"
    "clock_src s' = clock_src s" "clock_pos s' = clock_pos s" "disk s' = disk s"
  using assms by (cases s, cases s', simp)+

lemma stamp_result:
  assumes "stamp st type s = Inr (st', s')"
  shows "st_size st' = st_size st" "s' = s\<lparr>clock_pos := clock_pos s'\<rparr>"
  using assms by (auto simp: stamp_def clock_gettime_def Let_def split: if_splits prod.splits)

lemma stamp_ok: "type AND (ST_ACS OR ST_MOD OR ST_CHG) \<noteq> 0 \<Longrightarrow> \<exists>st' s'. stamp st type s = Inr (st', s')"
  by (auto simp: stamp_def Let_def split: prod.splits)

lemma stamp_kinds:
  "ST_ACS AND (ST_ACS OR ST_MOD OR ST_CHG) \<noteq> 0"
  "(ST_MOD OR ST_CHG) AND (ST_ACS OR ST_MOD OR ST_CHG) \<noteq> 0"
  "(ST_ACS OR ST_MOD OR ST_CHG) AND (ST_ACS OR ST_MOD OR ST_CHG) \<noteq> 0"
  by (simp_all add: ST_ACS_def ST_MOD_def ST_CHG_def)

lemma stamp_fd_result:
  assumes "type AND (ST_ACS OR ST_MOD OR ST_CHG) \<noteq> 0"
  shows "\<exists>s'. stamp_fd i type s = Inr s' \<and> same_data s' s \<and> mb_arr s' = mb_arr s \<and>
    hash_table s' = hash_table s \<and> mindex (fdTable s' j) = mindex (fdTable s j) \<and>
    exclusive (fdTable s' j) = exclusive (fdTable s j) \<and> fd_empty (fdTable s' j) = fd_empty (fdTable s j) \<and>
    off_db_mapping (fdTable s' j) = off_db_mapping (fdTable s j)"
proof -
  obtain st s1 where st: "stamp (priv_s (fdTable s i)) type s = Inr (st, s1)"
    using stamp_ok [OF assms] by blast
  have s1: "s1 = s\<lparr>clock_pos := clock_pos s1\<rparr>" by (rule stamp_result(2) [OF st])
  then have "same_data s1 s" using same_data_upd(5) by metis
  then have "same_data (upd_fd i f s1) s" for f using same_data_upd(3) same_data_trans by blast
  moreover have "mb_arr s1 = mb_arr s" "hash_table s1 = hash_table s" "fdTable s1 = fdTable s"
    by (subst s1, simp)+
  ultimately show ?thesis using st by (auto simp: stamp_fd_def)
qed

section \<open>Files, descriptors, cursors\<close>

definition file_ok :: "'z mstate_scheme \<Rightarrow> nat \<Rightarrow> nat list \<Rightarrow> bool" where
  "file_ok s m ps \<longleftrightarrow>
     dchain s (first_dbucket (mb_arr s m)) ps \<and> packed s ps \<and> ps \<noteq> [] \<and>
     st_size (mb_s (mb_arr s m)) = length (content s ps)"

definition fd_open :: "('d, 'z) ustate_scheme \<Rightarrow> int \<Rightarrow> nat \<Rightarrow> bool" where
  "fd_open s fd m \<longleftrightarrow>
     0 \<le> fd \<and> fd < MAX_NUM_FD \<and> \<not> exclusive (fdTable s (nat fd)) \<and> \<not> fd_empty (fdTable s (nat fd)) \<and>
     unat (mindex (fdTable s (nat fd))) = m \<and> m < META_BUCKETS"

definition cursor_at :: "'z mstate_scheme \<Rightarrow> nat \<Rightarrow> nat list \<Rightarrow> nat \<Rightarrow> bool" where
  "cursor_at s m ps pos \<longleftrightarrow>
     0 \<le> last_db_offset (mb_arr s m) \<and>
     at_fpos s ps (last_dbucket (mb_arr s m)) (nat (last_db_offset (mb_arr s m))) pos"

text \<open>The files other than \<open>m\<close> whose buckets are not among \<open>A\<close> are as they were.\<close>

definition others_kept :: "nat \<Rightarrow> nat set \<Rightarrow> 'y mstate_scheme \<Rightarrow> 'z mstate_scheme \<Rightarrow> bool" where
  "others_kept m A s s' \<longleftrightarrow>
     (\<forall>m' qs. m' \<noteq> m \<longrightarrow> file_ok s m' qs \<longrightarrow> set qs \<inter> A = {} \<longrightarrow>
        mb_arr s' m' = mb_arr s m' \<and> file_ok s' m' qs \<and> content s' qs = content s qs)"

lemma fd_open_simps:
  assumes "fd_open s fd m"
  shows "FDDES fd = Inr (nat fd)" "fd_mb (nat fd) s = Inr m" "\<not> exclusive (fdTable s (nat fd))"
    "\<not> fd_empty (fdTable s (nat fd))"
  using assms by (auto simp: fd_open_def FDDES_def fd_mb_def MB_PTR_def)

lemma at_fpos_off:
  assumes "at_fpos s ps ix off pos" "dchain s first ps"
  shows "off \<le> DBUCKET_BUF_SIZE"
proof -
  from assms(1) obtain us vs where "ps = us @ unat ix # vs" "off \<le> db_bytes (dbs s (unat ix))"
    by (auto simp: at_fpos_def)
  with dchain_bytes [OF assms(2), of "unat ix"] show ?thesis by simp
qed

lemma cursor_off_at:
  assumes "cursor_at s m ps pos" "dchain s first ps"
  shows "cursor_off (mb_arr s m) = nat (last_db_offset (mb_arr s m))"
proof -
  have "nat (last_db_offset (mb_arr s m)) \<le> 4096" "0 \<le> last_db_offset (mb_arr s m)"
    using assms at_fpos_off by (auto simp: cursor_at_def ufs_config)
  then show ?thesis by (simp add: cursor_off_def)
qed

lemma set_cursor_at:
  assumes "at_fpos s ps ix off pos" "dchain s first ps"
  shows "cursor_at (set_cursor m ix off s) m ps pos"
proof -
  have "off \<le> 4096" using at_fpos_off [OF assms] by (simp add: ufs_config)
  then have "to_int32 (int off) = int off" by (intro to_int32_small) auto
  with assms(1) show ?thesis
    by (simp add: cursor_at_def same_data_chain(6) [OF same_data_upd(7)]) (simp add: set_cursor_def)
qed

lemma cursor_at_cong:
  assumes "cursor_at s m ps pos" "same_data s' s"
    "last_dbucket (mb_arr s' m) = last_dbucket (mb_arr s m)" "last_db_offset (mb_arr s' m) = last_db_offset (mb_arr s m)"
  shows "cursor_at s' m ps pos"
  using assms(1,3,4) same_data_chain(6) [OF assms(2)] by (simp add: cursor_at_def)

lemma file_ok_cong:
  assumes "file_ok s m ps" "same_data s' s"
    "first_dbucket (mb_arr s' m) = first_dbucket (mb_arr s m)"
    "st_size (mb_s (mb_arr s' m)) = st_size (mb_s (mb_arr s m))"
  shows "file_ok s' m ps"
  using assms(1,3,4) same_data_chain [OF assms(2)] by (simp add: file_ok_def)

lemma kept_others:
  assumes "kept A s s1" "mb_arr s1 = mb_arr s" "same_data s' s1" "\<And>m'. m' \<noteq> m \<Longrightarrow> mb_arr s' m' = mb_arr s m'"
  shows "others_kept m A s s'"
  unfolding others_kept_def
proof (intro allI impI)
  fix m' qs assume m': "m' \<noteq> m" and ok: "file_ok s m' qs" and A: "set qs \<inter> A = {}"
  have c: "dchain s (first_dbucket (mb_arr s m')) qs" using ok by (simp add: file_ok_def)
  have q: "dbs s1 q = dbs s q" if "q \<in> set qs" for q
    using that A dchain_in_use [OF c that] assms(1) by (auto simp: kept_def)
  have "live s1 = live s" using assms(1) by (simp add: kept_def)
  note fr = dchain_frame [of qs s1 s, OF q this] and sd = same_data_chain [OF assms(3)]
  show "mb_arr s' m' = mb_arr s m' \<and> file_ok s' m' qs \<and> content s' qs = content s qs"
    using ok assms(4) [OF m'] fr sd by (simp add: file_ok_def)
qed

text \<open>A step that changes the contents of no bucket in use but those in \<open>A\<close>, and the entries of no
  metadata bucket that concern its data but those in \<open>M\<close>.\<close>

definition mem_kept :: "nat set \<Rightarrow> nat set \<Rightarrow> 'y mstate_scheme \<Rightarrow> 'z mstate_scheme \<Rightarrow> bool" where
  "mem_kept A M s s' \<longleftrightarrow>
     (\<forall>x. db_in_use (dbs s x) \<longrightarrow> db_in_use (dbs s' x) \<and> (x \<notin> A \<longrightarrow> dbs s' x = dbs s x)) \<and> live s' = live s \<and>
     (\<forall>k. k \<notin> M \<longrightarrow> first_dbucket (mb_arr s' k) = first_dbucket (mb_arr s k) \<and>
        last_dbucket (mb_arr s' k) = last_dbucket (mb_arr s k) \<and>
        last_db_offset (mb_arr s' k) = last_db_offset (mb_arr s k) \<and> mb_s (mb_arr s' k) = mb_s (mb_arr s k))"

lemma mem_kept_trans: "mem_kept A M s t \<Longrightarrow> mem_kept A M t u \<Longrightarrow> mem_kept A M s u"
  unfolding mem_kept_def by metis

lemma mem_kept_refl [simp]: "mem_kept A M s s"
  by (simp add: mem_kept_def)

lemma mem_kept_same:
  assumes "same_data s' s" "\<And>k. k \<notin> M \<Longrightarrow> mb_arr s' k = mb_arr s k"
  shows "mem_kept A M s s'"
  using same_dataD [OF assms(1)] assms(2) by (simp add: mem_kept_def)

lemma mem_kept_kept:
  assumes "kept A s s1" "mb_arr s1 = mb_arr s" "same_data s' s1" "\<And>k. k \<notin> M \<Longrightarrow> mb_arr s' k = mb_arr s k"
  shows "mem_kept A M s s'"
  using assms(1,2,4) same_dataD [OF assms(3)] by (simp add: mem_kept_def kept_def)

lemma mem_kept_file:
  assumes "mem_kept A M s s'" "file_ok s m ps" "m \<notin> M" "set ps \<inter> A = {}"
  shows "file_ok s' m ps" "content s' ps = content s ps" "full s' (butlast ps) = full s (butlast ps)"
    "cursor_at s m ps pos \<Longrightarrow> cursor_at s' m ps pos"
proof -
  have c: "dchain s (first_dbucket (mb_arr s m)) ps" using assms(2) by (simp add: file_ok_def)
  have q: "dbs s' q = dbs s q" if "q \<in> set ps" for q
    using that assms(1,4) dchain_in_use [OF c that] by (auto simp: mem_kept_def)
  have live: "live s' = live s" using assms(1) by (simp add: mem_kept_def)
  note fr = dchain_frame [of ps s' s, OF q live]
  show "file_ok s' m ps" using assms(1-3) fr by (simp add: file_ok_def mem_kept_def)
  show "content s' ps = content s ps" by (rule fr(2))
  show "full s' (butlast ps) = full s (butlast ps)" using q in_set_butlastD [of _ ps] by (simp add: full_def)
  show "cursor_at s' m ps pos" if "cursor_at s m ps pos"
  proof -
    have "at_fpos s' ps ix off pos" if "at_fpos s ps ix off pos" for ix off
    proof -
      from that obtain us vs where u: "ps = us @ unat ix # vs" "full s us" "off \<le> db_bytes (dbs s (unat ix))"
          "DBUCKET_BUF_SIZE * length us + off = pos" by (auto simp: at_fpos_def)
      with q have "full s' us" "dbs s' (unat ix) = dbs s (unat ix)" by (simp_all add: full_def)
      with u show ?thesis unfolding at_fpos_def by auto
    qed
    with that assms(1,3) show ?thesis by (simp add: cursor_at_def mem_kept_def)
  qed
qed

text \<open>The bookkeeping of \<open>write\<close> and \<open>pwrite\<close> behind the loop.\<close>

lemma grow_file_sel:
  "first_dbucket (mb_arr (grow_file m si s) k) = first_dbucket (mb_arr s k)"
  "last_dbucket (mb_arr (grow_file m si s) k) = last_dbucket (mb_arr s k)"
  "last_db_offset (mb_arr (grow_file m si s) k) = last_db_offset (mb_arr s k)"
  "st_size (mb_s (mb_arr (grow_file m si s) m)) = si + st_size (mb_s (mb_arr s m))"
  "k \<noteq> m \<Longrightarrow> mb_arr (grow_file m si s) k = mb_arr s k"
  by (auto simp: grow_file_def Let_def)

lemma MB_MODIFY_sel:
  "first_dbucket (mb_arr (MB_MODIFY m s) k) = first_dbucket (mb_arr s k)"
  "last_dbucket (mb_arr (MB_MODIFY m s) k) = last_dbucket (mb_arr s k)"
  "last_db_offset (mb_arr (MB_MODIFY m s) k) = last_db_offset (mb_arr s k)"
  "mb_s (mb_arr (MB_MODIFY m s) k) = mb_s (mb_arr s k)"
  "k \<noteq> m \<Longrightarrow> mb_arr (MB_MODIFY m s) k = mb_arr s k"
  by (auto simp: MB_MODIFY_def)

lemma set_cursor_sel:
  "first_dbucket (mb_arr (set_cursor m ix off s) k) = first_dbucket (mb_arr s k)"
  "mb_s (mb_arr (set_cursor m ix off s) k) = mb_s (mb_arr s k)"
  "k \<noteq> m \<Longrightarrow> mb_arr (set_cursor m ix off s) k = mb_arr s k"
  by (auto simp: set_cursor_def)

text \<open>The cache of a descriptor is right when the bucket it remembers is the one at its offset.\<close>

definition cache_ok :: "fd_info \<Rightarrow> nat list \<Rightarrow> bool" where
  "cache_ok fi ps \<longleftrightarrow>
     (let off = oi_offset (off_db_mapping fi 0) in
      off = - 1 \<or> oi_dbindex (off_db_mapping fi 0) = nil_ix \<or>
      (0 \<le> off \<and> nat off div DBUCKET_BUF_SIZE < length ps \<and>
       oi_dbindex (off_db_mapping fi 0) = of_nat (ps ! (nat off div DBUCKET_BUF_SIZE))))"

lemma cache_ok_mono:
  "cache_ok fi ps \<Longrightarrow> off_db_mapping fi' = off_db_mapping fi \<Longrightarrow> cache_ok fi' (ps @ es)"
  by (auto simp: cache_ok_def Let_def nth_append)

section \<open>Writing at the cursor\<close>

lemma write_loop_nothing:
  assumes "write_loop alloc ix off [] n si s = Inr ((n', si', ix', off'), s')"
  shows "n' = n" "ix' = ix" "off' = off"
  using assms by (subst (asm) write_loop.simps, auto simp: andthen_eq_Inr Let_def)+

text \<open>What follows a successful write loop: the cursor, the stamps, the size.\<close>

definition write_done :: "nat \<Rightarrow> nat \<Rightarrow> nat \<Rightarrow> nat \<Rightarrow> u32 \<Rightarrow> nat \<Rightarrow> ('d, 'z) ustate_scheme \<Rightarrow> (int \<times> ('d, 'z) ustate_scheme) res" where
  "write_done i m n size_ind dbindex off s =
     andthen (if n > 0 then
                andthen (stamp_fd i (ST_MOD OR ST_CHG) (set_cursor m dbindex off s)) (\<lambda>s. Inr (MB_MODIFY m s))
              else Inr s)
       (\<lambda>s. Inr (int n, (grow_file m size_ind s)\<lparr>errno := 0\<rparr>))"

lemma ufs_write_open:
  assumes "fd_open s fd m"
  shows "ufs_write os fd buf s =
    andthen (write_loop get_free_dbucket_ix (last_dbucket (mb_arr s m)) (cursor_off (mb_arr s m)) buf 0 0 s)
      (\<lambda>((n, si, ix, off), s1). write_done (nat fd) m n si ix off s1)"
  using fd_open_simps [OF assms] by (simp add: ufs_write_def write_done_def)

lemma write_done_result:
  assumes "write_done i m n si ix off s1 = Inr (r, s')" "at_fpos s1 ps ix off pos" "dchain s1 first ps"
    "n = 0 \<longrightarrow> last_dbucket (mb_arr s1 m) = ix \<and> last_db_offset (mb_arr s1 m) = int off"
  shows "r = int n" "same_data s' s1" "cursor_at s' m ps pos" "first_dbucket (mb_arr s' m) = first_dbucket (mb_arr s1 m)"
    "st_size (mb_s (mb_arr s' m)) = si + st_size (mb_s (mb_arr s1 m))" "\<And>k. k \<noteq> m \<Longrightarrow> mb_arr s' k = mb_arr s1 k"
    "fd_open s' fd k = fd_open s1 fd k" "hash_table s' = hash_table s1"
    "off_db_mapping (fdTable s' (nat fd)) = off_db_mapping (fdTable s1 (nat fd))"
proof -
  define t where "t = (if n > 0 then set_cursor m ix off s1 else s1)"
  obtain u where u: "same_data u t" "mb_arr u = mb_arr t" "hash_table u = hash_table t" "fd_open u fd k = fd_open t fd k"
      "off_db_mapping (fdTable u (nat fd)) = off_db_mapping (fdTable t (nat fd))"
      "s' = (grow_file m si (if n > 0 then MB_MODIFY m u else u))\<lparr>errno := 0\<rparr>" "r = int n"
  proof (cases "n > 0")
    case True
    from stamp_fd_result [OF stamp_kinds(2), of i t "nat fd"] obtain u where
      "stamp_fd i (ST_MOD OR ST_CHG) t = Inr u" "same_data u t" "mb_arr u = mb_arr t" "hash_table u = hash_table t"
      "mindex (fdTable u (nat fd)) = mindex (fdTable t (nat fd))"
      "exclusive (fdTable u (nat fd)) = exclusive (fdTable t (nat fd))"
      "fd_empty (fdTable u (nat fd)) = fd_empty (fdTable t (nat fd))"
      "off_db_mapping (fdTable u (nat fd)) = off_db_mapping (fdTable t (nat fd))" by blast
    with True assms(1) show ?thesis by (intro that [of u]) (auto simp: write_done_def t_def fd_open_def)
  next
    case False
    with assms(1) show ?thesis by (intro that [of s1]) (auto simp: write_done_def t_def)
  qed
  have t: "same_data t s1" "cursor_at t m ps pos" "first_dbucket (mb_arr t k) = first_dbucket (mb_arr s1 k)"
      "mb_s (mb_arr t k) = mb_s (mb_arr s1 k)" "hash_table t = hash_table s1" for k
    using set_cursor_at [OF assms(2,3)] assms(2,4) by (auto simp: t_def cursor_at_def set_cursor_def)
  have "same_data ((grow_file m si v)\<lparr>errno := 0\<rparr>) v" for v :: "('a, 'b) ustate_scheme"
    by (rule same_data_trans [OF same_data_upd(4) same_data_upd(8)])
  moreover have "same_data (if n > 0 then MB_MODIFY m u else u) u" by simp
  ultimately have "same_data s' u" unfolding u(6) using same_data_trans by blast
  moreover have "mb_arr s' = mb_arr (grow_file m si (if n > 0 then MB_MODIFY m u else u))"
    "hash_table s' = hash_table u"
    by (simp_all add: u(6) grow_file_def MB_MODIFY_def)
  ultimately have s': "same_data s' u" "mb_arr s' = mb_arr (grow_file m si (if n > 0 then MB_MODIFY m u else u))"
    "hash_table s' = hash_table u" by simp_all
  show "r = int n" by (rule u(7))
  show sd: "same_data s' s1" by (rule same_data_trans [OF same_data_trans [OF s'(1) u(1)] t(1)])
  show "cursor_at s' m ps pos"
    by (rule cursor_at_cong [OF t(2) same_data_trans [OF s'(1) u(1)]]) (simp_all add: s'(2) grow_file_sel MB_MODIFY_sel u(2))
  show "first_dbucket (mb_arr s' m) = first_dbucket (mb_arr s1 m)"
    "st_size (mb_s (mb_arr s' m)) = si + st_size (mb_s (mb_arr s1 m))"
    using t(3,4) by (simp_all add: s'(2) grow_file_sel MB_MODIFY_sel u(2))
  show "mb_arr s' k = mb_arr s1 k" if "k \<noteq> m" for k
    using that by (auto simp: s'(2) grow_file_sel MB_MODIFY_sel u(2) t_def set_cursor_sel)
  have "fd_open t fd k = fd_open s1 fd k" by (simp add: t_def fd_open_def set_cursor_def upd_mb_def)
  moreover have "fd_open s' fd k = fd_open u fd k"
    by (simp add: u(6) fd_open_def grow_file_def MB_MODIFY_def upd_mb_def)
  ultimately show "fd_open s' fd k = fd_open s1 fd k" using u(4) by simp
  show "hash_table s' = hash_table s1" using s'(3) u(3) t(5) by simp
  show "off_db_mapping (fdTable s' (nat fd)) = off_db_mapping (fdTable s1 (nat fd))"
    using u(5) by (simp add: u(6) t_def grow_file_def MB_MODIFY_def set_cursor_def upd_mb_def)
qed

lemma ufs_write_fresh:
  assumes "alloc_inv s" "fd_open s fd m" "file_ok s m ps" "cursor_at s m ps pos"
    "ufs_write os fd buf s = Inr (r, s')"
  shows "r = int (length buf) \<and> alloc_inv s' \<and> fd_open s' fd m \<and> others_kept m (set ps) s s' \<and>
    mem_kept (set ps) {m} s s' \<and>
    (\<exists>es. (\<forall>e \<in> set es. \<not> db_in_use (dbs s e)) \<and> file_ok s' m (ps @ es) \<and> content s' (ps @ es) = splice (content s ps) pos buf \<and>
       cursor_at s' m (ps @ es) (pos + length buf) \<and> (full s (butlast ps) \<longrightarrow> full s' (butlast (ps @ es))) \<and>
       off_db_mapping (fdTable s' (nat fd)) = off_db_mapping (fdTable s (nat fd)))"
proof -
  let ?ix = "last_dbucket (mb_arr s m)" and ?off = "nat (last_db_offset (mb_arr s m))"
  have f: "dchain s (first_dbucket (mb_arr s m)) ps" "packed s ps" "ps \<noteq> []"
    "st_size (mb_s (mb_arr s m)) = length (content s ps)" using assms(3) by (auto simp: file_ok_def)
  note off = cursor_off_at [OF assms(4) f(1)]
  have at: "at_fpos s ps ?ix ?off pos" and nonneg: "0 \<le> last_db_offset (mb_arr s m)"
    using assms(4) by (auto simp: cursor_at_def)
  obtain n si ix off' s1 where w: "write_loop get_free_dbucket_ix ?ix ?off buf 0 0 s = Inr ((n, si, ix, off'), s1)"
    and d: "write_done (nat fd) m n si ix off' s1 = Inr (r, s')"
    using assms(5) unfolding ufs_write_open [OF assms(2)] off by (auto simp: andthen_eq_Inr)
  from ufs_alloc.write_file [OF assms(1) f(1,2) at w] obtain es where
    e: "dchain s1 (first_dbucket (mb_arr s m)) (ps @ es)" "packed s1 (ps @ es)"
      "content s1 (ps @ es) = splice (content s ps) pos buf" "n = length buf"
      "si + length (content s ps) = length (content s1 (ps @ es))"
      "at_fpos s1 (ps @ es) ix off' (pos + length buf)" "alloc_inv s1" "kept (set ps) s s1"
      "full s (butlast ps) \<longrightarrow> full s1 (butlast (ps @ es))" "\<forall>e \<in> set es. \<not> db_in_use (dbs s e)" by blast
  have more: "dstate.more s1 = dstate.more s" using e(8) by (simp add: kept_def)
  note mb = more_same(1,3) [OF more]
  have "n = 0 \<longrightarrow> last_dbucket (mb_arr s1 m) = ix \<and> last_db_offset (mb_arr s1 m) = int off'"
    using write_loop_nothing [of get_free_dbucket_ix ?ix ?off 0 0 s] w e(4) nonneg mb(1) by auto
  note r = write_done_result [OF d e(6,1) this, unfolded mb(1)]
  note sd = same_data_chain [OF r(2)]
  have "others_kept m (set ps) s s'" by (rule kept_others [OF e(8) mb(1) r(2)]) (simp add: r(6))
  moreover have "file_ok s' m (ps @ es)"
    using e(1-3,5) f(3,4) r(4,5) by (simp add: file_ok_def sd)
  moreover have "fd_open s' fd m" using r(7) [of fd m] assms(2) mb by (simp add: fd_open_def)
  moreover have "alloc_inv s'" using same_dataD(8) [OF r(2)] e(7) by simp
  moreover have "mem_kept (set ps) {m} s s'" by (rule mem_kept_kept [OF e(8) mb(1) r(2)]) (simp add: r(6))
  moreover have "off_db_mapping (fdTable s' (nat fd)) = off_db_mapping (fdTable s (nat fd))" using r(9) [of fd] mb(2) by simp
  ultimately show ?thesis using r(1,3) e(3,4,9,10) sd(2,4) by auto
qed

lemma ufs_write_result:
  assumes "alloc_inv s" "fd_open s fd m" "file_ok s m ps" "cursor_at s m ps pos"
    "ufs_write os fd buf s = Inr (r, s')"
  shows "r = int (length buf) \<and> alloc_inv s' \<and> fd_open s' fd m \<and> others_kept m (set ps) s s' \<and>
    (\<exists>es. file_ok s' m (ps @ es) \<and> content s' (ps @ es) = splice (content s ps) pos buf \<and>
       cursor_at s' m (ps @ es) (pos + length buf) \<and> (full s (butlast ps) \<longrightarrow> full s' (butlast (ps @ es))) \<and>
       (cache_ok (fdTable s (nat fd)) ps \<longrightarrow> cache_ok (fdTable s' (nat fd)) (ps @ es)))"
  using ufs_write_fresh [OF assms] cache_ok_mono by metis

lemma ufs_write_fails:
  assumes "fd_open s fd m" "file_ok s m ps" "cursor_at s m ps pos" "ufs_write os fd buf s = Inl e"
  shows "write_loop get_free_dbucket_ix (last_dbucket (mb_arr s m)) (nat (last_db_offset (mb_arr s m))) buf 0 0 s = Inl e"
proof -
  have f: "dchain s (first_dbucket (mb_arr s m)) ps" using assms(2) by (auto simp: file_ok_def)
  note off = cursor_off_at [OF assms(3) f]
  have "\<exists>x. write_done i m n si ix off s1 = Inr x" for i n si ix off and s1 :: "('a, 'b) ustate_scheme"
  proof -
    obtain u where "stamp_fd i (ST_MOD OR ST_CHG) (set_cursor m ix off s1) = Inr u"
      using stamp_fd_result [OF stamp_kinds(2), of i "set_cursor m ix off s1"] by blast
    then show ?thesis by (simp add: write_done_def)
  qed
  then show ?thesis
    using assms(4) unfolding ufs_write_open [OF assms(1)] off
    by (auto simp: andthen_eq_Inl) (metis sum.distinct(1))
qed

lemma ufs_write_exit:
  assumes "alloc_inv s" "fd_open s fd m" "file_ok s m ps" "cursor_at s m ps pos"
    "ufs_write os fd buf s = Inl e"
  shows "e = Exit"
proof -
  let ?ix = "last_dbucket (mb_arr s m)" and ?off = "nat (last_db_offset (mb_arr s m))"
  have f: "dchain s (first_dbucket (mb_arr s m)) ps" "packed s ps" using assms(3) by (auto simp: file_ok_def)
  obtain us vs where ps: "ps = us @ unat ?ix # vs" "?off \<le> db_bytes (dbs s (unat ?ix))"
    using assms(4) by (auto simp: cursor_at_def at_fpos_def)
  have c: "dchain s ?ix (unat ?ix # vs)" using f(1) dchain_tail unfolding ps(1) by blast
  have pk: "packed s (unat ?ix # vs)" using f(2) unfolding ps(1) packed_append by blast
  show ?thesis
    by (rule ufs_alloc.write_loop_exit [OF assms(1) c pk ps(2) ufs_write_fails [OF assms(2-5)]])
qed

lemma ufs_write_space:
  assumes "alloc_inv s" "fd_open s fd m" "file_ok s m ps" "cursor_at s m ps pos"
    "ufs_write os fd buf s = Inl e"
  shows "DBUCKET_BUF_SIZE * (length ps + (if whole_array s then free_buckets s else 0)) < pos + length buf"
proof -
  have f: "dchain s (first_dbucket (mb_arr s m)) ps" "packed s ps" using assms(3) by (auto simp: file_ok_def)
  have at: "at_fpos s ps (last_dbucket (mb_arr s m)) (nat (last_db_offset (mb_arr s m))) pos"
    using assms(4) by (simp add: cursor_at_def)
  show ?thesis
    by (rule ufs_whole.write_file_space [OF assms(1) f at ufs_write_fails [OF assms(2-5)]])
qed

section \<open>Reading at the cursor\<close>

lemma at_pos_full:
  assumes "at_pos s ps ix off n" "full s (butlast ps)"
  shows "at_fpos s ps ix off n"
proof -
  from assms(1) obtain us vs where u: "ps = us @ unat ix # vs" "off \<le> db_bytes (dbs s (unat ix))"
      "length (content s us) + off = n" by (auto simp: at_pos_def)
  with assms(2) have "full s us" by (simp add: butlast_append)
  with u length_content_full [OF this] show ?thesis unfolding at_fpos_def by auto
qed

lemma loop_fuel_enough:
  assumes "dinv s" "dchain s ix ps"
  shows "\<exists>k. loop_fuel c s = Suc k \<and> length ps \<le> k"
proof -
  have "Suc (live s) \<le> loop_fuel c s - 1" by (simp add: loop_fuel_def)
  moreover have "0 < loop_fuel c s" by (simp add: loop_fuel_def)
  ultimately show ?thesis
    using dchain_length [OF assms(2,1)] by (intro exI [of _ "loop_fuel c s - 1"]) auto
qed

lemma ufs_read_result:
  fixes count :: nat
  assumes "dinv s" "fd_open s fd m" "file_ok s m ps" "cursor_at s m ps pos"
  defines "out \<equiv> take count (drop pos (content s ps))"
  shows "\<exists>s'. ufs_read os fd count s = Inr ((int (length out), out), s') \<and> same_data s' s \<and>
    fd_open s' fd m \<and> file_ok s' m ps \<and> (\<forall>k. k \<noteq> m \<longrightarrow> mb_arr s' k = mb_arr s k) \<and>
    off_db_mapping (fdTable s' (nat fd)) = off_db_mapping (fdTable s (nat fd)) \<and>
    (full s (butlast ps) \<longrightarrow> cursor_at s' m ps (pos + length out))"
proof -
  let ?ix = "last_dbucket (mb_arr s m)" and ?off = "nat (last_db_offset (mb_arr s m))"
  have f: "dchain s (first_dbucket (mb_arr s m)) ps" using assms(3) by (auto simp: file_ok_def)
  note off = cursor_off_at [OF assms(4) f]
  obtain us vs where ps: "ps = us @ unat ?ix # vs" "?off \<le> db_bytes (dbs s (unat ?ix))" "full s us"
      "DBUCKET_BUF_SIZE * length us + ?off = pos"
    using assms(4) by (auto simp: cursor_at_def at_fpos_def)
  have c: "dchain s ?ix (unat ?ix # vs)" using f dchain_tail unfolding ps(1) by blast
  have us: "length (content s us) = DBUCKET_BUF_SIZE * length us" by (rule length_content_full [OF ps(3)])
  have "drop pos (content s ps) = drop ?off (content s (unat ?ix # vs))"
    unfolding ps(1) content_simps(3) drop_append ps(4) [symmetric] us by (simp add: us)
  then have out: "out = take count (drop ?off (content s (unat ?ix # vs)))" by (simp add: out_def)
  obtain k where k: "loop_fuel count s = Suc k" "length (unat ?ix # vs) \<le> k"
    using loop_fuel_enough [OF assms(1) c] by blast
  from read_loop_chain [OF assms(1) c ps(2), of k count "[]"] k(2) obtain ix' off' where
    r: "read_loop (Suc k) ?ix ?off count [] s = Inr ((out, ix', off'), s)"
    and at: "at_pos s (unat ?ix # vs) ix' off' (?off + length out)" unfolding out by auto
  have at': "at_pos s ps ix' off' (pos + length out)"
    using at_pos_append [OF at, of us, folded ps(1), unfolded us] ps(4) by (simp add: add.assoc [symmetric])
  let ?t = "if length out > 0 then set_cursor m ix' off' s else s"
  obtain u where u: "(if length out > 0 then stamp_fd (nat fd) ST_ACS ?t else Inr ?t) = Inr u"
      "same_data u ?t" "mb_arr u = mb_arr ?t" "fd_open u fd m = fd_open ?t fd m"
      "off_db_mapping (fdTable u (nat fd)) = off_db_mapping (fdTable ?t (nat fd))"
    using stamp_fd_result [OF stamp_kinds(1), of "nat fd" ?t "nat fd"]
    by (cases "length out > 0") (auto simp: fd_open_def)
  have res: "ufs_read os fd count s = Inr ((int (length out), out), u\<lparr>errno := 0\<rparr>)"
    using fd_open_simps [OF assms(2)] r k(1) off u(1)
    by (simp add: ufs_read_def split: if_splits)
  have sd: "same_data (u\<lparr>errno := 0\<rparr>) s"
    by (rule same_data_trans [OF same_data_trans [OF same_data_upd(4) u(2)]]) simp
  have cur: "cursor_at (u\<lparr>errno := 0\<rparr>) m ps (pos + length out)" if "full s (butlast ps)"
  proof -
    have "cursor_at ?t m ps (pos + length out)"
      using set_cursor_at [OF at_pos_full [OF at' that] f] assms(4) by auto
    then show ?thesis
      by (rule cursor_at_cong [OF _ same_data_trans [OF same_data_upd(4) u(2)]]) (simp_all add: u(3))
  qed
  have "file_ok (u\<lparr>errno := 0\<rparr>) m ps"
    by (rule file_ok_cong [OF assms(3) sd]) (simp_all add: u(3) set_cursor_sel)
  moreover have "fd_open (u\<lparr>errno := 0\<rparr>) fd m"
    using u(4) assms(2) by (auto simp: fd_open_def set_cursor_def upd_mb_def)
  moreover have "off_db_mapping (fdTable (u\<lparr>errno := 0\<rparr>) (nat fd)) = off_db_mapping (fdTable s (nat fd))"
    using u(5) by (simp add: set_cursor_def upd_mb_def)
  ultimately show ?thesis using res sd cur u(3) by (auto simp: set_cursor_sel)
qed

section \<open>Reading and writing at an offset\<close>

lemma cache_lookup_eq:
  "cache_lookup fi offset =
     (if oi_offset (off_db_mapping fi 0) = offset then oi_dbindex (off_db_mapping fi 0) else nil_ix)"
  by (simp add: cache_lookup_def ufs_config)

lemma offset_args:
  assumes "pos < 2 ^ 31 * DBUCKET_BUF_SIZE"
  shows "nat (to_int32 (c_div (int pos) (int DBUCKET_BUF_SIZE))) = pos div DBUCKET_BUF_SIZE"
    "bucket_off (int pos) = pos mod DBUCKET_BUF_SIZE"
proof -
  have d: "c_div (int pos) (int DBUCKET_BUF_SIZE) = int (pos div DBUCKET_BUF_SIZE)"
    by (simp add: c_div_nonneg zdiv_int)
  have "pos div DBUCKET_BUF_SIZE < 2 ^ 31" using assms by (simp add: less_mult_imp_div_less)
  then show "nat (to_int32 (c_div (int pos) (int DBUCKET_BUF_SIZE))) = pos div DBUCKET_BUF_SIZE"
    unfolding d by (subst to_int32_small) auto
  have "c_rem (int pos) (int DBUCKET_BUF_SIZE) = int (pos mod DBUCKET_BUF_SIZE)"
    by (simp add: c_rem_nonneg zmod_int)
  moreover have "pos mod DBUCKET_BUF_SIZE < 2 ^ 64"
    using mod_less_divisor [OF buf_size_pos, of pos] by (simp add: ufs_config)
  ultimately show "bucket_off (int pos) = pos mod DBUCKET_BUF_SIZE" by (simp add: bucket_off_def)
qed

lemma find_bucket_result:
  assumes "dinv s" "file_ok s m ps" "cache_ok (fdTable s i) ps" "pos \<le> length (content s ps)"
    "pos < 2 ^ 31 * DBUCKET_BUF_SIZE"
  shows "\<exists>s'. find_bucket i m (int pos) s = Inr (Some (ix_of (drop (pos div DBUCKET_BUF_SIZE) ps)), s') \<and>
    same_data s' s \<and> mb_arr s' = mb_arr s \<and> mindex (fdTable s' j) = mindex (fdTable s j) \<and>
    exclusive (fdTable s' j) = exclusive (fdTable s j) \<and> fd_empty (fdTable s' j) = fd_empty (fdTable s j) \<and>
    cache_ok (fdTable s' i) ps"
proof -
  let ?k = "pos div DBUCKET_BUF_SIZE" and ?fi = "fdTable s i"
  have f: "dchain s (first_dbucket (mb_arr s m)) ps" "packed s ps" using assms(2) by (auto simp: file_ok_def)
  note seek = pread_file(1) [OF assms(1) f assms(4)]
  show ?thesis
  proof (cases "cache_lookup ?fi (int pos) = nil_ix")
    case True
    have "cache_ok (cache_store (int pos) (ix_of (drop ?k ps)) ?fi) ps"
    proof -
      have "ix_of (drop ?k ps) = (if ?k < length ps then of_nat (ps ! ?k) else nil_ix)"
        using Cons_nth_drop_Suc [of ?k ps, symmetric] by simp
      with assms(3) show ?thesis by (cases "off_db_ptr ?fi") (auto simp: cache_ok_def cache_store_def Let_def)
    qed
    with True seek show ?thesis
      by (simp add: find_bucket_def offset_args [OF assms(5)] Let_def) (simp add: cache_store_def)
  next
    case False
    then have hit: "oi_offset (off_db_mapping ?fi 0) = int pos" "oi_dbindex (off_db_mapping ?fi 0) \<noteq> nil_ix"
      by (auto simp: cache_lookup_eq split: if_splits)
    with assms(3) have "oi_dbindex (off_db_mapping ?fi 0) = of_nat (ps ! ?k)" "?k < length ps"
      by (auto simp: cache_ok_def Let_def)
    moreover from this(2) have "drop ?k ps = ps ! ?k # drop (Suc ?k) ps" by (simp add: Cons_nth_drop_Suc)
    ultimately show ?thesis using False hit assms(3) by (simp add: find_bucket_def cache_lookup_eq)
  qed
qed

lemma ufs_pread_result:
  fixes count :: nat
  assumes "dinv s" "fd_open s fd m" "file_ok s m ps" "cache_ok (fdTable s (nat fd)) ps"
    "pos \<le> length (content s ps)" "pos < 2 ^ 31 * DBUCKET_BUF_SIZE"
  defines "out \<equiv> take count (drop pos (content s ps))"
  shows "\<exists>s'. ufs_pread os fd count (int pos) s = Inr ((int (length out), out), s') \<and> same_data s' s \<and>
    fd_open s' fd m \<and> mb_arr s' = mb_arr s \<and> cache_ok (fdTable s' (nat fd)) ps"
proof -
  have f: "dchain s (first_dbucket (mb_arr s m)) ps" "packed s ps" using assms(3) by (auto simp: file_ok_def)
  obtain s1 where s1: "find_bucket (nat fd) m (int pos) s = Inr (Some (ix_of (drop (pos div DBUCKET_BUF_SIZE) ps)), s1)"
      "same_data s1 s" "mb_arr s1 = mb_arr s" "fd_open s1 fd m" "cache_ok (fdTable s1 (nat fd)) ps"
    using find_bucket_result [OF assms(1,3-6), of "nat fd"] assms(2) by (auto simp: fd_open_def)
  note d = same_dataD [OF s1(2)] and sd = same_data_chain [OF s1(2)]
  have c1: "dchain s1 (first_dbucket (mb_arr s m)) ps" "packed s1 ps" "pos \<le> length (content s1 ps)" "dinv s1"
    using f assms(1,5) d sd by simp_all
  obtain k where k: "loop_fuel count s1 = Suc k" "length ps \<le> Suc k"
    using loop_fuel_enough [OF c1(4,1), of count] by auto
  note rd = pread_file(2) [OF c1(4,1-3) k(2), of count, folded k(1)]
  obtain u where u: "(if length out > 0 then stamp_fd (nat fd) ST_ACS s1 else Inr s1) = Inr u"
      "same_data u s1" "mb_arr u = mb_arr s1" "fd_open u fd m = fd_open s1 fd m"
      "off_db_mapping (fdTable u (nat fd)) = off_db_mapping (fdTable s1 (nat fd))"
    using stamp_fd_result [OF stamp_kinds(1), of "nat fd" s1 "nat fd"]
    by (cases "length out > 0") (auto simp: fd_open_def)
  have "take count (drop pos (content s1 ps)) = out" by (simp add: out_def sd)
  then have "ufs_pread os fd count (int pos) s = Inr ((int (length out), out), u\<lparr>errno := 0\<rparr>)"
    using fd_open_simps [OF assms(2)] s1(1) rd offset_args(2) [OF assms(6)] u(1)
    by (simp add: ufs_pread_def)
  moreover have "same_data (u\<lparr>errno := 0\<rparr>) s"
    by (rule same_data_trans [OF same_data_upd(4) same_data_trans [OF u(2) s1(2)]])
  moreover have "cache_ok (fdTable (u\<lparr>errno := 0\<rparr>) (nat fd)) ps" using s1(5) u(5) by (simp add: cache_ok_def)
  ultimately show ?thesis using u(3,4) s1(3,4) by (auto simp: fd_open_def)
qed

lemma ufs_pwrite_fresh:
  assumes "alloc_inv s" "fd_open s fd m" "file_ok s m ps" "cache_ok (fdTable s (nat fd)) ps"
    "pos \<le> length (content s ps)" "pos < 2 ^ 31 * DBUCKET_BUF_SIZE" "pos div DBUCKET_BUF_SIZE < length ps"
    "ufs_pwrite os fd buf (int pos) s = Inr (r, s')"
  shows "r = int (length buf) \<and> alloc_inv s' \<and> fd_open s' fd m \<and> others_kept m (set ps) s s' \<and>
    mem_kept (set ps) {m} s s' \<and> cache_ok (fdTable s' (nat fd)) ps \<and>
    last_dbucket (mb_arr s' m) = last_dbucket (mb_arr s m) \<and> last_db_offset (mb_arr s' m) = last_db_offset (mb_arr s m) \<and>
    (\<exists>es. (\<forall>e \<in> set es. \<not> db_in_use (dbs s e)) \<and> file_ok s' m (ps @ es) \<and>
       content s' (ps @ es) = splice (content s ps) pos buf \<and> (full s (butlast ps) \<longrightarrow> full s' (butlast (ps @ es))))"
proof -
  have dinv: "dinv s" using assms(1) by (simp add: alloc_inv_def)
  have f: "dchain s (first_dbucket (mb_arr s m)) ps" "packed s ps" "ps \<noteq> []"
    "st_size (mb_s (mb_arr s m)) = length (content s ps)" using assms(3) by (auto simp: file_ok_def)
  obtain s1 where s1: "find_bucket (nat fd) m (int pos) s = Inr (Some (ix_of (drop (pos div DBUCKET_BUF_SIZE) ps)), s1)"
      "same_data s1 s" "mb_arr s1 = mb_arr s" "fd_open s1 fd m" "cache_ok (fdTable s1 (nat fd)) ps"
    using find_bucket_result [OF dinv assms(3-6), of "nat fd"] assms(2) by (auto simp: fd_open_def)
  note d1 = same_dataD [OF s1(2)] and sd1 = same_data_chain [OF s1(2)]
  obtain n si s2 where w: "pwrite_loop get_free_dbucket_ix (ix_of (drop (pos div DBUCKET_BUF_SIZE) ps))
        (pos mod DBUCKET_BUF_SIZE) buf 0 0 s1 = Inr ((n, si), s2)"
    and rest: "andthen (if n > 0 then andthen (stamp_fd (nat fd) (ST_MOD OR ST_CHG) s2) (\<lambda>s. Inr (MB_MODIFY m s))
        else Inr s2) (\<lambda>s. Inr (int n, (grow_file m si s)\<lparr>errno := 0\<rparr>)) = Inr (r, s')"
    using assms(8) fd_open_simps [OF assms(2)] s1(1) offset_args(2) [OF assms(6)]
    by (auto simp: ufs_pwrite_def andthen_eq_Inr)
  have c1: "alloc_inv s1" "dchain s1 (first_dbucket (mb_arr s m)) ps" "packed s1 ps" "pos \<le> length (content s1 ps)"
    using assms(1,5) f d1 sd1 by simp_all
  from ufs_alloc.pwrite_file [OF c1 assms(7) w] obtain es where
    e: "dchain s2 (first_dbucket (mb_arr s m)) (ps @ es)" "packed s2 (ps @ es)"
      "content s2 (ps @ es) = splice (content s ps) pos buf" "n = length buf"
      "si + length (content s ps) = length (content s2 (ps @ es))" "alloc_inv s2" "kept (set ps) s1 s2"
      "\<forall>e \<in> set es. \<not> db_in_use (dbs s1 e)" "full s1 (butlast ps) \<longrightarrow> full s2 (butlast (ps @ es))"
    unfolding sd1 by blast
  have more: "dstate.more s2 = dstate.more s1" using e(7) by (simp add: kept_def)
  note mb = more_same(1,3) [OF more]
  obtain u where u: "same_data u s2" "mb_arr u = mb_arr s2" "fd_open u fd m = fd_open s2 fd m"
      "off_db_mapping (fdTable u (nat fd)) = off_db_mapping (fdTable s2 (nat fd))"
      "s' = (grow_file m si (if n > 0 then MB_MODIFY m u else u))\<lparr>errno := 0\<rparr>" "r = int n"
  proof (cases "n > 0")
    case True
    from stamp_fd_result [OF stamp_kinds(2), of "nat fd" s2 "nat fd"] obtain u where
      "stamp_fd (nat fd) (ST_MOD OR ST_CHG) s2 = Inr u" "same_data u s2" "mb_arr u = mb_arr s2"
      "mindex (fdTable u (nat fd)) = mindex (fdTable s2 (nat fd))"
      "exclusive (fdTable u (nat fd)) = exclusive (fdTable s2 (nat fd))"
      "fd_empty (fdTable u (nat fd)) = fd_empty (fdTable s2 (nat fd))"
      "off_db_mapping (fdTable u (nat fd)) = off_db_mapping (fdTable s2 (nat fd))" by blast
    with True rest show ?thesis by (intro that [of u]) (auto simp: fd_open_def)
  next
    case False
    with rest show ?thesis by (intro that [of s2]) auto
  qed
  have "same_data ((grow_file m si v)\<lparr>errno := 0\<rparr>) v" for v :: "('a, 'b) ustate_scheme"
    by (rule same_data_trans [OF same_data_upd(4) same_data_upd(8)])
  moreover have "same_data (if n > 0 then MB_MODIFY m u else u) u" by simp
  ultimately have sd: "same_data s' s2" unfolding u(5) using same_data_trans u(1) by blast
  have arr: "mb_arr s' = mb_arr (grow_file m si (if n > 0 then MB_MODIFY m u else u))" by (simp add: u(5))
  have "others_kept m (set ps) s s'"
  proof -
    have "others_kept m (set ps) s1 s'"
      by (rule kept_others [OF e(7) mb(1) sd]) (auto simp: arr grow_file_sel MB_MODIFY_sel u(2) mb)
    moreover have "file_ok s1 m' qs = file_ok s m' qs" for m' qs using sd1 s1(3) by (simp add: file_ok_def)
    ultimately show ?thesis using sd1(2) s1(3) unfolding others_kept_def by simp
  qed
  moreover have "mem_kept (set ps) {m} s s'"
  proof -
    have "mem_kept (set ps) {m} s1 s'"
      by (rule mem_kept_kept [OF e(7) mb(1) sd]) (auto simp: arr grow_file_sel MB_MODIFY_sel u(2) mb)
    moreover have "mem_kept (set ps) {m} s s1" by (rule mem_kept_same [OF s1(2)]) (simp add: s1(3))
    ultimately show ?thesis by (rule mem_kept_trans [rotated])
  qed
  moreover have "cache_ok (fdTable s' (nat fd)) ps"
    using s1(5) u(4) mb by (simp add: u(5) cache_ok_def grow_file_def MB_MODIFY_def upd_mb_def)
  moreover have "last_dbucket (mb_arr s' m) = last_dbucket (mb_arr s m)"
      "last_db_offset (mb_arr s' m) = last_db_offset (mb_arr s m)"
    by (simp_all add: arr grow_file_sel MB_MODIFY_sel u(2) mb s1(3))
  moreover have "file_ok s' m (ps @ es)"
    using e(1-3,5) f(3,4) same_data_chain [OF sd]
    by (simp add: file_ok_def arr grow_file_sel MB_MODIFY_sel u(2) mb s1(3))
  moreover have "fd_open s' fd m"
  proof -
    have "fd_open s2 fd m" using s1(4) mb by (simp add: fd_open_def)
    then have "fd_open u fd m" using u(3) by simp
    then show ?thesis by (simp add: u(5) fd_open_def grow_file_def MB_MODIFY_def upd_mb_def)
  qed
  moreover have "alloc_inv s'" using same_dataD(8) [OF sd] e(6) by simp
  moreover have "full s (butlast ps) \<longrightarrow> full s' (butlast (ps @ es))" "\<forall>e \<in> set es. \<not> db_in_use (dbs s e)"
    using e(8,9) d1(1) sd1(4) same_data_chain(4) [OF sd] same_data_chain(4) [OF s1(2)] by simp_all
  ultimately show ?thesis using u(6) e(3,4) same_data_chain(2) [OF sd] by auto
qed

lemma ufs_pwrite_result:
  assumes "alloc_inv s" "fd_open s fd m" "file_ok s m ps" "cache_ok (fdTable s (nat fd)) ps"
    "pos \<le> length (content s ps)" "pos < 2 ^ 31 * DBUCKET_BUF_SIZE" "pos div DBUCKET_BUF_SIZE < length ps"
    "ufs_pwrite os fd buf (int pos) s = Inr (r, s')"
  shows "r = int (length buf) \<and> alloc_inv s' \<and> fd_open s' fd m \<and> others_kept m (set ps) s s' \<and>
    (\<exists>es. file_ok s' m (ps @ es) \<and> content s' (ps @ es) = splice (content s ps) pos buf)"
  using ufs_pwrite_fresh [OF assms] by blast

lemma ufs_pwrite_exit:
  assumes "alloc_inv s" "fd_open s fd m" "file_ok s m ps" "cache_ok (fdTable s (nat fd)) ps"
    "pos \<le> length (content s ps)" "pos < 2 ^ 31 * DBUCKET_BUF_SIZE" "pos div DBUCKET_BUF_SIZE < length ps"
    "ufs_pwrite os fd buf (int pos) s = Inl e"
  shows "e = Exit"
proof -
  let ?k = "pos div DBUCKET_BUF_SIZE" and ?off = "pos mod DBUCKET_BUF_SIZE"
  let ?ix = "ix_of (drop ?k ps)"
  have dinv: "dinv s" using assms(1) by (simp add: alloc_inv_def)
  obtain s1 where s1: "find_bucket (nat fd) m (int pos) s = Inr (Some ?ix, s1)" "same_data s1 s"
    using find_bucket_result [OF dinv assms(3-6), of "nat fd"] by blast
  note sd = same_data_chain [OF s1(2)] and d = same_dataD [OF s1(2)]
  have f: "dchain s1 (first_dbucket (mb_arr s m)) ps" "packed s1 ps" "pos \<le> length (content s1 ps)" "alloc_inv s1"
    using assms(1,3,5) sd d by (auto simp: file_ok_def)
  note o = offset_split [OF f(2,1,3)]
  have dp: "drop ?k ps = ps ! ?k # drop (Suc ?k) ps" using assms(7) by (simp add: Cons_nth_drop_Suc)
  have c: "dchain s1 ?ix (ps ! ?k # drop (Suc ?k) ps)" using dchain_drop [OF f(1), of ?k] dp by simp
  have "packed s1 (take ?k ps @ drop ?k ps)" using f(2) by simp
  then have pk: "packed s1 (ps ! ?k # drop (Suc ?k) ps)" unfolding dp packed_append by blast
  have "\<exists>x. andthen (if n > 0 then andthen (stamp_fd i (ST_MOD OR ST_CHG) t) (\<lambda>s. Inr (MB_MODIFY m s)) else Inr t)
      (\<lambda>s. Inr (int n, (grow_file m si s)\<lparr>errno := 0\<rparr>)) = Inr x" for i n si and t :: "('a, 'b) ustate_scheme"
  proof -
    obtain u where "stamp_fd i (ST_MOD OR ST_CHG) t = Inr u"
      using stamp_fd_result [OF stamp_kinds(2), of i t] by blast
    then show ?thesis by simp
  qed
  note fin = this
  have "pwrite_loop get_free_dbucket_ix ?ix ?off buf 0 0 s1 = Inl e"
  proof (cases "pwrite_loop get_free_dbucket_ix ?ix ?off buf 0 0 s1")
    case (Inl e')
    then show ?thesis
      using assms(8) fd_open_simps [OF assms(2)] s1(1) offset_args(2) [OF assms(6)] by (simp add: ufs_pwrite_def)
  next
    case (Inr y)
    obtain n si t where "y = ((n, si), t)" by (metis surj_pair)
    then show ?thesis
      using assms(8) fd_open_simps [OF assms(2)] s1(1) offset_args(2) [OF assms(6)] Inr fin [of n "nat fd" t si]
      by (simp add: ufs_pwrite_def)
  qed
  then have "write_loop get_free_dbucket_ix ?ix ?off buf 0 0 s1 = Inl e"
    using ufs_alloc.pwrite_loop_is_write_loop [OF f(4) c pk o(3) [OF assms(7)], of buf 0 0]
    by (auto simp: andthen_eq_Inl)
  from ufs_alloc.write_loop_exit [OF f(4) c pk o(3) [OF assms(7)] this] show ?thesis .
qed

end
