(* ===== verification/Ufs_Posix.thy ===== *)
theory Ufs_Posix
  imports Ufs_Files
begin

text \<open>
  Properties of the system calls on open files, with the states they are evaluated on.
\<close>

unbundle bit_operations_syntax

section \<open>States to evaluate on\<close>

definition zero_stat :: stat where
  "zero_stat = mb_s free_mb"

definition fd_slot :: fd_info where
  "fd_slot = \<lparr>mindex = - 1, fd_flags = 0, priv_s = zero_stat, stamp_type = 0,
     off_db_mapping = (\<lambda>_. \<lparr>oi_offset = - 1, oi_dbindex = 0\<rparr>), off_db_ptr = 0, exclusive = False, fd_empty = True\<rparr>"

text \<open>A process that has just called \<open>init_fdTable\<close>, on an empty file system.\<close>

definition boot_ustate :: "unit ustate" where
  "boot_ustate = boot_mstate
     \<lparr>fdTable = (\<lambda>_. fd_slot), errno = 0, calling_shm_open = False, calling_shm_unlink = False,
      clock_src = (\<lambda>k. \<lparr>tv_sec = int k, tv_nsec = 0\<rparr>), clock_pos = 1, disk = ()\<rparr>"

text \<open>An operating system without files: every call fails.\<close>

definition null_os :: "unit os" where
  "null_os = \<lparr>os_stat = (\<lambda>_ d. (((- 1, zero_stat), Some 2), d)), os_lstat = (\<lambda>_ d. (((- 1, zero_stat), Some 2), d)),
     os_fstat = (\<lambda>_ d. (((- 1, zero_stat), Some 9), d)), os_open = (\<lambda>_ _ _ d. ((- 1, Some 2), d)),
     os_close = (\<lambda>_ d. ((- 1, Some 9), d)), os_read = (\<lambda>_ _ d. (((- 1, []), Some 9), d)),
     os_write = (\<lambda>_ _ d. ((- 1, Some 9), d)), os_pread = (\<lambda>_ _ _ d. (((- 1, []), Some 9), d)),
     os_pwrite = (\<lambda>_ _ _ d. ((- 1, Some 9), d)), os_unlink = (\<lambda>_ d. ((- 1, Some 2), d)),
     os_rename = (\<lambda>_ _ d. ((- 1, Some 2), d)), os_getcwd = (\<lambda>_. Some ''/'')\<rparr>"

text \<open>Descriptor 1024 open on the file of metadata bucket 0, which has the \<open>n\<close> bytes 7, 7, \<dots> in data
  bucket 0 and the cursor at its start.\<close>

definition demo_file :: "nat \<Rightarrow> unit ustate" where
  "demo_file n =
     upd_fd 1024 (\<lambda>fi. fi\<lparr>fd_empty := False, mindex := 0\<rparr>)
       (upd_mb 0 (\<lambda>mb. mb\<lparr>mb_in_use := True, first_dbucket := 0, last_dbucket := 0, last_db_offset := 0,
                           mb_s := (mb_s mb)\<lparr>st_size := n\<rparr>\<rparr>)
         (upd_db 0 (\<lambda>db. db\<lparr>db_in_use := True, db_bytes := n, db_buf := (\<lambda>_. 7)\<rparr>) boot_ustate))"

lemma boot_ustate_data [simp]: "dbs boot_ustate p = free_db" "live boot_ustate = 524288"
  by (simp_all add: boot_ustate_def boot_mstate_def boot_dstate_def live_def ufs_config)

lemma boot_ustate_inv: "alloc_inv boot_ustate" "minv boot_ustate"
  unfolding boot_ustate_def using boot_minv by (simp_all add: boot_mstate_def boot_alloc_inv)

lemma boot_space: "whole_array boot_ustate" "0 < free_buckets boot_ustate"
proof -
  show "whole_array boot_ustate"
    by (simp add: whole_array_def boot_ustate_def boot_mstate_def boot_dstate_def tot_buckets_def ufs_config)
  show "0 < free_buckets boot_ustate"
    using free_buckets_zero [of boot_ustate] by (auto simp: free_db_def dest: spec [of _ 0])
qed

lemma demo_dbs: "dbs (demo_file n) p = (if p = 0 then free_db\<lparr>db_in_use := True, db_bytes := n, db_buf := (\<lambda>_. 7)\<rparr> else free_db)"
  "live (demo_file n) = 524288"
proof -
  show "live (demo_file n) = 524288" using boot_ustate_data(2) by (simp add: demo_file_def live_def)
qed (simp add: demo_file_def)

lemma demo_alloc_inv: "alloc_inv (demo_file n)"
proof -
  let ?u = "upd_db 0 (\<lambda>db. db\<lparr>db_in_use := True, db_bytes := n, db_buf := (\<lambda>_. 7)\<rparr>) boot_ustate"
  have "dinv boot_ustate" using boot_ustate_inv(1) by (simp add: alloc_inv_def)
  then have "dinv ?u" by (auto simp: dinv_def free_db_def)
  with alloc_inv_upd_db [OF boot_ustate_inv(1)] have "alloc_inv ?u" by blast
  moreover have "same_data (demo_file n) ?u"
    unfolding demo_file_def using same_data_trans same_data_upd(1,3) by blast
  ultimately show ?thesis using same_dataD(8) by blast
qed

lemma demo_fd_open: "fd_open (demo_file n) 1024 0"
proof -
  have "fdTable boot_ustate 1024 = fd_slot"
    by (simp add: boot_ustate_def boot_mstate_def boot_dstate_def)
  then have "fdTable (demo_file n) 1024 = fd_slot\<lparr>fd_empty := False, mindex := 0\<rparr>"
    by (simp add: demo_file_def upd_mb_def upd_db_def)
  then show ?thesis by (simp add: fd_open_def fd_slot_def ufs_config)
qed

lemma demo_cache: "cache_ok (fdTable (demo_file n) 1024) ps"
proof -
  have "fdTable boot_ustate 1024 = fd_slot"
    by (simp add: boot_ustate_def boot_mstate_def boot_dstate_def)
  then show ?thesis by (simp add: demo_file_def upd_mb_def upd_db_def cache_ok_def fd_slot_def)
qed

lemma demo_mb: "first_dbucket (mb_arr (demo_file n) 0) = 0" "last_dbucket (mb_arr (demo_file n) 0) = 0"
  "last_db_offset (mb_arr (demo_file n) 0) = 0" "st_size (mb_s (mb_arr (demo_file n) 0)) = n"
  by (simp_all add: demo_file_def)

lemma demo_content: "content (demo_file n) [0] = replicate n 7"
  by (rule nth_equalityI) (simp_all add: used_def demo_dbs)

lemma demo_content5: "content (demo_file 5) [0] = [7, 7, 7, 7, 7]"
  unfolding demo_content by (simp add: eval_nat_numeral)

lemma demo_bytes: "db_bytes (dbs (demo_file n) 0) = n"
  unfolding demo_dbs by simp

lemma demo_file_ok: "n \<le> DBUCKET_BUF_SIZE \<Longrightarrow> file_ok (demo_file n) 0 [0]"
  using demo_content [of n] by (simp add: file_ok_def demo_mb demo_dbs free_db_def)

lemma demo_cursor: "cursor_at (demo_file n) 0 [0] 0"
  by (simp add: cursor_at_def demo_mb at_fpos_here)

lemma demo_full: "full (demo_file n) (butlast [0])"
  by simp

lemma demo_ok: "file_ok (demo_file 5) 0 [0]"
  by (rule demo_file_ok) (simp add: ufs_config)

lemma demo_space: "whole_array (demo_file n)" "0 < free_buckets (demo_file n)"
proof -
  show "whole_array (demo_file n)"
    using boot_space(1) by (simp add: whole_array_def demo_file_def upd_mb_def upd_db_def upd_fd_def)
  have "\<not> db_in_use (dbs (demo_file n) 1)" "1 < live (demo_file n)"
    by (simp_all add: demo_dbs free_db_def)
  then show "0 < free_buckets (demo_file n)" using free_buckets_zero [of "demo_file n"] by auto
qed

text \<open>Three bytes written over the first three of five.\<close>

lemma demo_write: "\<exists>r s'. ufs_write null_os 1024 [1, 2, 3] (demo_file 5) = Inr (r, s')"
proof -
  let ?s = "demo_file 5"
  have c: "dchain ?s 0 [0]" "packed ?s [0]" using demo_ok by (simp_all add: file_ok_def demo_mb)
  have off: "cursor_off (mb_arr ?s 0) = 0" by (simp add: cursor_off_def demo_mb)
  have "length [1, 2, 3 :: byte] \<le> DBUCKET_BUF_SIZE - 0" by (simp add: ufs_config)
  from ufs_alloc.write_round_fits(1) [OF demo_alloc_inv c _ this, of 0 0]
  obtain n si ix off s1 where w: "write_loop get_free_dbucket_ix 0 0 [1, 2, 3] 0 0 ?s = Inr ((n, si, ix, off), s1)"
    by auto
  obtain u where "stamp_fd 1024 (ST_MOD OR ST_CHG) (set_cursor 0 ix off s1) = Inr u"
    using stamp_fd_result [OF stamp_kinds(2), of 1024 "set_cursor 0 ix off s1"] by blast
  then have "\<exists>r s'. write_done 1024 0 n si ix off s1 = Inr (r, s')" by (simp add: write_done_def)
  then show ?thesis
    unfolding ufs_write_open [OF demo_fd_open] using w off by (simp add: demo_mb)
qed

section \<open>Reading and writing\<close>

text \<open>
  (C5) \<open>write\<close> on an open file. The bytes replace those behind the cursor and extend the file when
  they reach past its end; the call returns their number, moves the cursor behind them and records
  the new length in \<open>st_size\<close>; no other file changes, in metadata or contents. Whatever the length
  of the data and of the file, the loop ends, and the only way the call does not return is the exit of
  the process in the allocator. That never happens while the bytes fit into the buckets the file
  has; with the two allocators that search the whole array (the random one as long as the shared
  counter has not reached the total) it happens only when the buckets of the file and all the free
  ones together are too few. The per-core allocators may end the process while the slices of other
  cores have free buckets.
\<close>

theorem ufs_write_splices:
  assumes "alloc_inv s" "fd_open s fd m" "file_ok s m ps" "cursor_at s m ps pos"
  shows "case ufs_write os fd buf s of
      Inl e \<Rightarrow> e = Exit \<and>
        DBUCKET_BUF_SIZE * (length ps + (if whole_array s then free_buckets s else 0)) < pos + length buf
    | Inr (r, s') \<Rightarrow> r = int (length buf) \<and> alloc_inv s' \<and> fd_open s' fd m \<and> others_kept m (set ps) s s' \<and>
        (\<exists>es. file_ok s' m (ps @ es) \<and> content s' (ps @ es) = splice (content s ps) pos buf \<and>
           cursor_at s' m (ps @ es) (pos + length buf))"
  using ufs_write_exit [OF assms, of os buf] ufs_write_result [OF assms, of os buf]
    ufs_write_space [OF assms, of os buf]
  by (cases "ufs_write os fd buf s") auto

theorem ufs_write_splices_witness:
  "\<exists>s' es. ufs_write null_os 1024 (replicate 5000 1) (demo_file 5) = Inr (5000, s') \<and>
     content s' ([0] @ es) = replicate 5000 1 \<and> cursor_at s' 0 ([0] @ es) 5000"
proof -
  have "splice (replicate 5 7) 0 (replicate 5000 1) = (replicate 5000 1 :: byte list)" by (simp add: splice_def)
  with ufs_write_splices [OF demo_alloc_inv demo_fd_open demo_ok demo_cursor, of "replicate 5000 1" null_os]
    demo_space [of 5] show ?thesis
    unfolding demo_content
    by (cases "ufs_write null_os 1024 (replicate 5000 1) (demo_file 5)")
      (auto simp: ufs_config simp del: content_simps append.simps)
qed

text \<open>
  (C6) \<open>read\<close> on an open file returns the bytes behind the cursor, as many as asked for or as the file
  has left, and the data memory, the other files and the file's own size stay as they are; when the
  buckets in front of the last one are full it leaves the cursor behind what it read. It always
  returns: the loop over the chain ends for every count.
\<close>

theorem ufs_read_returns:
  assumes "dinv s" "fd_open s fd m" "file_ok s m ps" "cursor_at s m ps pos"
  shows "\<exists>out s'. ufs_read os fd count s = Inr ((int (length out), out), s') \<and>
    out = take count (drop pos (content s ps)) \<and> dbs s' = dbs s \<and> fd_open s' fd m \<and> file_ok s' m ps \<and>
    (\<forall>k. k \<noteq> m \<longrightarrow> mb_arr s' k = mb_arr s k) \<and>
    (full s (butlast ps) \<longrightarrow> cursor_at s' m ps (pos + length out))"
  using ufs_read_result [OF assms, of os count] same_dataD(1) by blast

theorem ufs_read_returns_witness:
  "\<exists>s'. ufs_read null_os 1024 2 (demo_file 5) = Inr ((2, [7, 7]), s') \<and> cursor_at s' 0 [0] 2"
proof -
  have "dinv (demo_file 5)" using demo_alloc_inv by (simp add: alloc_inv_def)
  from ufs_read_returns [OF this demo_fd_open demo_ok demo_cursor, of null_os 2, unfolded demo_content5]
  show ?thesis by (auto simp: numeral_2_eq_2)
qed

text \<open>
  (C7) \<open>pread\<close> at an offset inside the file, or at its end, returns the bytes from that offset on, with
  or without a hit in the descriptor's cache; it moves no cursor and changes no data.
\<close>

theorem ufs_pread_returns:
  assumes "dinv s" "fd_open s fd m" "file_ok s m ps" "cache_ok (fdTable s (nat fd)) ps"
    "pos \<le> length (content s ps)" "pos < 2 ^ 31 * DBUCKET_BUF_SIZE"
  shows "\<exists>out s'. ufs_pread os fd count (int pos) s = Inr ((int (length out), out), s') \<and>
    out = take count (drop pos (content s ps)) \<and> dbs s' = dbs s \<and> mb_arr s' = mb_arr s \<and> fd_open s' fd m"
  using ufs_pread_result [OF assms, of os count] same_dataD(1) by blast

theorem ufs_pread_returns_witness:
  "\<exists>s'. ufs_pread null_os 1024 10 3 (demo_file 5) = Inr ((2, [7, 7]), s')"
proof -
  have "dinv (demo_file 5)" using demo_alloc_inv by (simp add: alloc_inv_def)
  from ufs_pread_returns [OF this demo_fd_open demo_ok, of 3 null_os 10, unfolded demo_content5] show ?thesis
    by (auto simp: demo_cache ufs_config)
qed

text \<open>
  (C8) \<open>pwrite\<close> at an offset inside the file replaces and extends its contents from there on, keeps
  the size right, and changes no other file. The offset must lie in a bucket of the chain.
\<close>

theorem ufs_pwrite_splices:
  assumes "alloc_inv s" "fd_open s fd m" "file_ok s m ps" "cache_ok (fdTable s (nat fd)) ps"
    "pos \<le> length (content s ps)" "pos < 2 ^ 31 * DBUCKET_BUF_SIZE" "pos div DBUCKET_BUF_SIZE < length ps"
    "ufs_pwrite os fd buf (int pos) s = Inr (r, s')"
  shows "r = int (length buf) \<and> alloc_inv s' \<and> fd_open s' fd m \<and> others_kept m (set ps) s s' \<and>
    (\<exists>es. file_ok s' m (ps @ es) \<and> content s' (ps @ es) = splice (content s ps) pos buf)"
  by (rule ufs_pwrite_result [OF assms])

theorem ufs_pwrite_splices_witness:
  "\<exists>s' es. ufs_pwrite null_os 1024 [1, 2] 4 (demo_file 5) = Inr (2, s') \<and>
     content s' ([0] @ es) = [7, 7, 7, 7, 1, 2]"
proof -
  let ?s = "demo_file 5"
  have c: "dchain ?s 0 [0]" "packed ?s [0]" "alloc_inv ?s" using demo_ok demo_alloc_inv by (simp_all add: file_ok_def demo_mb)
  have dinv: "dinv ?s" using c(3) by (simp add: alloc_inv_def)
  have pos: "4 \<le> length (content ?s [0])" "(4::nat) < 2 ^ 31 * DBUCKET_BUF_SIZE" "4 div DBUCKET_BUF_SIZE < length [0::nat]"
    unfolding demo_content5 by (simp_all add: ufs_config)
  obtain s1 where s1: "find_bucket 1024 0 4 ?s = Inr (Some 0, s1)" "same_data s1 ?s"
    using find_bucket_result [OF dinv demo_ok demo_cache pos(1,2), of undefined] by (auto simp: ufs_config)
  have c1: "alloc_inv s1" "dchain s1 0 [0]" "packed s1 [0]" "4 \<le> db_bytes (dbs s1 0)"
    using same_dataD(1,8) [OF s1(2)] same_data_chain(1,3) [OF s1(2)] c demo_bytes [of 5]
    by (simp_all del: dchain.simps packed.simps)
  have "length [1, 2 :: byte] \<le> DBUCKET_BUF_SIZE - 4" by (simp add: ufs_config)
  from ufs_alloc.write_round_fits(1) [OF c1 this, of 0 0] ufs_alloc.pwrite_loop_is_write_loop [OF c1, of "[1, 2]" 0 0]
  obtain n si s2 where w: "pwrite_loop get_free_dbucket_ix 0 4 [1, 2] 0 0 s1 = Inr ((n, si), s2)" by auto
  obtain u where "stamp_fd 1024 (ST_MOD OR ST_CHG) s2 = Inr u"
    using stamp_fd_result [OF stamp_kinds(2), of 1024 s2] by blast
  with s1(1) w fd_open_simps [OF demo_fd_open] offset_args(2) [OF pos(2)]
  obtain r s' where "ufs_pwrite null_os 1024 [1, 2] (int 4) ?s = Inr (r, s')"
    by (fastforce simp: ufs_pwrite_def ufs_config)
  moreover have "splice [7, 7, 7, 7, 7] 4 [1, 2] = [7, 7, 7, 7, 1, 2 :: byte]" by (simp add: splice_def)
  ultimately show ?thesis
    using ufs_pwrite_splices [OF c(3) demo_fd_open demo_ok _ pos, of null_os "[1, 2]" r s', unfolded demo_content5]
      demo_cache by (auto simp del: content_simps append.simps)
qed

text \<open>
  What \<open>write\<close> wrote, \<open>pread\<close> reads back: after a successful write of \<open>buf\<close> with the cursor at
  \<open>pos\<close>, reading as many bytes at offset \<open>pos\<close> through the same descriptor returns \<open>buf\<close>.
\<close>

theorem write_then_pread:
  assumes "alloc_inv s" "fd_open s fd m" "file_ok s m ps" "cursor_at s m ps pos"
    "cache_ok (fdTable s (nat fd)) ps" "pos < 2 ^ 31 * DBUCKET_BUF_SIZE"
    "ufs_write os fd buf s = Inr (r, s')"
  shows "\<exists>s''. ufs_pread os fd (length buf) (int pos) s' = Inr ((int (length buf), buf), s'')"
proof -
  from ufs_write_result [OF assms(1-4,7)] assms(5) obtain es where
    w: "alloc_inv s'" "fd_open s' fd m" "file_ok s' m (ps @ es)" "content s' (ps @ es) = splice (content s ps) pos buf"
      "cursor_at s' m (ps @ es) (pos + length buf)" "cache_ok (fdTable s' (nat fd)) (ps @ es)" by blast
  obtain us vs where "ps = us @ unat (last_dbucket (mb_arr s m)) # vs" "full s us"
      "nat (last_db_offset (mb_arr s m)) \<le> db_bytes (dbs s (unat (last_dbucket (mb_arr s m))))"
      "DBUCKET_BUF_SIZE * length us + nat (last_db_offset (mb_arr s m)) = pos"
    using assms(4) by (auto simp: cursor_at_def at_fpos_def)
  then have pos: "pos \<le> length (content s ps)" using length_content_full [of s us] by simp
  then have "pos \<le> length (content s' (ps @ es))" unfolding w(4) by (simp add: length_splice)
  moreover have "take (length buf) (drop pos (splice (content s ps) pos buf)) = buf"
    using pos by (simp add: splice_def)
  moreover have "dinv s'" using w(1) by (simp add: alloc_inv_def)
  ultimately show ?thesis
    using ufs_pread_result [OF _ w(2,3,6) _ assms(6), of os "length buf"] unfolding w(4) by auto
qed

theorem write_then_pread_witness:
  "\<exists>s' s''. ufs_write null_os 1024 [1, 2, 3] (demo_file 5) = Inr (3, s') \<and>
     ufs_pread null_os 1024 3 0 s' = Inr ((3, [1, 2, 3]), s'')"
proof -
  obtain r s' where w: "ufs_write null_os 1024 [1, 2, 3] (demo_file 5) = Inr (r, s')" using demo_write by blast
  have "r = 3" using ufs_write_result [OF demo_alloc_inv demo_fd_open demo_ok demo_cursor w] by simp
  with w write_then_pread [OF demo_alloc_inv demo_fd_open demo_ok demo_cursor _ _ w] show ?thesis
    by (simp add: demo_cache ufs_config numeral_3_eq_3)
qed

text \<open>
  A descriptor that is not open is refused by every call with -1 and \<open>EBADF\<close>, and nothing but
  \<open>errno\<close> changes.
\<close>

theorem closed_descriptor_ebadf:
  assumes "0 \<le> fd" "fd < MAX_NUM_FD" "\<not> exclusive (fdTable s (nat fd))" "fd_empty (fdTable s (nat fd))"
  shows "ufs_read os fd count s = Inr ((- 1, []), s\<lparr>errno := EBADF\<rparr>) \<and>
    ufs_write os fd buf s = Inr (- 1, s\<lparr>errno := EBADF\<rparr>) \<and>
    ufs_pread os fd count offset s = Inr ((- 1, []), s\<lparr>errno := EBADF\<rparr>) \<and>
    ufs_pwrite os fd buf offset s = Inr (- 1, s\<lparr>errno := EBADF\<rparr>) \<and>
    ufs_close os fd s = Inr (- 1, s\<lparr>errno := EBADF\<rparr>)"
  using assms
  by (simp add: ufs_read_def ufs_write_def ufs_pread_def ufs_pwrite_def ufs_close_def FDDES_def)

theorem closed_descriptor_ebadf_witness:
  "ufs_close null_os 1024 boot_ustate = Inr (- 1, boot_ustate\<lparr>errno := EBADF\<rparr>)"
proof -
  have "fdTable boot_ustate 1024 = fd_slot"
    by (simp add: boot_ustate_def boot_mstate_def boot_dstate_def)
  with closed_descriptor_ebadf [of 1024 boot_ustate null_os] show ?thesis by (simp add: fd_slot_def ufs_config)
qed

section \<open>Where the calls differ from POSIX\<close>

lemma sz_sub_wrap: "a < b \<Longrightarrow> c + b \<le> 4096 \<Longrightarrow> c \<le> sz_sub a b"
  by (simp add: sz_sub_def)

text \<open>
  \<open>pread\<close> behind the end of a one-bucket file, but inside its bucket, does not return 0: the
  unsigned difference \<open>db->bytes - off\<close> wraps around, and the call returns the full count of bytes that
  happen to lie in the bucket.
\<close>

theorem pread_past_end_returns_stale_bytes:
  assumes "dinv s" "fd_open s fd m" "file_ok s m [p]" "cache_ok (fdTable s (nat fd)) [p]"
    "length (content s [p]) < pos" "pos < DBUCKET_BUF_SIZE" "pos + count \<le> DBUCKET_BUF_SIZE"
  shows "\<exists>s'. ufs_pread os fd count (int pos) s =
    Inr ((int count, mem_read (db_buf (dbs s p)) pos count), s')"
proof -
  let ?B = DBUCKET_BUF_SIZE
  have f: "dchain s (first_dbucket (mb_arr s m)) [p]" using assms(3) by (auto simp: file_ok_def)
  have b: "db_bytes (dbs s p) < pos" using assms(5) by simp
  have p0: "0 < 2 ^ 31 * ?B" "pos < 2 ^ 31 * ?B" "pos div ?B = 0" "pos mod ?B = pos"
    using assms(6) by (simp_all add: ufs_config)
  have ix: "first_dbucket (mb_arr s m) = of_nat p" using dchain_ix_of [OF f] by simp
  have live: "unat (of_nat p :: u32) < live s" "unat (of_nat p :: u32) = p" using f ix by auto
  obtain s1 where s1: "find_bucket (nat fd) m (int pos) s = Inr (Some (of_nat p), s1)" "same_data s1 s"
  proof (cases "cache_lookup (fdTable s (nat fd)) (int pos) = nil_ix")
    case True
    then show ?thesis
      using that [of "upd_fd (nat fd) (cache_store (int pos) (of_nat p)) s"] ix p0
      by (simp add: find_bucket_def Let_def offset_args [OF p0(2)])
  next
    case False
    with assms(4) p0 show ?thesis
      using that [of s] by (auto simp: find_bucket_def Let_def cache_lookup_eq cache_ok_def split: if_splits)
  qed
  note d = same_dataD [OF s1(2)]
  have nn: "of_nat p \<noteq> nil_ix" using live_not_nil [OF assms(1) live(1)] .
  have ptr: "get_dbucket_ptr (of_nat p) s1 = Inr (p, s1)"
    using get_dbucket_ptr_live [of s1 "of_nat p"] live assms(1) d by simp
  have "count \<le> sz_sub (db_bytes (dbs s p)) pos"
    using sz_sub_wrap [OF b, of count] assms(7) by (simp add: ufs_config add.commute)
  moreover have "loop_fuel count s1 \<noteq> 0" by (simp add: loop_fuel_def)
  ultimately have rd: "pread_loop (loop_fuel count s1) (of_nat p) pos count [] s1 =
      Inr (mem_read (db_buf (dbs s p)) pos count, s1)"
    using nn ptr assms(7) d by (subst pread_loop.simps) (simp add: Let_def)
  obtain u where u: "stamp_fd (nat fd) ST_ACS s1 = Inr u"
    using stamp_fd_result [OF stamp_kinds(1), of "nat fd" s1] by blast
  show ?thesis
    using fd_open_simps [OF assms(2)] s1(1) rd offset_args(2) [OF p0(2)] p0(4) u by (simp add: ufs_pread_def)
qed

theorem pread_past_end_returns_stale_bytes_witness:
  "\<exists>s'. ufs_pread null_os 1024 2 9 (demo_file 5) = Inr ((2, [7, 7]), s')"
proof -
  have "dinv (demo_file 5)" using demo_alloc_inv by (simp add: alloc_inv_def)
  moreover have "length (content (demo_file 5) [0]) < 9" unfolding demo_content5 by simp
  moreover have "mem_read (db_buf (dbs (demo_file 5) 0)) 9 2 = [7, 7]"
    by (simp add: demo_dbs mem_read_def upt_rec)
  ultimately show ?thesis
    using pread_past_end_returns_stale_bytes [OF _ demo_fd_open demo_ok _, of 9 2 null_os]
    by (simp add: ufs_config demo_cache)
qed

text \<open>
  \<open>pwrite\<close> at the end of a file whose buckets are all full writes nothing and returns 0, although
  there may be room: the walk to the offset ends behind the chain, where no bucket is added.
\<close>

theorem pwrite_at_aligned_end_writes_nothing:
  assumes "dinv s" "fd_open s fd m" "file_ok s m ps" "cache_ok (fdTable s (nat fd)) ps"
    "full s ps" "pos = length (content s ps)" "pos < 2 ^ 31 * DBUCKET_BUF_SIZE"
  shows "\<exists>s'. ufs_pwrite os fd buf (int pos) s = Inr (0, s') \<and> dbs s' = dbs s \<and> mb_arr s' = mb_arr s"
proof -
  have "pos div DBUCKET_BUF_SIZE = length ps" using length_content_full [OF assms(5)] assms(6) by simp
  with find_bucket_result [OF assms(1,3,4) _ assms(7), of "nat fd"] assms(6) obtain s1 where
    "find_bucket (nat fd) m (int pos) s = Inr (Some nil_ix, s1)" "same_data s1 s" "mb_arr s1 = mb_arr s" by auto
  moreover have "pwrite_loop get_free_dbucket_ix nil_ix off buf 0 0 s1 = Inr ((0, 0), s1)" for off
    by (subst pwrite_loop.simps) simp
  ultimately show ?thesis
    using fd_open_simps [OF assms(2)] same_dataD(1) [of s1 s] by (simp add: ufs_pwrite_def grow_file_def)
qed

theorem pwrite_at_aligned_end_writes_nothing_witness:
  "\<exists>s'. ufs_pwrite null_os 1024 [1] 4096 (demo_file 4096) = Inr (0, s')"
proof -
  have "file_ok (demo_file 4096) 0 [0]" by (rule demo_file_ok) (simp add: ufs_config)
  moreover have "length (content (demo_file 4096) [0]) = 4096" unfolding demo_content by simp
  moreover have "full (demo_file 4096) [0]" by (simp add: demo_bytes ufs_config)
  moreover have "dinv (demo_file 4096)" using demo_alloc_inv by (simp add: alloc_inv_def)
  ultimately show ?thesis
    using pwrite_at_aligned_end_writes_nothing [OF _ demo_fd_open _ _, of 4096 "[0]" 4096 null_os "[1]"]
    by (auto simp: demo_cache ufs_config)
qed

end
