(* ===== verification/Ufs_Stat.thy ===== *)
theory Ufs_Stat
  imports Ufs_Syscalls
begin

text \<open>
  \<open>system/lib/file_meta.c\<close>: \<open>__xstat\<close>, \<open>__lxstat\<close> and \<open>__fxstat\<close>. The result is the return value
  and what was copied to the caller's buffer, \<open>None\<close> when it was left alone; for a call passed on to
  the operating system it is what that left there.
\<close>

definition EFAULT :: int where "EFAULT = 14"

text \<open>The two calls by path differ in the system call they fall back to.\<close>

definition path_stat ::
  "('d, 'x) os_scheme \<Rightarrow> (string \<Rightarrow> 'd \<Rightarrow> ((int \<times> stat) \<times> int option) \<times> 'd) \<Rightarrow> string \<Rightarrow> ('d, 'z) ustate_scheme \<Rightarrow>
     ((int \<times> stat option) \<times> ('d, 'z) ustate_scheme) res" where
  "path_stat os real path s =
     (if length path > PATH_MAX then Inr ((- 1, None), s\<lparr>errno := ENAMETOOLONG\<rparr>)
      else
        andthen (full_path (os_getcwd os (disk s)) path) (\<lambda>fpath.
        andthen (get_mbucket fpath s) (\<lambda>(mb, s).
          case mb of
            Some m \<Rightarrow> Inr ((0, Some (mb_s (mb_arr s m))), s\<lparr>errno := 0\<rparr>)
          | None \<Rightarrow> (case os_call (real path) s of ((ret, st), s) \<Rightarrow> Inr ((ret, Some st), s)))))"

definition ufs_xstat ::
  "('d, 'x) os_scheme \<Rightarrow> string \<Rightarrow> ('d, 'z) ustate_scheme \<Rightarrow> ((int \<times> stat option) \<times> ('d, 'z) ustate_scheme) res" where
  "ufs_xstat os path s = path_stat os (os_stat os) path s"

definition ufs_lxstat ::
  "('d, 'x) os_scheme \<Rightarrow> string \<Rightarrow> ('d, 'z) ustate_scheme \<Rightarrow> ((int \<times> stat option) \<times> ('d, 'z) ustate_scheme) res" where
  "ufs_lxstat os path s = path_stat os (os_lstat os) path s"

definition ufs_fxstat ::
  "('d, 'x) os_scheme \<Rightarrow> int \<Rightarrow> ('d, 'z) ustate_scheme \<Rightarrow> ((int \<times> stat option) \<times> ('d, 'z) ustate_scheme) res" where
  "ufs_fxstat os fd s =
     andthen (FDDES fd) (\<lambda>i.
       if exclusive (fdTable s i) then
         (case os_call (os_fstat os fd) s of ((ret, st), s) \<Rightarrow> Inr ((ret, Some st), s))
       else if fd_empty (fdTable s i) then Inr ((- 1, None), s\<lparr>errno := EBADF\<rparr>)
       else
         andthen (fd_mb i s) (\<lambda>m.
           if \<not> mb_in_use (mb_arr s m) then Inr ((- 1, None), s\<lparr>errno := EFAULT\<rparr>)
           else Inr ((0, Some (mb_s (mb_arr s m))), s\<lparr>errno := 0\<rparr>)))"

end
