(* ===== verification/Ufs_Frame.thy ===== *)
theory Ufs_Frame
  imports Ufs_Stat
begin

text \<open>
  What each operation leaves alone, whatever the state it starts from: the data operations touch
  only the data memory, the name operations only the shared memory. \<open>ends P r\<close> says that a result
  which is one satisfies \<open>P\<close>; the rules follow the structure of the definitions.
\<close>

section \<open>Results that satisfy a predicate\<close>

definition ends :: "('a \<Rightarrow> bool) \<Rightarrow> 'a res \<Rightarrow> bool" where
  "ends P r \<longleftrightarrow> (\<forall>y. r = Inr y \<longrightarrow> P y)"

lemma ends_simps [simp]: "ends P (Inl e)" "ends P (Inr y) = P y"
  by (simp_all add: ends_def)

lemma ends_andthen: "ends Q m \<Longrightarrow> (\<And>y. Q y \<Longrightarrow> ends P (k y)) \<Longrightarrow> ends P (andthen m k)"
  by (cases m) simp_all

lemma ends_True [simp]: "ends (\<lambda>_. True) m"
  by (simp add: ends_def)

lemma endsD: "ends P r \<Longrightarrow> r = Inr y \<Longrightarrow> P y"
  by (simp add: ends_def)

lemma ends_at1: "ends (\<lambda>s'. f s' = f s) m1 \<Longrightarrow> f s = v \<Longrightarrow> ends (\<lambda>s'. f s' = v) m1"
  by simp

lemma ends_at: "ends (\<lambda>(x, s'). f s' = f s) m2 \<Longrightarrow> f s = v \<Longrightarrow> ends (\<lambda>(x, s'). f s' = v) m2"
  by simp

section \<open>Data operations keep everything behind the data memory\<close>

lemma upd_more [simp]:
  "dstate.more (upd_db p f s) = dstate.more s" "dstate.more (upd_sysg g s) = dstate.more s"
  "dstate.more (upd_core c k s) = dstate.more s"
  by (simp_all add: upd_db_def upd_sysg_def upd_core_def)

text \<open>What every data operation leaves alone: the rest of the state, and the allocator the daemon chose.\<close>

definition frame :: "'z dstate_scheme \<Rightarrow> 'z \<times> int" where
  "frame s = (dstate.more s, alloc_method (sysg s))"

lemma frame_upd [simp]:
  "frame (upd_db p f s) = frame s" "frame (upd_core c k s) = frame s"
  "(\<And>g. alloc_method (h g) = alloc_method g) \<Longrightarrow> frame (upd_sysg h s) = frame s"
  "frame (s\<lparr>rand_pos := n\<rparr>) = frame s" "frame (s\<lparr>cpu_pos := n\<rparr>) = frame s" "frame (s\<lparr>segs := b\<rparr>) = frame s"
  "frame (s\<lparr>data_steps := b\<rparr>) = frame s" "frame (s\<lparr>dbs := d\<rparr>) = frame s" "frame (s\<lparr>cmem_mapped := x\<rparr>) = frame s"
  "frame (s\<lparr>last_core_num := i\<rparr>) = frame s" "frame (s\<lparr>last_core_ix := i\<rparr>) = frame s" "frame (s\<lparr>cmem := c'\<rparr>) = frame s"
  by (simp_all add: frame_def upd_db_def upd_core_def upd_sysg_def)

lemma frameD: "frame s' = frame s \<Longrightarrow> dstate.more s' = dstate.more s" "frame s' = frame s \<Longrightarrow> alloc_method (sysg s') = alloc_method (sysg s)"
  by (simp_all add: frame_def)

lemma frame_more:
  "ends (\<lambda>(r, s'). frame s' = frame s) m2 \<Longrightarrow> ends (\<lambda>(r, s'). dstate.more s' = dstate.more s) m2"
  "ends (\<lambda>s'. frame s' = frame s) m1 \<Longrightarrow> ends (\<lambda>s'. dstate.more s' = dstate.more s) m1"
  by (auto simp: ends_def frame_def)

lemma map_steps_frame: "ends (\<lambda>s'. frame s' = frame s) (map_steps is s)"
proof (induction "is" arbitrary: s)
  case (Cons i "is")
  have "ends (\<lambda>s'. frame s' = frame s) (open_map_datastep i s)"
    by (simp add: open_map_datastep_def)
  then show ?case
    unfolding map_steps.simps by (rule ends_andthen) (rule ends_at1 [OF Cons])
qed simp

lemma get_dbucket_ptr_frame: "ends (\<lambda>(p, s'). frame s' = frame s) (get_dbucket_ptr ix s)"
  unfolding get_dbucket_ptr_def Let_def
  by (auto intro!: ends_andthen [OF map_steps_frame])

lemma walk_dbuckets_frame: "ends (\<lambda>(r, s'). frame s' = frame s) (walk_dbuckets idx n i s)"
proof (induction idx n i s rule: walk_dbuckets.induct)
  case (1 idx n i s)
  show ?case
  proof (cases "i < n")
    case True
    obtain ok db where "claim_dbucket (dbs s (idx i)) = (ok, db)" by force
    with 1 [OF True refl _ this [symmetric]] True show ?thesis
      by (subst walk_dbuckets.simps) (auto simp: Let_def)
  qed (subst walk_dbuckets.simps, simp)
qed

lemma next_rand_frame: "next_rand s = (r, s') \<Longrightarrow> frame s' = frame s"
  by (auto simp: next_rand_def)

lemma walk_cores_frame: "walk_cores cnum i s = (r, s') \<Longrightarrow> frame s' = frame s"
proof (induction cnum i s arbitrary: r s' rule: walk_cores.induct)
  case (1 cnum i s)
  then show ?case by (subst (asm) walk_cores.simps) (auto split: if_splits)
qed

lemma get_set_core_index_frame: "ends (\<lambda>(c, s'). frame s' = frame s) (get_set_core_index s)"
  unfolding get_set_core_index_def
  by (rule ends_andthen [of "\<lambda>s'. frame s' = frame s"])
    (auto simp: sched_getcpu_def dest: walk_cores_frame split: prod.splits option.splits)

lemma walk_pick_frame:
  assumes "frame s = m" "\<And>j s'. frame (f j s') = frame s'"
  shows "ends (\<lambda>(j, s'). frame s' = m)
    (andthen (walk_dbuckets idx n i s) (\<lambda>(r, s'). case r of None \<Rightarrow> Inl Exit | Some j \<Rightarrow> Inr (j, f j s')))"
  by (rule ends_andthen [OF walk_dbuckets_frame]) (auto simp: assms split: option.split)

lemmas walk_only_frame = walk_pick_frame [where f = "\<lambda>j s. s", OF _ refl]

lemma alloc_walk_random_frame: "ends (\<lambda>(j, s'). frame s' = frame s) (alloc_walk_random s)"
  by (auto simp: alloc_walk_random_def next_rand_def Let_def intro: walk_only_frame)

lemma alloc_walk_rough_ind_frame: "ends (\<lambda>(j, s'). frame s' = frame s) (alloc_walk_rough_ind s)"
  unfolding alloc_walk_rough_ind_def Let_def by (intro walk_pick_frame) auto

lemma alloc_walk_per_core_random_frame:
  "ends (\<lambda>(j, s'). frame s' = frame s) (alloc_walk_per_core_random s)"
  unfolding alloc_walk_per_core_random_def Let_def
  apply (rule ends_andthen [OF get_set_core_index_frame])
  apply clarify
  subgoal for c s1 by (cases "bkts_per_core s1") (auto simp: next_rand_def intro!: walk_only_frame)
  done

lemma alloc_walk_per_core_rough_ind_frame:
  "ends (\<lambda>(j, s'). frame s' = frame s) (alloc_walk_per_core_rough_ind s)"
  unfolding alloc_walk_per_core_rough_ind_def Let_def
  apply (rule ends_andthen [OF get_set_core_index_frame])
  apply clarify
  subgoal for c s1 by (cases "bkts_per_core s1") (auto intro!: walk_pick_frame)
  done

lemma walk_steps_frame: "ends (\<lambda>(r, s'). frame s' = frame s) (walk_steps j n i s)"
proof (induction j n i s rule: walk_steps.induct)
  case (1 j n i s)
  show ?case
  proof (cases "i < n")
    case True
    let ?ix = "of_nat (unat (of_nat i + j) mod n) :: u32"
    show ?thesis
    proof (cases "get_dbucket_ptr ?ix s")
      case (Inr y)
      obtain p s1 where y: "y = (p, s1)" by force
      obtain ok db where cl: "claim_dbucket (dbs s1 p) = (ok, db)" by force
      have "frame s1 = frame s" using endsD [OF get_dbucket_ptr_frame Inr] y by simp
      with 1 [OF True refl cl [symmetric] refl] True Inr y cl show ?thesis
        by (subst walk_steps.simps) (auto simp: Let_def)
    qed (use True in \<open>subst walk_steps.simps, simp add: Let_def\<close>)
  qed (subst walk_steps.simps, simp)
qed

lemma try_create_step_frame: "ends (\<lambda>s'. frame s' = frame s) (try_create_step n s)"
proof -
  have "ends (\<lambda>s'. frame s' = frame s) (open_map_datastep i s)" for i and s :: "'a dstate_scheme"
    by (simp add: open_map_datastep_def)
  moreover have "ends (\<lambda>s'. frame s' = frame s) (create_map_dbucket_step i s)" for i and s :: "'a dstate_scheme"
    by (simp add: create_map_dbucket_step_def Let_def)
  from this [of "upd_sysg (\<lambda>g. g\<lparr>sg_lock := True\<rparr>) s" n] have
    "ends (\<lambda>s'. frame s' = frame s) (andthen (create_map_dbucket_step n (upd_sysg (\<lambda>g. g\<lparr>sg_lock := True\<rparr>) s))
      (\<lambda>s. Inr (upd_sysg (\<lambda>g. g\<lparr>sg_lock := False\<rparr>) s)))" by (rule ends_andthen) simp
  ultimately show ?thesis by (simp add: try_create_step_def)
qed

lemma traverse_current_buckets_frame:
  "ends (\<lambda>(r, s'). frame s' = frame s) (traverse_current_buckets k s)"
proof (induction k arbitrary: s)
  case (Suc k)
  have step: "ends (\<lambda>(r, s'). frame s' = frame s) (andthen (try_create_step n s1) (traverse_current_buckets k))"
    if "frame s1 = frame s" for n s1
    by (rule ends_andthen [OF try_create_step_frame]) (auto simp: that intro: ends_at [OF Suc])
  show ?case
    unfolding traverse_current_buckets.simps Let_def
    by (rule ends_andthen [OF walk_steps_frame]) (auto intro: step split: option.split)
qed simp

lemma alloc_walk_steps_frame: "ends (\<lambda>(r, s'). frame s' = frame s) (alloc_walk_steps s)"
proof -
  have "ends (\<lambda>(r, s'). frame s' = frame s)
      (andthen (if b then try_create_step n s1 else Inr s1) (traverse_current_buckets k))"
    if "frame s1 = frame s" for b n s1 k
    by (rule ends_andthen [of "\<lambda>s'. frame s' = frame s"])
      (auto simp: that intro: ends_at1 [OF try_create_step_frame] ends_at [OF traverse_current_buckets_frame])
  then show ?thesis unfolding alloc_walk_steps_def Let_def by simp
qed

lemma get_free_dbucket_ix_frame: "ends (\<lambda>(ix, s'). frame s' = frame s) (get_free_dbucket_ix s)"
proof -
  have "ends (\<lambda>(ix, s'). frame s' = v) (ret_ix m)" if "ends (\<lambda>(j, s'). frame s' = v) m"
    for v :: "'a \<times> int" and m
    unfolding ret_ix_def by (rule ends_andthen [OF that]) auto
  moreover have "ends (\<lambda>(ix, s'). frame s' = frame s) (bucket_ix_alloc_steps s)"
    unfolding bucket_ix_alloc_steps_def by (rule ends_andthen [OF alloc_walk_steps_frame]) auto
  ultimately show ?thesis
    by (simp add: get_free_dbucket_ix_def bucket_ix_alloc_all_random_def bucket_ix_alloc_all_rough_ind_def
        bucket_ix_alloc_all_per_core_random_def bucket_ix_alloc_all_per_core_rough_ind_def
        alloc_walk_random_frame alloc_walk_rough_ind_frame alloc_walk_per_core_random_frame
        alloc_walk_per_core_rough_ind_frame)
qed

text \<open>The loops of the file calls.\<close>

lemma read_loop_frame: "ends (\<lambda>(r, s'). frame s' = frame s) (read_loop k ix off c out s)"
proof (induction k arbitrary: ix off c out s)
  case (Suc k)
  show ?case
    by (subst read_loop.simps, simp, rule ends_andthen [OF get_dbucket_ptr_frame])
      (auto simp: Let_def intro: ends_at [OF Suc])
qed (subst read_loop.simps, simp)

lemma next_or_new_frame: "ends (\<lambda>(r, s'). frame s' = frame s) (next_or_new get_free_dbucket_ix p s)"
  unfolding next_or_new_def by (auto intro!: ends_andthen [OF get_free_dbucket_ix_frame])

lemma next_bucket_frame:
  assumes "\<And>ix s'. ends (\<lambda>(r, s''). frame s'' = frame s') (W ix s')" "frame s1 = v"
  shows "ends (\<lambda>(r, s'). frame s' = v) (andthen (next_or_new get_free_dbucket_ix p s1) (\<lambda>(ix, s'). W ix s'))"
  by (rule ends_andthen [OF next_or_new_frame]) (auto simp: assms(2) intro: ends_at [OF assms(1)])

lemma room_decreases:
  assumes "room = sz_sub DBUCKET_BUF_SIZE off" "\<not> length d \<le> room" "\<not> DBUCKET_BUF_SIZE < off"
  shows "length (drop room d) < length d + (if off = 0 then 0 else 1)"
  using assms by (auto simp: ufs_config sz_sub_def)

lemma write_loop_frame: "ends (\<lambda>(r, s'). frame s' = frame s) (write_loop get_free_dbucket_ix ix off d n si s)"
proof (induction "length d + (if off = 0 then 0 else 1)" arbitrary: ix off d n si s rule: less_induct)
  case less
  have IH: "ends (\<lambda>(r, s'). frame s' = frame t)
      (write_loop get_free_dbucket_ix ix 0 (drop (sz_sub DBUCKET_BUF_SIZE off) d) n' si' t)"
    if "\<not> length d \<le> sz_sub DBUCKET_BUF_SIZE off" "\<not> DBUCKET_BUF_SIZE < off" for ix n' si' and t :: "'a dstate_scheme"
    by (rule less) (use room_decreases [OF refl that] in simp)
  show ?case
    by (subst write_loop.simps, rule ends_andthen [OF get_dbucket_ptr_frame])
      (auto simp: Let_def simp del: sz_sub_le intro!: next_bucket_frame IH)
qed

lemma pwrite_loop_frame: "ends (\<lambda>(r, s'). frame s' = frame s) (pwrite_loop get_free_dbucket_ix ix off d n si s)"
proof (induction "length d + (if off = 0 then 0 else 1)" arbitrary: ix off d n si s rule: less_induct)
  case less
  have IH: "ends (\<lambda>(r, s'). frame s' = frame t)
      (pwrite_loop get_free_dbucket_ix ix 0 (drop (sz_sub DBUCKET_BUF_SIZE off) d) n' si' t)"
    if "\<not> length d \<le> sz_sub DBUCKET_BUF_SIZE off" "\<not> DBUCKET_BUF_SIZE < off" for ix n' si' and t :: "'a dstate_scheme"
    by (rule less) (use room_decreases [OF refl that] in simp)
  show ?case
    by (subst pwrite_loop.simps, cases "ix = nil_ix", simp, simp, rule ends_andthen [OF get_dbucket_ptr_frame])
      (auto simp: Let_def simp del: sz_sub_le intro!: next_bucket_frame IH)
qed

lemma seek_loop_frame: "ends (\<lambda>(r, s'). frame s' = frame s) (seek_loop k ix s)"
proof (induction k arbitrary: ix s)
  case (Suc k)
  have "ends (\<lambda>(r, s'). frame s' = frame s)
      (andthen (get_dbucket_ptr ix s) (\<lambda>(p, s). seek_loop k (db_next_ix (dbs s p)) s))"
    by (rule ends_andthen [OF get_dbucket_ptr_frame]) (auto intro: ends_at [OF Suc])
  then show ?case by simp
qed simp

lemma pread_loop_frame: "ends (\<lambda>(r, s'). frame s' = frame s) (pread_loop k ix off c out s)"
proof (induction k arbitrary: ix off c out s)
  case (Suc k)
  show ?case
    by (subst pread_loop.simps, simp, rule impI, rule ends_andthen [OF get_dbucket_ptr_frame])
      (auto simp: Let_def intro: ends_at [OF Suc])
qed (subst pread_loop.simps, simp)

lemma trunc_loop_frame: "ends (\<lambda>s'. frame s' = frame s) (trunc_loop k ix s)"
proof (induction k arbitrary: ix s)
  case (Suc k)
  show ?case
    by (subst trunc_loop.simps, simp, rule impI, rule ends_andthen [OF get_dbucket_ptr_frame])
      (auto intro: ends_at1 [OF Suc])
qed (subst trunc_loop.simps, simp)

lemma truncate_chain_frame: "ends (\<lambda>s'. frame s' = frame s) (truncate_chain ix s)"
  unfolding truncate_chain_def
  by (rule ends_andthen [OF get_dbucket_ptr_frame]) (auto intro: ends_at1 [OF trunc_loop_frame])

text \<open>The same for the rest of the state alone.\<close>

lemmas map_steps_more = frame_more(2) [OF map_steps_frame]
lemmas get_dbucket_ptr_more = frame_more(1) [OF get_dbucket_ptr_frame]
lemmas walk_dbuckets_more = frame_more(1) [OF walk_dbuckets_frame]
lemmas get_set_core_index_more = frame_more(1) [OF get_set_core_index_frame]
lemmas alloc_walk_random_more = frame_more(1) [OF alloc_walk_random_frame]
lemmas alloc_walk_rough_ind_more = frame_more(1) [OF alloc_walk_rough_ind_frame]
lemmas alloc_walk_per_core_random_more = frame_more(1) [OF alloc_walk_per_core_random_frame]
lemmas alloc_walk_per_core_rough_ind_more = frame_more(1) [OF alloc_walk_per_core_rough_ind_frame]
lemmas walk_steps_more = frame_more(1) [OF walk_steps_frame]
lemmas try_create_step_more = frame_more(2) [OF try_create_step_frame]
lemmas traverse_current_buckets_more = frame_more(1) [OF traverse_current_buckets_frame]
lemmas alloc_walk_steps_more = frame_more(1) [OF alloc_walk_steps_frame]
lemmas get_free_dbucket_ix_more = frame_more(1) [OF get_free_dbucket_ix_frame]
lemmas read_loop_more = frame_more(1) [OF read_loop_frame]
lemmas next_or_new_more = frame_more(1) [OF next_or_new_frame]
lemmas write_loop_more = frame_more(1) [OF write_loop_frame]
lemmas pwrite_loop_more = frame_more(1) [OF pwrite_loop_frame]
lemmas seek_loop_more = frame_more(1) [OF seek_loop_frame]
lemmas pread_loop_more = frame_more(1) [OF pread_loop_frame]
lemmas trunc_loop_more = frame_more(2) [OF trunc_loop_frame]
lemmas truncate_chain_more = frame_more(2) [OF truncate_chain_frame]

section \<open>Name operations keep the process state\<close>

lemma upd_proc [simp]:
  "mstate.more (upd_mb i f s) = mstate.more s" "mstate.more (upd_hi h g s) = mstate.more s"
  "mstate.more (row_up_read h s) = mstate.more s" "mstate.more (row_up_write h s) = mstate.more s"
  "mstate.more (relink h p ix s) = mstate.more s" "mstate.more (MB_MODIFY m s) = mstate.more s"
  "mstate.more (upd_db j k s) = mstate.more s"
  by (simp_all add: upd_mb_def upd_hi_def row_up_read_def row_up_write_def relink_def MB_MODIFY_def upd_db_def
      split: option.split)

lemma more_proc: "dstate.more s' = dstate.more s \<Longrightarrow> mstate.more s' = mstate.more (s :: 'z mstate_scheme)"
  by (cases s, cases s') simp

lemma row_lock_proc:
  "ends (\<lambda>s'. mstate.more s' = mstate.more s) (row_down_read h s)"
  "ends (\<lambda>s'. mstate.more s' = mstate.more s) (row_down_write h s)"
  by (auto simp: row_down_read_def row_down_write_def ends_def andthen_eq_Inr)

lemma get_mbucket_proc: "ends (\<lambda>(r, s'). mstate.more s' = mstate.more s) (get_mbucket p s)"
  by (auto simp: get_mbucket_def ends_def andthen_eq_Inr dest: endsD [OF row_lock_proc(1)])

lemma allocate_mbucket_proc: "allocate_mbucket s = (x, s') \<Longrightarrow> mstate.more s' = mstate.more s"
proof -
  have w: "mstate.more s' = mstate.more s" if "walk_mbuckets m i s = (x, s')" for m i s s' x
    using that
  proof (induction m i s arbitrary: x s' rule: walk_mbuckets.induct)
    case (1 m i s)
    obtain ok mb where "claim_mbucket (mb_arr s ((m + i) mod META_BUCKETS)) = (ok, mb)" by force
    with 1 show ?case by (subst (asm) (2) walk_mbuckets.simps) (auto simp: Let_def split: if_splits)
  qed
  assume "allocate_mbucket s = (x, s')"
  then show ?thesis by (auto simp: allocate_mbucket_def next_rand_def dest: w)
qed

lemma strict_create_proc: "ends (\<lambda>(r, s'). mstate.more s' = mstate.more s) (strict_create_mbucket p s)"
proof -
  have "mstate.more s' = mstate.more s"
    if h: "hash p = Inr h" and l: "row_down_write h s = Inr s1" and r: "strict_create_mbucket p s = Inr (r, s')" for h s1 r s'
  proof -
    obtain x s2 where a: "allocate_mbucket s1 = (x, s2)" by force
    have "mstate.more s1 = mstate.more s" by (rule endsD [OF row_lock_proc(2) l])
    moreover have "mstate.more s2 = mstate.more s1" by (rule allocate_mbucket_proc [OF a])
    ultimately show ?thesis
      using r h l a by (auto simp: strict_create_mbucket_def andthen_eq_Inr Let_def split: if_splits)
  qed
  moreover have "\<exists>h s1. hash p = Inr h \<and> row_down_write h s = Inr s1" if "strict_create_mbucket p s = Inr y" for y
    using that by (auto simp: strict_create_mbucket_def andthen_eq_Inr)
  ultimately show ?thesis unfolding ends_def by fast
qed

lemma release_proc: "ends (\<lambda>(r, s'). mstate.more s' = mstate.more s) (release_meta_bucket p s)"
  by (auto simp: release_meta_bucket_def ends_def andthen_eq_Inr Let_def
      dest!: endsD [OF row_lock_proc(2)] split: if_splits option.splits)

lemma mb_chpath_proc: "ends (\<lambda>(r, s'). mstate.more s' = mstate.more s) (mb_chpath p q s)"
  unfolding mb_chpath_def
  apply (cases "strncmp_eq p q PATH_MAX", simp, simp only: if_False)
  apply (rule ends_andthen [OF ends_True])
  apply (rule ends_andthen [OF ends_True])
  apply (rule ends_andthen [OF row_lock_proc(2)])
  apply (rule ends_andthen [OF row_lock_proc(2)])
  apply (rule ends_andthen [OF ends_True], clarify)
  apply (rule ends_andthen [OF ends_True], clarify)
  apply (auto simp: Let_def split: option.split)
  done

section \<open>What leaves the descriptor table alone\<close>

lemma more_fdTable:
  "mstate.more s' = mstate.more s \<Longrightarrow> fdTable s' = fdTable (s :: ('d, 'z) ustate_scheme)"
  by (cases s, cases s') simp

lemma os_call_fdTable: "os_call f s = (r, s') \<Longrightarrow> fdTable s' = fdTable s"
  by (auto simp: os_call_def split: prod.splits)

lemma stamp_fdTable: "ends (\<lambda>(st, s'). fdTable s' = fdTable s) (stamp st type s)"
  by (auto simp: stamp_def clock_gettime_def Let_def split: prod.splits)

lemma upd_fdTable [simp]:
  "fdTable (upd_mb m f s) = fdTable s" "fdTable (upd_db p g s) = fdTable s" "fdTable (MB_MODIFY m s) = fdTable s"
  "fdTable (set_cursor m ix off s) = fdTable s" "fdTable (grow_file m k s) = fdTable s"
  by (simp_all add: upd_mb_def upd_db_def MB_MODIFY_def set_cursor_def grow_file_def)

lemma stamp_mb_fdTable: "ends (\<lambda>s'. fdTable s' = fdTable s) (stamp_mb m type s)"
  unfolding stamp_mb_def by (rule ends_andthen [OF stamp_fdTable]) auto

text \<open>A frame of the data memory or of the shared memory is one of the table.\<close>

lemma ends_mono: "ends P r \<Longrightarrow> (\<And>y. P y \<Longrightarrow> Q y) \<Longrightarrow> ends Q r"
  by (simp add: ends_def)

lemma frame_fdTable:
  fixes s :: "('d, 'z) ustate_scheme"
  shows "ends (\<lambda>s'. dstate.more s' = dstate.more s) r1 \<Longrightarrow> ends (\<lambda>s'. fdTable s' = fdTable s) r1"
    "ends (\<lambda>(x, s'). dstate.more s' = dstate.more s) r2 \<Longrightarrow> ends (\<lambda>(x, s'). fdTable s' = fdTable s) r2"
    "ends (\<lambda>(x, s'). mstate.more s' = mstate.more s) r3 \<Longrightarrow> ends (\<lambda>(x, s'). fdTable s' = fdTable s) r3"
  by (erule ends_mono; force dest: more_proc more_fdTable)+

lemma upload_loop_fdTable: "ends (\<lambda>(r, s'). fdTable s' = fdTable s) (upload_loop r i m db buf s)"
proof (induction r arbitrary: i db s)
  case (Suc r)
  show ?case
    unfolding upload_loop.simps
    apply (rule ends_andthen [OF frame_fdTable(2) [OF get_free_dbucket_ix_more]], clarify)
    subgoal for ix s1
      apply (rule ends_andthen [of "\<lambda>s'. fdTable s' = fdTable s1"])
       apply (simp split: option.split)
      apply (rule ends_andthen [OF frame_fdTable(2) [OF get_dbucket_ptr_more]], clarify)
      apply (rule ends_at [OF Suc], simp)
      done
    done
qed simp

lemma upload_data_fdTable: "ends (\<lambda>s'. fdTable s' = fdTable s) (upload_data m sz buf s)"
proof -
  have a: "ends (\<lambda>(ix, s'). fdTable s' = v) (get_free_dbucket_ix t)" "ends (\<lambda>(p, s'). fdTable s' = v) (get_dbucket_ptr ix t)"
    if "fdTable t = v" for v ix and t :: "('a, 'b) ustate_scheme"
    using frame_fdTable(2) [OF get_free_dbucket_ix_more] frame_fdTable(2) [OF get_dbucket_ptr_more] that by auto
  show ?thesis
    unfolding upload_data_def Let_def
    apply (rule ends_andthen [of "\<lambda>(r, s'). fdTable s' = fdTable s"])
     apply (auto intro!: ends_andthen [OF a(1)] ends_andthen [OF a(2)])[1]
    apply (clarify, rule ends_andthen [OF upload_loop_fdTable], clarsimp split: option.split)
    apply (auto intro!: ends_andthen [OF a(1)] ends_andthen [OF a(2)])
    done
qed

text \<open>The metadata bucket an operation finds or makes is one of the array.\<close>

definition mb_res :: "(nat \<Rightarrow> fd_info) \<Rightarrow> nat option \<times> ('d, 'z) ustate_scheme \<Rightarrow> bool" where
  "mb_res v y \<longleftrightarrow> fdTable (snd y) = v \<and> (\<forall>m. fst y = Some m \<longrightarrow> m < META_BUCKETS)"

lemma find_mb_bound: "ends (\<lambda>r. \<forall>m. r = Some m \<longrightarrow> m < META_BUCKETS) (find_mb k p ix s)"
proof (induction k arbitrary: ix)
  case 0
  show ?case by (subst find_mb.simps) simp
next
  case (Suc k)
  then show ?case
    by (subst find_mb.simps) (auto simp: MB_PTR_def)
qed

lemma get_mbucket_res: "ends (mb_res (fdTable s)) (get_mbucket p s)"
proof -
  have "ends (\<lambda>(r, s'). \<forall>m. r = Some m \<longrightarrow> m < META_BUCKETS) (get_mbucket p s)"
    unfolding get_mbucket_def
    apply (rule ends_andthen [OF ends_True])
    apply (rule ends_andthen [OF ends_True])
    apply (rule ends_andthen [OF find_mb_bound])
    apply simp
    done
  with frame_fdTable(3) [OF get_mbucket_proc, of s p] show ?thesis by (auto simp: ends_def mb_res_def)
qed

lemma strict_create_res: "ends (mb_res (fdTable s)) (strict_create_mbucket p s)"
proof -
  have pick: "ends (\<lambda>(r, s'). \<forall>m. r = Some m \<longrightarrow> m < META_BUCKETS) (andthen (MB_PTR ix) (\<lambda>i. Inr (Some i, t)))"
    for ix and t :: "('a, 'b) ustate_scheme"
    by (auto simp: MB_PTR_def)
  have "ends (\<lambda>(r, s'). \<forall>m. r = Some m \<longrightarrow> m < META_BUCKETS) (strict_create_mbucket p s)"
    unfolding strict_create_mbucket_def
    apply (rule ends_andthen [OF ends_True])
    apply (rule ends_andthen [OF ends_True])
    subgoal for h s1
      apply (cases "allocate_mbucket s1", cases "first_ix (hash_table s1 h) = - 1")
       apply (simp add: Let_def pick)
      apply (simp, rule ends_andthen [OF ends_True], rule ends_andthen [OF ends_True])
      apply (auto simp: Let_def pick)
      done
    done
  with frame_fdTable(3) [OF strict_create_proc, of s p] show ?thesis by (auto simp: ends_def mb_res_def)
qed

lemma create_new_file_res: "ends (mb_res (fdTable s)) (create_new_file p flags mode s)"
  unfolding create_new_file_def
  apply (rule ends_andthen [OF strict_create_res], clarsimp simp: mb_res_def split: option.split)
  apply (rule ends_andthen [OF frame_fdTable(2) [OF get_free_dbucket_ix_more]], clarsimp simp: Let_def)
  apply (rule ends_andthen [OF stamp_mb_fdTable], simp add: mb_res_def)
  done

lemma upload_file_res:
  fixes s :: "('a, 'b) ustate_scheme"
  shows "ends (mb_res (fdTable s)) (upload_file os p s)"
proof -
  obtain r st s1 where 1: "os_call (os_stat os p) s = ((r, st), s1)" by (metis surj_pair)
  obtain fd s2 where 2: "os_call (os_open os p 0 0) s1 = (fd, s2)" by force
  have f2: "fdTable s2 = fdTable s" using os_call_fdTable 1 2 by metis
  have body: "ends (mb_res (fdTable s)) (case os_call (os_read os fd n) s3 of ((c, buf), s) \<Rightarrow>
      if c \<noteq> int n then Inr (None, s)
      else case os_call (os_close os fd) s of (_, s) \<Rightarrow>
        if \<not> fits_path p then Inl Fault
        else (let s = upd_mb m (\<lambda>mb. mb\<lparr>mb_path := p, mb_s := st\<rparr>) s in
              andthen (upload_data m n buf s) (\<lambda>s. Inr (Some m, s))))"
    if "fdTable s3 = fdTable s" "m < META_BUCKETS" for m n and s3 :: "('a, 'b) ustate_scheme"
  proof -
    obtain c buf s4 where 4: "os_call (os_read os fd n) s3 = ((c, buf), s4)" by (metis surj_pair)
    obtain x s5 where 5: "os_call (os_close os fd) s4 = (x, s5)" by force
    have "fdTable s4 = fdTable s" "fdTable s5 = fdTable s" using os_call_fdTable 4 5 that(1) by metis+
    moreover have "ends (mb_res (fdTable s)) (andthen (upload_data m n buf t) (\<lambda>s. Inr (Some m, s)))"
      if "fdTable t = fdTable s" for t :: "('a, 'b) ustate_scheme"
      by (rule ends_andthen [OF upload_data_fdTable]) (simp add: mb_res_def that \<open>m < META_BUCKETS\<close>)
    ultimately show ?thesis using 4 5 by (simp add: mb_res_def Let_def)
  qed
  have "ends (mb_res (fdTable s)) (andthen (strict_create_mbucket p s2) (\<lambda>(mb, s).
      case mb of None \<Rightarrow> Inr (None, s\<lparr>errno := EEXIST\<rparr>) | Some m \<Rightarrow> f m s))"
    if "\<And>m s3. fdTable s3 = fdTable s \<Longrightarrow> m < META_BUCKETS \<Longrightarrow> ends (mb_res (fdTable s)) (f m s3)" for f
    by (rule ends_andthen [OF strict_create_res]) (auto simp: mb_res_def f2 that split: option.split)
  note this [OF body]
  then show ?thesis
    unfolding upload_file_def using 1 2 f2 os_call_fdTable [OF 1] by (simp add: mb_res_def)
qed

definition open_res :: "(nat \<Rightarrow> fd_info) \<Rightarrow> (int + nat) \<times> ('d, 'z) ustate_scheme \<Rightarrow> bool" where
  "open_res v y \<longleftrightarrow> fdTable (snd y) = v \<and> (\<forall>m. fst y = Inr m \<longrightarrow> m < META_BUCKETS)"

lemma open_mb_res:
  fixes s :: "('a, 'b) ustate_scheme"
  shows "ends (open_res (fdTable s)) (open_mb os p q flags mode s)"
proof -
  have some: "ends (open_res (fdTable s)) (andthen r (\<lambda>(mb, s).
      case mb of Some m \<Rightarrow> Inr (Inr m, s) | None \<Rightarrow> Inr (Inl (errno s), s)))"
    if "ends (mb_res (fdTable s)) r" for r :: "(nat option \<times> ('a, 'b) ustate_scheme) res"
    by (rule ends_andthen [OF that]) (auto simp: mb_res_def open_res_def split: option.split)
  have upload: "ends (mb_res (fdTable s)) (upload_file os q t)"
    and create: "ends (mb_res (fdTable s)) (create_new_file q flags mode t)"
    if "fdTable t = fdTable s" for t :: "('a, 'b) ustate_scheme"
    using upload_file_res [of t] create_new_file_res [of t] that by simp_all
  have trunc: "ends (open_res (fdTable s)) (andthen (truncate_chain ix t) (\<lambda>s.
      andthen (stamp_mb m k (upd_mb m f s)) (\<lambda>s. Inr (Inr m, MB_MODIFY m s))))"
    if "fdTable t = fdTable s" "m < META_BUCKETS" for ix m k f and t :: "('a, 'b) ustate_scheme"
    apply (rule ends_andthen [OF frame_fdTable(1) [OF truncate_chain_more]])
    apply (rule ends_andthen [OF stamp_mb_fdTable])
    using that apply (simp add: open_res_def)
    done
  have stat: "ends (open_res (fdTable s)) (case os_call (os_stat os p) t of ((r, st), s) \<Rightarrow> if r = 0 then f s else g s)"
    if "fdTable t = fdTable s" "\<And>u. fdTable u = fdTable s \<Longrightarrow> ends (open_res (fdTable s)) (f u)"
      "\<And>u. fdTable u = fdTable s \<Longrightarrow> ends (open_res (fdTable s)) (g u)" for t f g
    using that os_call_fdTable [of "os_stat os p" t] by (auto split: prod.split)
  have look: "ends (open_res (fdTable s)) (andthen (get_mbucket q s) k)"
    if "\<And>t. fdTable t = fdTable s \<Longrightarrow> ends (open_res (fdTable s)) (k (None, t))"
      "\<And>m t. fdTable t = fdTable s \<Longrightarrow> m < META_BUCKETS \<Longrightarrow> ends (open_res (fdTable s)) (k (Some m, t))" for k
    apply (rule ends_andthen [OF get_mbucket_res])
    subgoal for y using that by (cases y, cases "fst y") (auto simp: mb_res_def)
    done
  show ?thesis
    unfolding open_mb_def
    apply (cases "has_flag flags O_CREAT"; cases "O_TRUNC_CHECK flags"; simp; rule look; clarsimp)
    using upload create trunc apply (auto simp: open_res_def intro!: some stat)
    done
qed

section \<open>Properties of every descriptor of a session\<close>

text \<open>
  \<open>ok i fi\<close> is a property of entry \<open>i\<close> of the table; \<open>fd_all ok\<close> says that all entries have it. The
  locale lists what can happen to an entry, one law each: \<open>init_fdTable\<close>, \<open>reset_fd\<close>, a time stamp and
  a cached offset on an entry in use, the entry that \<open>open\<close> takes for a metadata bucket, and the
  entry it marks for a descriptor of the operating system. Every system call then keeps the property.
\<close>

definition fd_all :: "(nat \<Rightarrow> fd_info \<Rightarrow> bool) \<Rightarrow> ('d, 'z) ustate_scheme \<Rightarrow> bool" where
  "fd_all ok s \<longleftrightarrow> (\<forall>i. int i < MAX_NUM_FD \<longrightarrow> ok i (fdTable s i))"

lemma fd_all_upd:
  assumes "fd_all ok s" "int i < MAX_NUM_FD \<Longrightarrow> ok i (fdTable s i) \<Longrightarrow> ok i (f (fdTable s i))"
  shows "fd_all ok (upd_fd i f s)"
  using assms by (simp add: fd_all_def)

lemma fd_all_cong: "fdTable s' = fdTable s \<Longrightarrow> fd_all ok s' = fd_all ok s"
  by (simp add: fd_all_def)

lemma fd_all_updates [simp]:
  "fd_all ok (s\<lparr>errno := e\<rparr>) = fd_all ok s" "fd_all ok (upd_mb m f s) = fd_all ok s"
  "fd_all ok (MB_MODIFY m s) = fd_all ok s" "fd_all ok (set_cursor m ix off s) = fd_all ok s"
  "fd_all ok (grow_file m k s) = fd_all ok s"
  by (rule fd_all_cong, simp)+

lemma cache_store_empty [simp]: "fd_empty (cache_store offset ix fi) = fd_empty fi"
  by (simp add: cache_store_def)

lemma FDDES_ends: "ends (\<lambda>i. i = nat fd \<and> 0 \<le> fd \<and> fd < MAX_NUM_FD) (FDDES fd)"
  by (simp add: FDDES_def)

lemma get_empty_fd_ends:
  assumes "0 \<le> lo"
  shows "ends (\<lambda>(fd, s'). fd < 0 \<and> s' = s \<or> lo \<le> fd \<and> fd < MAX_NUM_FD \<and> fd_empty (fdTable s (nat fd)) \<and>
    s' = upd_fd (nat fd) (\<lambda>fi. fi\<lparr>fd_empty := False\<rparr>) s) (get_empty_fd lo to s)"
  using assms
proof (induction lo to s rule: get_empty_fd.induct)
  case (1 lo to s)
  show ?case
    using 1 by (subst get_empty_fd.simps) (auto simp: FDDES_def ends_def)
qed

lemma append_loop_ends: "ends P (append_loop k ix s)"
proof (induction k arbitrary: ix s)
  case (Suc k)
  then show ?case unfolding append_loop.simps by (intro ends_andthen [OF ends_True]) (auto split: prod.split)
qed simp

locale fd_entries =
  fixes os :: "('d, 'x) os_scheme" and ok :: "nat \<Rightarrow> fd_info \<Rightarrow> bool"
  assumes ok_init: "int i < MAX_NUM_FD \<Longrightarrow> ok i (init_fd i fi)"
    and ok_reset: "int i < MAX_NUM_FD \<Longrightarrow> ok i fi \<Longrightarrow> ok i (clear_cache
      (fi\<lparr>mindex := - 1, fd_flags := 0, stamp_type := 0, exclusive := False, fd_empty := True\<rparr>))"
    and ok_stamp: "ok i fi \<Longrightarrow> \<not> fd_empty fi \<Longrightarrow> ok i (fi\<lparr>priv_s := st, stamp_type := ty\<rparr>)"
    and ok_cache: "ok i fi \<Longrightarrow> \<not> fd_empty fi \<Longrightarrow> ok i (cache_store offset ix fi)"
    and ok_take: "ok i fi \<Longrightarrow> fd_empty fi \<Longrightarrow> FIRST_USER_FD \<le> int i \<Longrightarrow> m < META_BUCKETS \<Longrightarrow>
      ok i (fi\<lparr>fd_empty := False, mindex := of_nat m\<rparr>)"
    and ok_pass: "ok i fi \<Longrightarrow> int i = fst (fst (os_open os p flags mode d)) \<Longrightarrow>
      ok i (fi\<lparr>fd_empty := False, exclusive := True\<rparr>)"
begin

lemma init_keeps: "fd_all ok (init_fdTable s)"
  by (simp add: fd_all_def init_fdTable_def ok_init)

lemma reset_keeps: "fd_all ok s \<Longrightarrow> ends (fd_all ok) (reset_fd fd s)"
  unfolding reset_fd_def
  by (rule ends_andthen [OF FDDES_ends]) (auto intro!: fd_all_upd ok_reset)

lemma stamp_keeps:
  assumes "fd_all ok s" "\<not> fd_empty (fdTable s i)"
  shows "ends (fd_all ok) (stamp_fd i type s)"
  unfolding stamp_fd_def
  apply (rule ends_andthen [OF stamp_fdTable], clarify)
  subgoal for st s1 using assms fd_all_cong [of s1 s] by (auto intro!: fd_all_upd ok_stamp)
  done

lemma os_call_keeps: "fd_all ok s \<Longrightarrow> ends (\<lambda>(r, s'). fd_all ok s') (Inr (os_call f s))"
  using os_call_fdTable [of f s] fd_all_cong [of _ s ok] by (cases "os_call f s") simp

lemma open_keeps:
  fixes s :: "('d, 'b) ustate_scheme"
  assumes "fd_all ok s"
  shows "ends (\<lambda>(r, s'). fd_all ok s') (ufs_open os p flags mode s)"
proof -
  have get: "ends (\<lambda>(r, s'). fd_all ok s') (andthen (get_empty_fd FIRST_USER_FD MAX_NUM_FD t) (\<lambda>(fd, s).
      if fd < 0 then Inr (- 1, s\<lparr>errno := EMFILE\<rparr>)
      else andthen (FDDES fd) (\<lambda>i. Inr (fd, (upd_fd i (\<lambda>fi. fi\<lparr>mindex := of_nat m\<rparr>) s)\<lparr>errno := 0\<rparr>))))"
    if "fd_all ok t" "m < META_BUCKETS" for m and t :: "('d, 'b) ustate_scheme"
    apply (rule ends_andthen [OF get_empty_fd_ends])
    using that ok_take [of "nat fd" for fd] by (auto simp: FDDES_def fd_all_def ufs_config)
  have body: "ends (\<lambda>(r, s'). fd_all ok s') (andthen (if has_flag flags O_APPEND then append_loop k ix t else Inr (upd_mb m f t))
      (\<lambda>s. andthen (get_empty_fd FIRST_USER_FD MAX_NUM_FD s) (\<lambda>(fd, s).
        if fd < 0 then Inr (- 1, s\<lparr>errno := EMFILE\<rparr>)
        else andthen (FDDES fd) (\<lambda>i. Inr (fd, (upd_fd i (\<lambda>fi. fi\<lparr>mindex := of_nat m\<rparr>) s)\<lparr>errno := 0\<rparr>)))))"
    if "fd_all ok t" "m < META_BUCKETS" for k ix m f and t :: "('d, 'b) ustate_scheme"
    by (rule ends_andthen [of "fd_all ok"]) (auto simp: append_loop_ends that intro: get)
  have excl: "ends (\<lambda>(r, s'). fd_all ok s') (case os_call (os_open os p flags mode) s of (ret, s) \<Rightarrow>
      if ret > 0 then andthen (FDDES ret) (\<lambda>i. Inr (ret, upd_fd i (\<lambda>fi. fi\<lparr>fd_empty := False, exclusive := True\<rparr>) s))
      else Inr (ret, s))"
  proof -
    obtain ret t where c: "os_call (os_open os p flags mode) s = (ret, t)" by force
    then have ret: "ret = fst (fst (os_open os p flags mode (disk s)))"
      by (auto simp: os_call_def split: prod.splits)
    have t: "fd_all ok t" using assms fd_all_cong [OF os_call_fdTable [OF c], of ok] by simp
    then have "fd_all ok (upd_fd (nat ret) (\<lambda>fi. fi\<lparr>fd_empty := False, exclusive := True\<rparr>) t)" if "0 < ret"
      using that ret by (intro fd_all_upd ok_pass) auto
    with c t show ?thesis by (simp add: FDDES_def)
  qed
  show ?thesis
    unfolding ufs_open_def
    apply (simp only: if_split)
    apply (intro conjI impI)
       apply (rule os_call_keeps [OF assms])
      apply (rule excl)
     apply (simp add: assms)
    apply (rule ends_andthen [OF ends_True])
    apply (rule ends_andthen [OF open_mb_res], clarify)
    subgoal for fpath r t
    proof (cases r)
      case (Inr m)
      assume "open_res (fdTable s) (r, t)"
      then have "fd_all ok t" "m < META_BUCKETS" using assms Inr fd_all_cong [of t s] by (auto simp: open_res_def)
      then show ?thesis unfolding Inr sum.case by (rule body)
    qed (use assms fd_all_cong [of t s] in \<open>simp add: open_res_def\<close>)
    done
qed

text \<open>The calls on an open descriptor: what they do to an entry that is in use.\<close>

lemma open_fd_keeps:
  assumes "fd_all ok s" "\<And>i. \<not> fd_empty (fdTable s i) \<Longrightarrow> ends (\<lambda>(r, s'). fd_all ok s') (body i)"
  shows "ends (\<lambda>(r, s'). fd_all ok s') (andthen (FDDES fd) (\<lambda>i. if exclusive (fdTable s i) then Inr (os_call f s)
    else if fd_empty (fdTable s i) then Inr (x, s\<lparr>errno := EBADF\<rparr>) else body i))"
proof (rule ends_andthen [OF ends_True])
  fix i
  show "ends (\<lambda>(r, s'). fd_all ok s') (if exclusive (fdTable s i) then Inr (os_call f s)
      else if fd_empty (fdTable s i) then Inr (x, s\<lparr>errno := EBADF\<rparr>) else body i)"
    using assms os_call_keeps [OF assms(1), of f] by simp
qed

lemma read_keeps: "fd_all ok s \<Longrightarrow> ends (\<lambda>(r, s'). fd_all ok s') (ufs_read os fd c s)"
  unfolding ufs_read_def
  apply (rule open_fd_keeps, simp_all)
  apply (rule ends_andthen [OF ends_True])
  apply (rule ends_andthen [OF frame_fdTable(2) [OF read_loop_more]], clarify)
  subgoal for i m out ix off t
    apply (rule ends_andthen [of "fd_all ok"])
    using fd_all_cong [of t s] by (auto intro!: stamp_keeps)
  done

lemma write_keeps: "fd_all ok s \<Longrightarrow> ends (\<lambda>(r, s'). fd_all ok s') (ufs_write os fd buf s)"
  unfolding ufs_write_def
  apply (rule open_fd_keeps, assumption)
  apply (rule ends_andthen [OF ends_True])
  apply (rule ends_andthen [OF frame_fdTable(2) [OF write_loop_more]], clarify)
  subgoal for i m n si ix off t
    apply (rule ends_andthen [of "fd_all ok"])
    using fd_all_cong [of t s] by (auto intro!: ends_andthen [OF stamp_keeps])
  done

lemma find_bucket_keeps:
  assumes "fd_all ok s" "\<not> fd_empty (fdTable s i)"
  shows "ends (\<lambda>(r, s'). fd_all ok s' \<and> \<not> fd_empty (fdTable s' i)) (find_bucket i m offset s)"
  unfolding find_bucket_def Let_def
  apply (simp add: assms)
  apply (intro impI, rule ends_andthen [OF frame_fdTable(2) [OF seek_loop_more]], clarify)
  subgoal for r t
    using assms fd_all_cong [of t s]
    by (auto intro!: fd_all_upd ok_cache split: option.split)
  done

lemma after_find_bucket:
  assumes "fd_all ok s" "\<not> fd_empty (fdTable s i)"
    "\<And>t. fd_all ok t \<Longrightarrow> ends (\<lambda>(r, s'). fd_all ok s') (g t)"
    "\<And>ix t. fd_all ok t \<Longrightarrow> \<not> fd_empty (fdTable t i) \<Longrightarrow> ends (\<lambda>(r, s'). fd_all ok s') (h ix t)"
  shows "ends (\<lambda>(r, s'). fd_all ok s') (andthen (find_bucket i m offset s) (\<lambda>(r, s). case r of None \<Rightarrow> g s | Some ix \<Rightarrow> h ix s))"
  by (rule ends_andthen [OF find_bucket_keeps [OF assms(1,2)]]) (auto intro: assms(3,4) split: option.split)

lemma pread_keeps: "fd_all ok s \<Longrightarrow> ends (\<lambda>(r, s'). fd_all ok s') (ufs_pread os fd c offset s)"
  unfolding ufs_pread_def
  apply (rule open_fd_keeps, assumption)
  apply (rule ends_andthen [OF ends_True])
  apply (rule after_find_bucket, assumption, assumption, simp)
  subgoal for i m ix t
    apply (rule ends_andthen [OF frame_fdTable(2) [OF pread_loop_more]], clarify)
    subgoal for out u
      apply (rule ends_andthen [of "fd_all ok"])
      using fd_all_cong [of u t] by (auto intro!: stamp_keeps)
    done
  done

lemma pwrite_keeps: "fd_all ok s \<Longrightarrow> ends (\<lambda>(r, s'). fd_all ok s') (ufs_pwrite os fd buf offset s)"
  unfolding ufs_pwrite_def
  apply (rule open_fd_keeps, assumption)
  apply (rule ends_andthen [OF ends_True])
  apply (rule after_find_bucket, assumption, assumption, simp)
  subgoal for i m ix t
    apply (rule ends_andthen [OF frame_fdTable(2) [OF pwrite_loop_more]], clarify)
    subgoal for n si u
      apply (rule ends_andthen [of "fd_all ok"])
      using fd_all_cong [of u t] by (auto intro!: ends_andthen [OF stamp_keeps])
    done
  done

lemma close_keeps:
  assumes "fd_all ok s"
  shows "ends (\<lambda>(r, s'). fd_all ok s') (ufs_close os fd s)"
  unfolding ufs_close_def
proof (rule ends_andthen [OF ends_True])
  fix i
  obtain ret t where t: "os_call (os_close os fd) s = (ret, t)" by force
  then have "fd_all ok t" using assms os_call_fdTable [OF t] fd_all_cong [of t s] by simp
  then have excl: "ends (\<lambda>(r, s'). fd_all ok s') (andthen (reset_fd fd t) (\<lambda>s. Inr (x, s\<lparr>errno := e\<rparr>)))" for x :: int and e
    by (auto intro: ends_andthen [OF reset_keeps])
  have own: "ends (\<lambda>(r, s'). fd_all ok s') (andthen (fd_mb i s) (\<lambda>m. andthen (reset_fd fd (upd_mb m (f m) s))
      (\<lambda>s. Inr (0 :: int, s\<lparr>errno := 0\<rparr>))))" for f
    by (rule ends_andthen [OF ends_True], rule ends_andthen [OF reset_keeps]) (simp_all add: assms)
  show "ends (\<lambda>(r, s'). fd_all ok s') (if exclusive (fdTable s i) then
         (case os_call (os_close os fd) s of (ret, s) \<Rightarrow>
            if ret = 0 then (let err = errno s in andthen (reset_fd fd s) (\<lambda>s. Inr (ret, s\<lparr>errno := err\<rparr>)))
            else Inr (ret, s))
       else if fd_empty (fdTable s i) then Inr (- 1, s\<lparr>errno := EBADF\<rparr>)
       else andthen (fd_mb i s) (\<lambda>m. andthen (reset_fd fd (upd_mb m (\<lambda>mb. mb\<lparr>mb_s := merge_stamps (fdTable s i) (mb_s mb)\<rparr>) s))
         (\<lambda>s. Inr (0, s\<lparr>errno := 0\<rparr>))))"
    using t excl own assms \<open>fd_all ok t\<close> by (simp add: Let_def)
qed

lemma names_keep:
  assumes "fd_all ok s"
  shows "ends (\<lambda>(r, s'). fd_all ok s') (get_mbucket p s)" "ends (\<lambda>(r, s'). fd_all ok s') (release_meta_bucket p s)"
    "ends (\<lambda>(r, s'). fd_all ok s') (mb_chpath p q s)"
  using assms
  by (auto intro!: ends_mono [OF frame_fdTable(3) [OF get_mbucket_proc]] ends_mono [OF frame_fdTable(3) [OF release_proc]]
      ends_mono [OF frame_fdTable(3) [OF mb_chpath_proc]] simp: fd_all_def)

lemma unlink_keeps:
  assumes "fd_all ok s"
  shows "ends (\<lambda>(r, s'). fd_all ok s') (ufs_unlink os p s)"
proof -
  have "ends (\<lambda>(r, s'). fd_all ok s') (andthen (full_path d p) (\<lambda>f. andthen (release_meta_bucket f s) (\<lambda>(r, s).
      if r = 0 then Inr (0 :: int, s\<lparr>errno := 0\<rparr>) else Inr (- 1, s\<lparr>errno := ENOENT\<rparr>))))" for d
    by (rule ends_andthen [OF ends_True], rule ends_andthen [OF names_keep(2) [OF assms]]) auto
  with os_call_keeps [OF assms, of "os_unlink os p"] assms show ?thesis by (simp add: ufs_unlink_def)
qed

lemma rename_keeps:
  assumes "fd_all ok s"
  shows "ends (\<lambda>(r, s'). fd_all ok s') (ufs_rename os p q s)"
proof -
  have fin: "ends (\<lambda>(r, s'). fd_all ok s') (andthen (get_mbucket f t) (\<lambda>(mb, s).
        case mb of Some m \<Rightarrow> Inl Exit | None \<Rightarrow> Inr (ret, s\<lparr>errno := err\<rparr>)))"
      "ends (\<lambda>(r, s'). fd_all ok s') (andthen (get_mbucket f t) (\<lambda>(mb, s).
        case mb of None \<Rightarrow> Inl Fault | Some m \<Rightarrow> Inr (ret, (MB_MODIFY m s)\<lparr>errno := 0\<rparr>)))"
    if "fd_all ok t" for f ret err and t :: "('d, 'b) ustate_scheme"
    by (rule ends_andthen [OF names_keep(1) [OF that]], auto split: option.split)+
  have "fd_all ok u" if "fd_all ok t" "os_call g t = (r, u)" for g r and t u :: "('d, 'b) ustate_scheme"
    using that os_call_fdTable [OF that(2)] fd_all_cong [of u t] by simp
  note oc = this
  show ?thesis
    unfolding ufs_rename_def
    apply (simp add: assms, intro impI)
    apply (rule ends_andthen [OF ends_True])
    apply (rule ends_andthen [OF ends_True])
    apply (rule ends_andthen [OF names_keep(3) [OF assms]], clarify)
    subgoal for fo fn ret t
      using oc [of t "os_rename os p q"] by (cases "os_call (os_rename os p q) t") (auto simp: Let_def intro!: fin)
    done
qed

lemma stat_keeps:
  assumes "fd_all ok s"
  shows "ends (\<lambda>(r, s'). fd_all ok s') (ufs_xstat os p s)" "ends (\<lambda>(r, s'). fd_all ok s') (ufs_lxstat os p s)"
    "ends (\<lambda>(r, s'). fd_all ok s') (ufs_fxstat os fd s)"
proof -
  have oc: "fd_all ok u" if "fd_all ok t" "os_call g t = (r, u)" for g r and t u :: "('d, 'b) ustate_scheme"
    using that os_call_fdTable [OF that(2)] fd_all_cong [of u t] by simp
  have "ends (\<lambda>(r, s'). fd_all ok s') (path_stat os real p s)" for real
    unfolding path_stat_def
    apply (simp add: assms, intro impI)
    apply (rule ends_andthen [OF ends_True])
    apply (rule ends_andthen [OF names_keep(1) [OF assms]], clarify)
    subgoal for f mb t
      using oc [of t "real p"] by (cases "os_call (real p) t") (auto split: option.split)
    done
  then show "ends (\<lambda>(r, s'). fd_all ok s') (ufs_xstat os p s)" "ends (\<lambda>(r, s'). fd_all ok s') (ufs_lxstat os p s)"
    by (simp_all add: ufs_xstat_def ufs_lxstat_def)
  show "ends (\<lambda>(r, s'). fd_all ok s') (ufs_fxstat os fd s)"
    unfolding ufs_fxstat_def
    apply (rule ends_andthen [OF ends_True])
    apply (cases "os_call (os_fstat os fd) s")
    using assms oc [of s "os_fstat os fd"] by (auto intro!: ends_andthen [OF ends_True])
qed

end

section \<open>The descriptor table of any session\<close>

text \<open>One entry: a free user descriptor is as \<open>init_fdTable\<close> and \<open>reset_fd\<close> leave it; one in use by
  the library is a user descriptor and has a metadata bucket.\<close>

definition fd_ok :: "nat \<Rightarrow> fd_info \<Rightarrow> bool" where
  "fd_ok i fi \<longleftrightarrow>
     (fd_empty fi \<and> FIRST_USER_FD \<le> int i \<longrightarrow>
        mindex fi = - 1 \<and> fd_flags fi = 0 \<and> \<not> exclusive fi \<and> stamp_type fi = 0 \<and>
        (\<forall>j < OFFSET_PROCESS_CACHE_SIZE. oi_offset (off_db_mapping fi j) = - 1)) \<and>
     (\<not> fd_empty fi \<and> \<not> exclusive fi \<longrightarrow> FIRST_USER_FD \<le> int i \<and> unat (mindex fi) < META_BUCKETS)"

definition fd_inv :: "('d, 'z) ustate_scheme \<Rightarrow> bool" where
  "fd_inv s \<longleftrightarrow> (\<forall>i. int i < MAX_NUM_FD \<longrightarrow> fd_ok i (fdTable s i))"

lemma fd_inv_all: "fd_inv = fd_all fd_ok"
  by (intro ext) (simp add: fd_inv_def fd_all_def)

lemma fd_inv_cong: "fdTable s' = fdTable s \<Longrightarrow> fd_inv s' = fd_inv s"
  by (simp add: fd_inv_def)

interpretation fd_tab: fd_entries os fd_ok for os
proof
  show "fd_ok i (init_fd i fi)" if "int i < MAX_NUM_FD" for i fi
    using that by (auto simp: fd_ok_def init_fd_def clear_cache_def ufs_config)
qed (auto simp: fd_ok_def clear_cache_def cache_store_def ufs_config unat_of_nat_u32)

lemmas init_fdTable_inv = fd_tab.init_keeps [folded fd_inv_all]
  and ufs_open_inv = fd_tab.open_keeps [folded fd_inv_all]
  and ufs_close_inv = fd_tab.close_keeps [folded fd_inv_all]
  and ufs_read_inv = fd_tab.read_keeps [folded fd_inv_all]
  and ufs_write_inv = fd_tab.write_keeps [folded fd_inv_all]
  and ufs_pread_inv = fd_tab.pread_keeps [folded fd_inv_all]
  and ufs_pwrite_inv = fd_tab.pwrite_keeps [folded fd_inv_all]

text \<open>A user descriptor is passed on to the operating system only if its number is one that the
  operating system's own \<open>open\<close> returns.\<close>

definition fd_passed :: "('d, 'x) os_scheme \<Rightarrow> nat \<Rightarrow> fd_info \<Rightarrow> bool" where
  "fd_passed os i fi \<longleftrightarrow> (exclusive fi \<and> FIRST_USER_FD \<le> int i \<longrightarrow>
     (\<exists>p flags mode d. fst (fst (os_open os p flags mode d)) = int i))"

interpretation fd_pass: fd_entries os "fd_passed os" for os
  by unfold_locales (auto simp: fd_passed_def init_fd_def clear_cache_def cache_store_def ufs_config)

section \<open>Sessions\<close>

text \<open>A program that uses the library: a sequence of system calls with any arguments. A call that
  does not return ends the session.\<close>

datatype call =
    Open string u32 nat | Close int | Read int nat | Write int "byte list"
  | Pread int nat int | Pwrite int "byte list" int | Unlink string | Rename string string
  | Xstat string | Lxstat string | Fxstat int | Fsync int

definition after :: "('a \<times> 's) res \<Rightarrow> 's res" where
  "after r = andthen r (\<lambda>(x, s). Inr s)"

fun do_call :: "('d, 'x) os_scheme \<Rightarrow> call \<Rightarrow> ('d, 'z) ustate_scheme \<Rightarrow> ('d, 'z) ustate_scheme res" where
  "do_call os (Open p flags mode) s = after (ufs_open os p flags mode s)"
| "do_call os (Close fd) s = after (ufs_close os fd s)"
| "do_call os (Read fd n) s = after (ufs_read os fd n s)"
| "do_call os (Write fd buf) s = after (ufs_write os fd buf s)"
| "do_call os (Pread fd n offset) s = after (ufs_pread os fd n offset s)"
| "do_call os (Pwrite fd buf offset) s = after (ufs_pwrite os fd buf offset s)"
| "do_call os (Unlink p) s = after (ufs_unlink os p s)"
| "do_call os (Rename p q) s = after (ufs_rename os p q s)"
| "do_call os (Xstat p) s = after (ufs_xstat os p s)"
| "do_call os (Lxstat p) s = after (ufs_lxstat os p s)"
| "do_call os (Fxstat fd) s = after (ufs_fxstat os fd s)"
| "do_call os (Fsync fd) s = Inr s"

inductive session :: "('d, 'x) os_scheme \<Rightarrow> ('d, 'z) ustate_scheme \<Rightarrow> ('d, 'z) ustate_scheme \<Rightarrow> bool"
  for os s where
  start: "session os s (init_fdTable s)"
| call: "session os s t \<Longrightarrow> do_call os c t = Inr u \<Longrightarrow> session os s u"

context fd_entries
begin

lemma after_keeps: "ends (\<lambda>(r, s'). fd_all ok s') r \<Longrightarrow> ends (fd_all ok) (after r)"
  unfolding after_def by (erule ends_andthen) auto

lemma do_call_keeps: "fd_all ok s \<Longrightarrow> ends (fd_all ok) (do_call os c s)"
  by (cases c) (simp_all add: after_keeps open_keeps close_keeps read_keeps write_keeps pread_keeps
      pwrite_keeps unlink_keeps rename_keeps stat_keeps)

lemma session_keeps: "session os s t \<Longrightarrow> fd_all ok t"
  by (induction rule: session.induct) (auto intro: init_keeps dest: endsD [OF do_call_keeps])

end

end
