(* ===== verification/Ufs_Open.thy ===== *)
theory Ufs_Open
  imports Ufs_Posix Ufs_Frame
begin

text \<open>
  Opening and closing files: creation of a file, opening an existing one, the descriptor that
  results, and whole sessions of calls. The theorems compose the name table, the bucket allocator,
  the descriptor table and the data loops.
\<close>

unbundle bit_operations_syntax

section \<open>What the name table depends on\<close>

text \<open>A change of the state that keeps what the rows are made of.\<close>

lemma rows_fields:
  assumes "hash_table s' = hash_table s"
    "\<And>i. mb_path (mb_arr s' i) = mb_path (mb_arr s i) \<and> mb_in_use (mb_arr s' i) = mb_in_use (mb_arr s i) \<and>
       mb_next_ix (mb_arr s' i) = mb_next_ix (mb_arr s i) \<and> mb_lock (mb_arr s' i) = mb_lock (mb_arr s i)"
  shows "minv s' = minv s" "look s' = look s"
proof -
  have "row_of k (mb_arr s') ix = row_of k (mb_arr s) ix" for k ix
    by (rule row_of_cong) (simp add: assms(2))
  then show "look s' = look s"
    by (intro ext) (simp add: look_def assms split: sum.split)
  have "mseg (mb_arr s') ix xs iy = mseg (mb_arr s) ix xs iy" for ix xs iy
    by (induction xs arbitrary: ix) (simp_all add: assms)
  then have "rows_ok s' = rows_ok s"
    by (intro ext) (simp add: rows_ok_def row_ok_def assms)
  then show "minv s' = minv s" by (simp add: minv_def)
qed

section \<open>Creating a file\<close>

text \<open>The part of a process that creation and lookup leave alone.\<close>

definition proc_kept :: "('d, 'y) ustate_scheme \<Rightarrow> ('d, 'z) ustate_scheme \<Rightarrow> bool" where
  "proc_kept s s' \<longleftrightarrow> fdTable s' = fdTable s \<and> calling_shm_open s' = calling_shm_open s \<and>
     calling_shm_unlink s' = calling_shm_unlink s \<and> disk s' = disk s"

text \<open>Every file but \<open>m\<close> keeps its buckets, its attributes and its contents.\<close>

definition files_kept :: "nat \<Rightarrow> 'y mstate_scheme \<Rightarrow> 'z mstate_scheme \<Rightarrow> bool" where
  "files_kept m s s' \<longleftrightarrow>
     (\<forall>m' qs. m' \<noteq> m \<longrightarrow> file_ok s m' qs \<longrightarrow>
        file_ok s' m' qs \<and> content s' qs = content s qs \<and> mb_s (mb_arr s' m') = mb_s (mb_arr s m'))"

text \<open>A step that changes neither files nor names nor descriptors.\<close>

definition quiet :: "('d, 'y) ustate_scheme \<Rightarrow> ('d, 'z) ustate_scheme \<Rightarrow> bool" where
  "quiet s s' \<longleftrightarrow> hash_table s' = hash_table s \<and> mb_arr s' = mb_arr s \<and> dbs s' = dbs s \<and> live s' = live s \<and>
     alloc_inv s' = alloc_inv s \<and> whole_array s' = whole_array s \<and> fdTable s' = fdTable s \<and>
     calling_shm_open s' = calling_shm_open s \<and>
     calling_shm_unlink s' = calling_shm_unlink s"

lemma quiet_names: "quiet s s' \<Longrightarrow> minv s' = minv s \<and> look s' = look s"
  using rows_fields [of s' s] by (simp add: quiet_def)

lemma quiet_mem: "quiet s s' \<Longrightarrow> mem_kept A M s s'"
  by (simp add: quiet_def mem_kept_def)

lemma quiet_trans: "quiet s t \<Longrightarrow> quiet t u \<Longrightarrow> quiet s u"
  by (simp add: quiet_def)

lemma quiet_errno: "quiet s s' \<Longrightarrow> quiet s (s'\<lparr>errno := e\<rparr>)"
  using same_dataD [OF same_data_upd(4) [where u = s' and e = e]] by (simp add: quiet_def)

lemma quiet_refl [simp]: "quiet s s"
  by (simp add: quiet_def)

lemma quiet_os_call: "os_call f s = (r, s') \<Longrightarrow> quiet s s'"
proof -
  assume "os_call f s = (r, s')"
  then obtain d e where s': "s' = s\<lparr>disk := d, errno := e\<rparr>" by (auto simp: os_call_def split: prod.splits)
  then have "same_data s' s" by (simp add: same_data_def dstate.defs)
  from same_dataD [OF this] s' show ?thesis by (simp add: quiet_def)
qed

lemma stamp_mb_result:
  assumes "type AND (ST_ACS OR ST_MOD OR ST_CHG) \<noteq> 0"
  shows "\<exists>st c. stamp_mb m type s = Inr (upd_mb m (\<lambda>mb. mb\<lparr>mb_s := st\<rparr>) (s\<lparr>clock_pos := c\<rparr>)) \<and>
    st_size st = st_size (mb_s (mb_arr s m))"
proof -
  obtain st s1 where st: "stamp (mb_s (mb_arr s m)) type s = Inr (st, s1)" using stamp_ok [OF assms] by blast
  with stamp_result [OF st] show ?thesis
    by (intro exI [of _ st] exI [of _ "clock_pos s1"]) (simp add: stamp_mb_def)
qed

lemma created_data:
  "dbs (created h xs j s) = dbs s" "live (created h xs j s) = live s"
  "alloc_inv (created h xs j s) = alloc_inv s" "dinv (created h xs j s) = dinv s"
  "whole_array (created h xs j s) = whole_array s" "free_buckets (created h xs j s) = free_buckets s"
proof -
  let ?r = "s\<lparr>rand_pos := Suc (rand_pos s)\<rparr>"
  have "same_data (created h xs j s) (upd_mb j (\<lambda>mb. mb\<lparr>mb_in_use := True\<rparr>) ?r)"
    by (auto simp: created_def relink_def split: option.split)
  then have sd: "same_data (created h xs j s) ?r" using same_data_trans same_data_upd(1) by blast
  have "dinv ?r = dinv s" "core_inv ?r = core_inv s" "live ?r = live s" by (simp_all add: core_inv_def)
  with same_dataD [OF sd] show "dbs (created h xs j s) = dbs s" "live (created h xs j s) = live s"
    "alloc_inv (created h xs j s) = alloc_inv s" "dinv (created h xs j s) = dinv s"
    by (simp_all add: alloc_inv_def)
  then show "free_buckets (created h xs j s) = free_buckets s" by (simp add: free_buckets_def)
  show "whole_array (created h xs j s) = whole_array s"
    using same_dataD(9) [OF sd] by (simp add: whole_array_def)
qed

lemma created_proc: "proc_kept s (created h xs j (s :: ('d, 'z) ustate_scheme))"
  by (simp add: proc_kept_def created_def relink_def upd_mb_def upd_hi_def split: option.split)

lemma created_mb:
  "mb_s (mb_arr (created h xs j s) i) = mb_s (mb_arr s i)"
  "first_dbucket (mb_arr (created h xs j s) i) = first_dbucket (mb_arr s i)"
  "last_dbucket (mb_arr (created h xs j s) i) = last_dbucket (mb_arr s i)"
  "last_db_offset (mb_arr (created h xs j s) i) = last_db_offset (mb_arr s i)"
  "mb_in_use (mb_arr (created h xs j s) i) = (i = j \<or> mb_in_use (mb_arr s i))"
  by (simp_all add: created_def relink_mb_arr)

lemma created_mem: "mem_kept A M s (created h xs j s)"
  by (simp add: mem_kept_def created_data created_mb)

lemma mem_kept_files:
  assumes "mem_kept {} {m} s s'"
  shows "files_kept m s s'"
  unfolding files_kept_def
proof (intro allI impI)
  fix m' qs assume m': "m' \<noteq> m" and ok: "file_ok s m' qs"
  note k = mem_kept_file [OF assms ok]
  have "mb_s (mb_arr s' m') = mb_s (mb_arr s m')" using assms m' by (simp add: mem_kept_def)
  with k(1,2) m' show "file_ok s' m' qs \<and> content s' qs = content s qs \<and> mb_s (mb_arr s' m') = mb_s (mb_arr s m')"
    by simp
qed

text \<open>An operation that takes one free data bucket keeps all files.\<close>

lemma takes_mem:
  assumes "takes s d s'" "same_data t s'" "\<And>i. i \<noteq> m \<Longrightarrow> mb_arr t i = mb_arr s i"
  shows "mem_kept {} {m} s t"
  using assms(1,3) takes_live [OF assms(1)] same_dataD [OF assms(2)] by (auto simp: mem_kept_def takes_def)

lemma files_kept_cong:
  assumes "files_kept m s1 t" "same_data s1 s" "\<And>i. mb_s (mb_arr s1 i) = mb_s (mb_arr s i)"
    "\<And>i. first_dbucket (mb_arr s1 i) = first_dbucket (mb_arr s i)"
  shows "files_kept m s t"
proof -
  have "file_ok s1 m' qs = file_ok s m' qs" "content s1 qs = content s qs" for m' qs
    using same_data_chain [OF assms(2)] by (simp_all add: file_ok_def assms(3,4))
  with assms(1,3) show ?thesis by (simp add: files_kept_def)
qed

definition new_bucket :: "u32 \<Rightarrow> stat \<Rightarrow> string \<Rightarrow> meta_bucket \<Rightarrow> meta_bucket" where
  "new_bucket ix st p mb = mb\<lparr>first_dbucket := ix, mb_s := st, mb_path := p, consisent := False\<rparr>"

lemma create_new_file_state:
  assumes "strict_create_mbucket p s = Inr (Some m, s1)" "fits_path p"
    "get_free_dbucket_ix s1 = Inr (ix, s2)"
  shows "\<exists>st c. st_size st = 0 \<and>
    create_new_file p flags mode s = Inr (Some m, upd_mb m (new_bucket ix st p) (s2\<lparr>clock_pos := c\<rparr>))"
proof -
  let ?t = "upd_mb m (\<lambda>mb. mb\<lparr>mb_path := p\<rparr>) (upd_mb m (\<lambda>mb. mb\<lparr>first_dbucket := ix,
      mb_s := (mb_s mb)\<lparr>st_mode := mode, st_size := 0, st_blocks := 1, st_blksize := int DBUCKET_BUF_SIZE\<rparr>\<rparr>) s2)"
  obtain st c where st: "stamp_mb m (ST_ACS OR ST_MOD OR ST_CHG) ?t =
      Inr (upd_mb m (\<lambda>mb. mb\<lparr>mb_s := st\<rparr>) (?t\<lparr>clock_pos := c\<rparr>))" "st_size st = st_size (mb_s (mb_arr ?t m))"
    using stamp_mb_result [OF stamp_kinds(3)] by blast
  have "MB_MODIFY m (upd_mb m (\<lambda>mb. mb\<lparr>mb_s := st\<rparr>) (?t\<lparr>clock_pos := c\<rparr>)) =
      upd_mb m (new_bucket ix st p) (s2\<lparr>clock_pos := c\<rparr>)"
    by (auto simp: MB_MODIFY_def upd_mb_def new_bucket_def intro!: mstate.equality ext)
  with assms st show ?thesis
    by (intro exI [of _ st] exI [of _ c]) (simp add: create_new_file_def Let_def)
qed

text \<open>The state after a successful creation, as the rest of the library sees it.\<close>

definition has_new_file :: "string \<Rightarrow> nat \<Rightarrow> ('d, 'z) ustate_scheme \<Rightarrow> ('d, 'z) ustate_scheme \<Rightarrow> bool" where
  "has_new_file p m s s' \<longleftrightarrow>
     m < META_BUCKETS \<and> \<not> mb_in_use (mb_arr s m) \<and> minv s' \<and> look s' = (look s)(p \<mapsto> m) \<and> alloc_inv s' \<and>
     proc_kept s s' \<and> mem_kept {} {m} s s' \<and> (\<forall>i. mb_in_use (mb_arr s' i) = (i = m \<or> mb_in_use (mb_arr s i))) \<and>
     (\<exists>d. \<not> db_in_use (dbs s d) \<and> file_ok s' m [d] \<and> content s' [d] = [])"

lemma create_in_bucket:
  assumes R: "rows_ok s R" and p: "hash p = Inr h" "ok_path p" "look s p = None"
    and j: "j < META_BUCKETS" "\<not> mb_in_use (mb_arr s j)" and a: "alloc_inv s"
    and al: "get_free_dbucket_ix (created h (R h) j s) = Inr (ix, s2)" and st: "st_size st = 0"
  shows "has_new_file p j s (upd_mb j (new_bucket ix st p) (s2\<lparr>clock_pos := c\<rparr>))" (is "has_new_file p j s ?t")
proof -
  let ?s1 = "created h (R h) j s"
  let ?u = "upd_mb j (new_bucket ix st p) ?s1"
  have a1: "alloc_inv ?s1" using a by (simp add: created_data)
  note tk = ufs_alloc.alloc_takes [OF a1 al]
  have "dstate.more s2 = dstate.more ?s1" using tk by (simp add: takes_def)
  note more = more_same [OF this]
  have g: "mb_path (new_bucket ix st p mb) = p \<and> mb_in_use (new_bucket ix st p mb) = mb_in_use mb \<and>
      mb_next_ix (new_bucket ix st p mb) = mb_next_ix mb \<and> mb_lock (new_bucket ix st p mb) = mb_lock mb" for mb
    by (simp add: new_bucket_def)
  have arr: "hash_table ?t = hash_table ?u" "mb_arr ?t = mb_arr ?u" by (simp_all add: more)
  have "minv ?u" using created_rows_ok [OF R p j g] by (auto simp: minv_def)
  moreover have "look ?u = (look s)(p \<mapsto> j)" by (rule created_look [OF R p j g])
  moreover have "minv ?t = minv ?u" "look ?t = look ?u" by (rule rows_fields; simp only: arr)+
  ultimately have names: "minv ?t" "look ?t = (look s)(p \<mapsto> j)" by simp_all
  have sd: "same_data ?t s2" by (rule same_data_trans [OF same_data_upd(1) same_data_upd(5)])
  have ai: "alloc_inv ?t" using ufs_alloc.alloc_keeps [OF a1 al] same_dataD(8) [OF sd] by simp
  have "file_ok ?t j [unat ix]" "content ?t [unat ix] = []"
  proof -
    have b: "db_in_use (dbs s2 (unat ix))" "db_next_ix (dbs s2 (unat ix)) = nil_ix" "db_bytes (dbs s2 (unat ix)) = 0"
      using ufs_alloc.alloc_bucket(1-3) [OF a1 al] by auto
    have "unat ix < live s2" using ufs_alloc.alloc_live [OF a1 al] takes_live [OF tk] by simp
    with b have "dchain s2 ix [unat ix]" "packed s2 [unat ix]" "content s2 [unat ix] = []"
      by (simp_all add: used_def)
    with st show "file_ok ?t j [unat ix]" "content ?t [unat ix] = []"
      unfolding file_ok_def same_data_chain [OF sd] by (simp_all add: new_bucket_def)
  qed
  moreover have "proc_kept s ?t"
  proof -
    have "calling_shm_open s2 = calling_shm_open ?s1" "calling_shm_unlink s2 = calling_shm_unlink ?s1"
      using \<open>dstate.more s2 = dstate.more ?s1\<close> by (cases s2, cases ?s1, simp)+
    then show ?thesis using created_proc [of s h "R h" j] more by (simp add: proc_kept_def upd_mb_def)
  qed
  moreover have "mem_kept {} {j} s ?t"
    by (rule mem_kept_trans [OF created_mem takes_mem [OF tk sd]]) (simp add: more)
  moreover have "mb_in_use (mb_arr ?t i) = (i = j \<or> mb_in_use (mb_arr s i))" for i
    by (simp add: more new_bucket_def created_mb)
  moreover have "\<not> db_in_use (dbs s (unat ix))" using tk by (simp add: takes_def created_data)
  ultimately show ?thesis using names ai j unfolding has_new_file_def by blast
qed

lemma create_new_file_result:
  assumes "minv s" "alloc_inv s" "ok_path p" "fits_path p" "look s p = None"
  shows "case create_new_file p flags mode s of
      Inl e \<Rightarrow> e = Exit \<and> (whole_array s \<longrightarrow> free_buckets s = 0)
    | Inr (None, s') \<Rightarrow> errno s' = ENOSPC \<and> (\<forall>i < META_BUCKETS. mb_in_use (mb_arr s i)) \<and> quiet s s' \<and> disk s' = disk s
    | Inr (Some m, s') \<Rightarrow> has_new_file p m s s'"
proof -
  obtain R h where R: "rows_ok s R" and h: "hash p = Inr h"
    using assms(1) ok_path_hash [OF assms(3)] by (auto simp: minv_def)
  consider (new) j where "j < META_BUCKETS" "\<not> mb_in_use (mb_arr s j)"
      "strict_create_mbucket p s = Inr (Some j, created h (R h) j s)"
    | (none) "\<forall>i < META_BUCKETS. mb_in_use (mb_arr s i)"
      "strict_create_mbucket p s = Inr (None, s\<lparr>rand_pos := Suc (rand_pos s)\<rparr>)"
    using strict_create_cases [OF R h assms(3)] assms(5) by auto
  then show ?thesis
  proof cases
    case (new j)
    let ?s1 = "created h (R h) j s"
    have a1: "alloc_inv ?s1" using assms(2) by (simp add: created_data)
    show ?thesis
    proof (cases "get_free_dbucket_ix ?s1")
      case (Inl e)
      with new(3) ufs_alloc.alloc_exit [OF a1 Inl] ufs_whole.alloc_exhausted [OF a1 _ Inl]
      show ?thesis by (simp add: create_new_file_def created_data)
    next
      case (Inr r)
      obtain ix s2 where r: "r = (ix, s2)" by force
      from create_new_file_state [OF new(3) assms(4) Inr [unfolded r], of flags mode] obtain st c where
        "st_size st = 0" "create_new_file p flags mode s = Inr (Some j, upd_mb j (new_bucket ix st p) (s2\<lparr>clock_pos := c\<rparr>))"
        by blast
      with create_in_bucket [OF R h assms(3,5) new(1,2) assms(2) Inr [unfolded r]] show ?thesis by simp
    qed
  next
    case none
    let ?r = "s\<lparr>rand_pos := Suc (rand_pos s)\<rparr>"
    have "alloc_inv ?r = alloc_inv s" using created_data(3) [of h] by (simp add: alloc_inv_def core_inv_def)
    then have "quiet s (?r\<lparr>errno := ENOSPC\<rparr>)"
      by (intro quiet_errno) (simp add: quiet_def live_def whole_array_def)
    with none show ?thesis by (simp add: create_new_file_def)
  qed
qed

section \<open>From a metadata bucket to a descriptor\<close>

text \<open>A path the library handles itself, with its absolute form.\<close>

definition names_file :: "('d, 'x) os_scheme \<Rightarrow> string \<Rightarrow> string \<Rightarrow> ('d, 'z) ustate_scheme \<Rightarrow> bool" where
  "names_file os path fpath s \<longleftrightarrow>
     \<not> calling_shm_open s \<and> \<not> exclusive_path path \<and> length path \<le> PATH_MAX \<and>
     full_path (os_getcwd os (disk s)) path = Inr fpath \<and> ok_path fpath \<and> fits_path fpath"

definition lowest_fd :: "('d, 'z) ustate_scheme \<Rightarrow> int \<Rightarrow> bool" where
  "lowest_fd s fd \<longleftrightarrow>
     FIRST_USER_FD \<le> fd \<and> fd < MAX_NUM_FD \<and> fd_empty (fdTable s (nat fd)) \<and>
     (\<forall>i. FIRST_USER_FD \<le> i \<and> i < fd \<longrightarrow> \<not> fd_empty (fdTable s (nat i)))"

definition opened :: "nat \<Rightarrow> int \<Rightarrow> ('d, 'z) ustate_scheme \<Rightarrow> ('d, 'z) ustate_scheme" where
  "opened m fd s =
     (upd_fd (nat fd) (\<lambda>fi. fi\<lparr>fd_empty := False, mindex := of_nat m\<rparr>)
       (upd_mb m (\<lambda>mb. mb\<lparr>last_dbucket := first_dbucket mb, last_db_offset := 0\<rparr>) s))\<lparr>errno := 0\<rparr>"

lemma ufs_open_finish:
  assumes "names_file os path fpath s" "open_mb os path fpath flags mode s = Inr (Inr m, s1)"
    "\<not> has_flag flags O_APPEND" "lowest_fd s1 fd"
  shows "ufs_open os path flags mode s = Inr (fd, opened m fd s1)"
proof -
  let ?u = "upd_mb m (\<lambda>mb. mb\<lparr>last_dbucket := first_dbucket mb, last_db_offset := 0\<rparr>) s1"
  have "fdTable ?u = fdTable s1" by (simp add: upd_mb_def)
  then have "get_empty_fd FIRST_USER_FD MAX_NUM_FD ?u = Inr (fd, upd_fd (nat fd) (\<lambda>fi. fi\<lparr>fd_empty := False\<rparr>) ?u)"
    using assms(4) by (intro get_empty_fd_finds) (auto simp: lowest_fd_def ufs_config)
  moreover have "0 \<le> fd" "FDDES fd = Inr (nat fd)"
    using assms(4) by (auto simp: lowest_fd_def FDDES_def ufs_config)
  ultimately show ?thesis
    using assms(1-3) by (simp add: ufs_open_def names_file_def opened_def upd_fd_def)
qed

lemma opened_tables:
  "same_data (opened m fd s) s" "hash_table (opened m fd s) = hash_table s" "minv (opened m fd s) = minv s"
  "look (opened m fd s) = look s" "alloc_inv (opened m fd s) = alloc_inv s"
  "first_dbucket (mb_arr (opened m fd s) i) = first_dbucket (mb_arr s i)"
  "mb_s (mb_arr (opened m fd s) i) = mb_s (mb_arr s i)"
proof -
  show "same_data (opened m fd s) s"
    unfolding opened_def
    by (rule same_data_trans [OF same_data_upd(4) same_data_trans [OF same_data_upd(3) same_data_upd(1)]])
  from same_dataD(8) [OF this] show "alloc_inv (opened m fd s) = alloc_inv s" .
  show h: "hash_table (opened m fd s) = hash_table s" by (simp add: opened_def)
  show "minv (opened m fd s) = minv s" "look (opened m fd s) = look s"
    by (rule rows_fields [OF h]; simp add: opened_def)+
qed (simp_all add: opened_def)

lemma opened_file:
  assumes "file_ok s m ps" "m < META_BUCKETS" "fd_inv s" "lowest_fd s fd"
  shows "fd_open (opened m fd s) fd m" "file_ok (opened m fd s) m ps" "content (opened m fd s) ps = content s ps"
    "cursor_at (opened m fd s) m ps 0" "cache_ok (fdTable (opened m fd s) (nat fd)) ps"
proof -
  note sd = same_data_chain [OF opened_tables(1)]
  have tab: "fdTable (opened m fd s) (nat fd) = (fdTable s (nat fd))\<lparr>fd_empty := False, mindex := of_nat m\<rparr>"
    by (simp add: opened_def upd_mb_def)
  have fd: "\<not> exclusive (fdTable s (nat fd))" "oi_offset (off_db_mapping (fdTable s (nat fd)) 0) = - 1"
    using assms(3,4) by (auto simp: fd_inv_def fd_ok_def lowest_fd_def ufs_config)
  have "unat (of_nat m :: u32) = m" using assms(2) by (simp add: unat_of_nat take_bit_nat_eq_self ufs_config)
  then show "fd_open (opened m fd s) fd m"
    using assms(2,4) fd by (simp add: fd_open_def tab lowest_fd_def ufs_config)
  show "file_ok (opened m fd s) m ps" by (rule file_ok_cong [OF assms(1) opened_tables(1)]) (simp_all add: opened_tables)
  show "content (opened m fd s) ps = content s ps" by (rule sd)
  obtain p ps' where ps: "ps = p # ps'" "unat (first_dbucket (mb_arr s m)) = p"
    using assms(1) by (cases ps) (auto simp: file_ok_def)
  then have "at_fpos s ps (first_dbucket (mb_arr s m)) 0 0" by (simp add: at_fpos_here)
  then show "cursor_at (opened m fd s) m ps 0" by (simp add: cursor_at_def sd) (simp add: opened_def)
  show "cache_ok (fdTable (opened m fd s) (nat fd)) ps"
    using fd by (simp add: tab cache_ok_def)
qed

section \<open>What a call on one descriptor leaves alone\<close>

definition only_fd :: "nat \<Rightarrow> ('d, 'z) ustate_scheme \<Rightarrow> ('d, 'z) ustate_scheme \<Rightarrow> bool" where
  "only_fd i s s' \<longleftrightarrow>
     hash_table s' = hash_table s \<and> calling_shm_open s' = calling_shm_open s \<and>
     calling_shm_unlink s' = calling_shm_unlink s \<and> disk s' = disk s \<and>
     (\<forall>j. j \<noteq> i \<longrightarrow> fdTable s' j = fdTable s j) \<and>
     (\<forall>k. mb_path (mb_arr s' k) = mb_path (mb_arr s k) \<and> mb_in_use (mb_arr s' k) = mb_in_use (mb_arr s k) \<and>
        mb_next_ix (mb_arr s' k) = mb_next_ix (mb_arr s k) \<and> mb_lock (mb_arr s' k) = mb_lock (mb_arr s k))"

lemma only_fd_refl [simp]: "only_fd i s s"
  by (simp add: only_fd_def)

lemma only_fd_trans: "only_fd i s t \<Longrightarrow> only_fd i t u \<Longrightarrow> only_fd i s u"
  by (simp add: only_fd_def)

lemma only_fd_names:
  assumes "only_fd i s s'"
  shows "minv s' = minv s" "look s' = look s" "names_file os p q s' = names_file os p q s"
  using assms rows_fields [of s' s] by (auto simp: only_fd_def names_file_def)

lemma only_fd_more: "dstate.more s' = dstate.more s \<Longrightarrow> only_fd i s (s' :: ('d, 'z) ustate_scheme)"
  by (cases s, cases s') (simp add: only_fd_def)

lemma only_fd_step [simp]:
  "only_fd i s (upd_fd i f s)" "only_fd i s (s\<lparr>errno := e\<rparr>)" "only_fd i s (s\<lparr>clock_pos := c\<rparr>)"
  "only_fd i s (set_cursor m ix off s)" "only_fd i s (MB_MODIFY m s)" "only_fd i s (grow_file m k s)"
  "only_fd i s (upd_mb m (\<lambda>mb. mb\<lparr>mb_s := g mb\<rparr>) s)"
  by (simp_all add: only_fd_def upd_fd_def upd_mb_def set_cursor_def MB_MODIFY_def grow_file_def Let_def)

lemma stamp_fd_only: "ends (only_fd i s) (stamp_fd i type s)"
proof -
  have "only_fd i s s'" if "stamp st type s = Inr (st', s')" for st st' s'
    using stamp_result(2) [OF that] only_fd_step(3) [of i s "clock_pos s'"] by metis
  then have "ends (\<lambda>(st, s'). only_fd i s s') (stamp st type s)" for st by (auto simp: ends_def)
  from this [of "priv_s (fdTable s i)"] show ?thesis
    unfolding stamp_fd_def by (rule ends_andthen) (auto intro: only_fd_trans [OF _ only_fd_step(1)])
qed

lemma ufs_write_only:
  assumes "fd_open s fd m"
  shows "ends (\<lambda>(r, s'). only_fd (nat fd) s s') (ufs_write os fd buf s)"
  unfolding ufs_write_open [OF assms] write_done_def
proof (rule ends_andthen [OF write_loop_more], clarify)
  fix n si :: nat and ix off and t :: "('a, 'b) ustate_scheme"
  let ?o = "only_fd (nat fd)"
  assume "dstate.more t = dstate.more s"
  then have t: "?o s t" by (rule only_fd_more)
  have "ends (?o t) (andthen (stamp_fd (nat fd) k (set_cursor m ix off t)) (\<lambda>s. Inr (MB_MODIFY m s)))" for k
    by (rule ends_andthen [OF stamp_fd_only], simp)
      (rule only_fd_trans [OF only_fd_step(4) only_fd_trans [OF _ only_fd_step(5)]])
  then have "ends (?o t) (if 0 < n then andthen (stamp_fd (nat fd) (ST_MOD OR ST_CHG) (set_cursor m ix off t))
      (\<lambda>s. Inr (MB_MODIFY m s)) else Inr t)" by simp
  then show "ends (\<lambda>(r, s'). ?o s s') (andthen (if 0 < n then andthen (stamp_fd (nat fd) (ST_MOD OR ST_CHG)
      (set_cursor m ix off t)) (\<lambda>s. Inr (MB_MODIFY m s)) else Inr t) (\<lambda>s. Inr (int n, (grow_file m si s)\<lparr>errno := 0\<rparr>)))"
    by (rule ends_andthen)
      (simp, rule only_fd_trans [OF t only_fd_trans [OF _ only_fd_trans [OF only_fd_step(6) only_fd_step(2)]]])
qed

lemma ufs_read_only:
  assumes "fd_open s fd m"
  shows "ends (\<lambda>(r, s'). only_fd (nat fd) s s') (ufs_read os fd count s)"
proof -
  let ?o = "only_fd (nat fd)"
  have fin: "ends (\<lambda>(r, s'). ?o s s') (andthen (if out \<noteq> [] then stamp_fd (nat fd) ST_ACS (set_cursor m ix off t) else Inr t)
      (\<lambda>s. Inr ((int (length out), out), s\<lparr>errno := 0\<rparr>)))"
    if "?o s t" for out :: "byte list" and ix off t
    by (rule ends_andthen [of "?o s"])
      (use that in \<open>auto intro: ends_mono [OF stamp_fd_only] only_fd_trans only_fd_step\<close>)
  show ?thesis
    unfolding ufs_read_def using fd_open_simps [OF assms]
    by simp (rule ends_andthen [OF read_loop_more], clarify, rule fin, erule only_fd_more)
qed

lemma find_bucket_only: "ends (\<lambda>(r, s'). only_fd i s s') (find_bucket i m offset s)"
proof -
  have "ends (\<lambda>(r, s'). only_fd i s s') (andthen (seek_loop k ix s) (\<lambda>(r, s). case r of None \<Rightarrow> Inr (None, s)
      | Some ix \<Rightarrow> Inr (Some ix, upd_fd i (cache_store offset ix) s)))" for k ix
    by (rule ends_andthen [OF seek_loop_more])
      (auto split: option.split intro: only_fd_more only_fd_trans [OF only_fd_more only_fd_step(1)])
  then show ?thesis by (simp add: find_bucket_def Let_def)
qed

lemma ufs_pread_only:
  assumes "fd_open s fd m"
  shows "ends (\<lambda>(r, s'). only_fd (nat fd) s s') (ufs_pread os fd count offset s)"
proof -
  let ?o = "only_fd (nat fd)"
  have fin: "ends (\<lambda>(r, s'). ?o s s') (andthen (if out \<noteq> [] then stamp_fd (nat fd) ST_ACS t else Inr t)
      (\<lambda>s. Inr ((int (length out), out), s\<lparr>errno := 0\<rparr>)))" if "?o s t" for out :: "byte list" and t
    by (rule ends_andthen [of "?o s"])
      (use that in \<open>auto intro: ends_mono [OF stamp_fd_only] only_fd_trans only_fd_step\<close>)
  have "ends (\<lambda>(r, s'). ?o s s') (andthen (pread_loop k ix off count [] t) (\<lambda>(out, s).
      andthen (if out \<noteq> [] then stamp_fd (nat fd) ST_ACS s else Inr s)
        (\<lambda>s. Inr ((int (length out), out), s\<lparr>errno := 0\<rparr>))))" if "?o s t" for k ix off t
    by (rule ends_andthen [OF pread_loop_more]) (clarify, rule fin, erule only_fd_trans [OF that only_fd_more])
  then show ?thesis
    unfolding ufs_pread_def using fd_open_simps [OF assms]
    by simp (rule ends_andthen [OF find_bucket_only], auto split: option.split intro: only_fd_trans [OF _ only_fd_step(2)])
qed

lemma ufs_pwrite_only:
  assumes "fd_open s fd m"
  shows "ends (\<lambda>(r, s'). only_fd (nat fd) s s') (ufs_pwrite os fd buf offset s)"
proof -
  let ?o = "only_fd (nat fd)"
  have stamp: "ends (?o t) (andthen (stamp_fd (nat fd) k t) (\<lambda>s. Inr (MB_MODIFY m s)))" for k t
    by (rule ends_andthen [OF stamp_fd_only]) (auto intro: only_fd_trans only_fd_step)
  have fin: "ends (\<lambda>(r, s'). ?o s s') (andthen (if n > 0 then andthen (stamp_fd (nat fd) (ST_MOD OR ST_CHG) t)
      (\<lambda>s. Inr (MB_MODIFY m s)) else Inr t) (\<lambda>s. Inr (int n, (grow_file m si s)\<lparr>errno := 0\<rparr>)))"
    if "?o s t" for n si t
    by (rule ends_andthen [of "?o s"])
      (use that in \<open>auto intro: ends_mono [OF stamp] only_fd_trans [OF _ only_fd_trans [OF only_fd_step(6) only_fd_step(2)]]
        only_fd_trans\<close>)
  have "ends (\<lambda>(r, s'). ?o s s') (andthen (pwrite_loop get_free_dbucket_ix ix off buf 0 0 t) (\<lambda>((n, si), s).
      andthen (if n > 0 then andthen (stamp_fd (nat fd) (ST_MOD OR ST_CHG) s) (\<lambda>s. Inr (MB_MODIFY m s)) else Inr s)
        (\<lambda>s. Inr (int n, (grow_file m si s)\<lparr>errno := 0\<rparr>))))" if "?o s t" for ix off t
    by (rule ends_andthen [OF pwrite_loop_more]) (clarify, rule fin, erule only_fd_trans [OF that only_fd_more])
  then show ?thesis
    unfolding ufs_pwrite_def using fd_open_simps [OF assms]
    by simp (rule ends_andthen [OF find_bucket_only], auto split: option.split intro: only_fd_trans [OF _ only_fd_step(2)])
qed

section \<open>Closing\<close>

definition closed :: "int \<Rightarrow> nat \<Rightarrow> ('d, 'z) ustate_scheme \<Rightarrow> ('d, 'z) ustate_scheme" where
  "closed fd m s =
     (upd_fd (nat fd) (\<lambda>fi. clear_cache
        (fi\<lparr>mindex := - 1, fd_flags := 0, stamp_type := 0, exclusive := False, fd_empty := True\<rparr>))
       (upd_mb m (\<lambda>mb. mb\<lparr>mb_s := merge_stamps (fdTable s (nat fd)) (mb_s mb)\<rparr>) s))\<lparr>errno := 0\<rparr>"

lemma ufs_close_open:
  assumes "fd_open s fd m"
  shows "ufs_close os fd s = Inr (0, closed fd m s)"
  using fd_open_simps [OF assms] by (simp add: ufs_close_def reset_fd_def closed_def)

lemma closed_only: "only_fd (nat fd) s (closed fd m s)"
  unfolding closed_def
  by (rule only_fd_trans [OF only_fd_trans [OF only_fd_step(7) only_fd_step(1)] only_fd_step(2)])

lemma merge_stamps_size [simp]: "st_size (merge_stamps fi st) = st_size st"
  by (simp add: merge_stamps_def Let_def)

lemma closed_file:
  shows "same_data (closed fd m s) s" "file_ok (closed fd m s) k ps = file_ok s k ps"
    "fd_empty (fdTable (closed fd m s) (nat fd))"
proof -
  show sd: "same_data (closed fd m s) s"
    unfolding closed_def
    by (rule same_data_trans [OF same_data_upd(4) same_data_trans [OF same_data_upd(3) same_data_upd(1)]])
  show "file_ok (closed fd m s) k ps = file_ok s k ps"
    using same_data_chain [OF sd] by (simp add: file_ok_def) (simp add: closed_def)
  show "fd_empty (fdTable (closed fd m s) (nat fd))" by (simp add: closed_def clear_cache_def)
qed

section \<open>Properties\<close>

text \<open>With \<open>O_CREAT\<close>, a path that is neither in the library nor on disk is created.\<close>

lemma open_mb_creates:
  assumes "minv s" "alloc_inv s" "names_file os path fpath s" "look s fpath = None"
    "has_flag flags O_CREAT" "O_TRUNC_CHECK flags \<or> fst (fst (fst (os_stat os path (disk s)))) \<noteq> 0"
  obtains s0 where "quiet s s0" "disk s0 \<in> {disk s, snd (os_stat os path (disk s))}"
    "open_mb os path fpath flags mode s = andthen (create_new_file fpath flags mode s0) (\<lambda>(mb, s).
      case mb of Some m \<Rightarrow> Inr (Inr m, s) | None \<Rightarrow> Inr (Inl (errno s), s))"
proof (cases "O_TRUNC_CHECK flags")
  case True
  with assms show thesis
    by (intro that [of s]) (simp_all add: names_file_def open_mb_def get_mbucket_look)
next
  case False
  obtain r st e d where r: "os_stat os path (disk s) = (((r, st), e), d)" by (metis surj_pair)
  let ?s0 = "s\<lparr>disk := d, errno := (case e of None \<Rightarrow> errno s | Some x \<Rightarrow> x)\<rparr>"
  have c: "os_call (os_stat os path) s = ((r, st), ?s0)" by (simp add: os_call_def r)
  with False r assms quiet_os_call [OF c] show thesis
    by (intro that [of ?s0]) (simp_all add: names_file_def open_mb_def get_mbucket_look)
qed

text \<open>\<open>open\<close> then makes the file, or finds no metadata bucket and changes nothing.\<close>

lemma open_mb_new:
  assumes "minv s" "alloc_inv s" "names_file os path fpath s" "look s fpath = None"
    "has_flag flags O_CREAT" "O_TRUNC_CHECK flags \<or> fst (fst (fst (os_stat os path (disk s)))) \<noteq> 0"
  shows "case open_mb os path fpath flags mode s of
      Inl e \<Rightarrow> e = Exit \<and> (whole_array s \<longrightarrow> free_buckets s = 0)
    | Inr (r, s1) \<Rightarrow> disk s1 \<in> {disk s, snd (os_stat os path (disk s))} \<and> (case r of
          Inl e \<Rightarrow> e = ENOSPC \<and> (\<forall>i < META_BUCKETS. mb_in_use (mb_arr s i)) \<and> quiet s s1
        | Inr m \<Rightarrow> \<exists>s0. quiet s s0 \<and> has_new_file fpath m s0 s1)"
proof -
  obtain s0 where s0: "quiet s s0" "disk s0 \<in> {disk s, snd (os_stat os path (disk s))}"
    "open_mb os path fpath flags mode s = andthen (create_new_file fpath flags mode s0) (\<lambda>(mb, s).
      case mb of Some m \<Rightarrow> Inr (Inr m, s) | None \<Rightarrow> Inr (Inl (errno s), s))"
    by (rule open_mb_creates [OF assms, of mode])
  have n0: "minv s0" "look s0 fpath = None" "alloc_inv s0" "mb_arr s0 = mb_arr s"
      "whole_array s0 = whole_array s" "free_buckets s0 = free_buckets s"
    using quiet_names [OF s0(1)] assms(1,2,4) s0(1) by (simp_all add: quiet_def free_buckets_def)
  have ok: "ok_path fpath" "fits_path fpath" using assms(3) by (auto simp: names_file_def)
  note new = create_new_file_result [OF n0(1,3) ok n0(2), of flags mode]
  show ?thesis
  proof (cases "create_new_file fpath flags mode s0")
    case (Inl e)
    with new s0(3) n0(5,6) show ?thesis by simp
  next
    case (Inr y)
    obtain mb s1 where y: "y = (mb, s1)" by force
    show ?thesis
    proof (cases mb)
      case None
      with new y Inr s0 n0(4) quiet_trans [OF s0(1), of s1] show ?thesis by auto
    next
      case (Some m)
      with new y Inr have nf: "has_new_file fpath m s0 s1" by simp
      then have "disk s1 = disk s0" by (simp add: has_new_file_def proc_kept_def)
      with Some y Inr s0 nf show ?thesis by auto
    qed
  qed
qed

text \<open>The state in which \<open>open\<close> then returns.\<close>

lemma opened_mem: "mem_kept A {m} s (opened m fd s)"
  using same_dataD [OF opened_tables(1) [of m fd s]] by (simp add: mem_kept_def opened_tables) (simp add: opened_def)

lemma opened_new:
  assumes "quiet s s0" "has_new_file fpath m s0 s1" "fd_inv s" "lowest_fd s fd"
  shows "lowest_fd s1 fd" "minv (opened m fd s1)" "alloc_inv (opened m fd s1)"
    "look (opened m fd s1) = (look s)(fpath \<mapsto> m)" "m < META_BUCKETS" "\<not> mb_in_use (mb_arr s m)"
    "\<And>i. mb_in_use (mb_arr (opened m fd s1) i) = (i = m \<or> mb_in_use (mb_arr s i))"
    "mem_kept {} {m} s (opened m fd s1)" "fd_open (opened m fd s1) fd m"
    "\<And>j. j \<noteq> nat fd \<Longrightarrow> fdTable (opened m fd s1) j = fdTable s j"
    "calling_shm_open (opened m fd s1) = calling_shm_open s" "calling_shm_unlink (opened m fd s1) = calling_shm_unlink s"
    "disk (opened m fd s1) = disk s1"
    "\<exists>d. \<not> db_in_use (dbs s d) \<and> file_ok (opened m fd s1) m [d] \<and> content (opened m fd s1) [d] = [] \<and>
       cursor_at (opened m fd s1) m [d] 0 \<and> cache_ok (fdTable (opened m fd s1) (nat fd)) [d]"
proof -
  from assms(2) obtain d where m: "m < META_BUCKETS" "\<not> mb_in_use (mb_arr s0 m)" "minv s1" "alloc_inv s1"
      "look s1 = (look s0)(fpath \<mapsto> m)" "proc_kept s0 s1" "mem_kept {} {m} s0 s1"
      "\<forall>i. mb_in_use (mb_arr s1 i) = (i = m \<or> mb_in_use (mb_arr s0 i))"
    and d: "\<not> db_in_use (dbs s0 d)" "file_ok s1 m [d]" "content s1 [d] = []"
    unfolding has_new_file_def by blast
  have t: "fdTable s1 = fdTable s" using m(6) assms(1) by (simp add: proc_kept_def quiet_def)
  show low: "lowest_fd s1 fd" using assms(4) t by (simp add: lowest_fd_def)
  have fd: "fd_inv s1" using assms(3) t fd_inv_cong by metis
  note o = opened_file [OF d(2) m(1) fd low]
  show "minv (opened m fd s1)" "alloc_inv (opened m fd s1)" "look (opened m fd s1) = (look s)(fpath \<mapsto> m)"
    using m(3-5) quiet_names [OF assms(1)] by (simp_all add: opened_tables)
  show "m < META_BUCKETS" "\<not> mb_in_use (mb_arr s m)" using m(1,2) assms(1) by (simp_all add: quiet_def)
  show "mb_in_use (mb_arr (opened m fd s1) i) = (i = m \<or> mb_in_use (mb_arr s i))" for i
    using m(8) assms(1) by (simp add: opened_def quiet_def)
  show "mem_kept {} {m} s (opened m fd s1)"
    by (rule mem_kept_trans [OF mem_kept_trans [OF quiet_mem [OF assms(1)] m(7)] opened_mem])
  show "fd_open (opened m fd s1) fd m" by (rule o(1))
  show "fdTable (opened m fd s1) j = fdTable s j" if "j \<noteq> nat fd" for j
    using that t by (simp add: opened_def upd_mb_def upd_fd_def)
  show "calling_shm_open (opened m fd s1) = calling_shm_open s" "calling_shm_unlink (opened m fd s1) = calling_shm_unlink s"
    "disk (opened m fd s1) = disk s1"
    using m(6) assms(1) by (simp_all add: opened_def upd_mb_def upd_fd_def proc_kept_def quiet_def)
  show "\<exists>d. \<not> db_in_use (dbs s d) \<and> file_ok (opened m fd s1) m [d] \<and> content (opened m fd s1) [d] = [] \<and>
       cursor_at (opened m fd s1) m [d] 0 \<and> cache_ok (fdTable (opened m fd s1) (nat fd)) [d]"
    using d o(2-5) assms(1) by (intro exI [of _ d]) (simp add: quiet_def)
qed

lemma open_new:
  assumes "minv s" "alloc_inv s" "fd_inv s" "names_file os path fpath s" "look s fpath = None"
    "has_flag flags O_CREAT" "\<not> has_flag flags O_APPEND"
    "O_TRUNC_CHECK flags \<or> fst (fst (fst (os_stat os path (disk s)))) \<noteq> 0"
    "i < META_BUCKETS" "\<not> mb_in_use (mb_arr s i)" "lowest_fd s fd"
  shows "case ufs_open os path flags mode s of
      Inl e \<Rightarrow> e = Exit \<and> (whole_array s \<longrightarrow> free_buckets s = 0)
    | Inr (r, s') \<Rightarrow> r = fd \<and> minv s' \<and> alloc_inv s' \<and> fd_inv s' \<and>
        disk s' \<in> {disk s, snd (os_stat os path (disk s))} \<and> calling_shm_open s' = calling_shm_open s \<and>
        (\<forall>j. j \<noteq> nat fd \<longrightarrow> fdTable s' j = fdTable s j) \<and>
        (\<exists>m d. look s' = (look s)(fpath \<mapsto> m) \<and> fd_open s' fd m \<and> file_ok s' m [d] \<and> content s' [d] = [] \<and>
           cursor_at s' m [d] 0 \<and> files_kept m s s')"
proof (cases "open_mb os path fpath flags mode s")
  case (Inl e)
  with open_mb_new [OF assms(1,2,4,5,6,8), of mode] assms(4) show ?thesis by (simp add: ufs_open_def names_file_def)
next
  case (Inr y)
  with open_mb_new [OF assms(1,2,4,5,6,8), of mode] assms(9,10) obtain m s0 s1 where y: "y = (Inr m, s1)"
    and n: "quiet s s0" "has_new_file fpath m s0 s1" "disk s1 \<in> {disk s, snd (os_stat os path (disk s))}"
    by (cases y) (auto split: sum.splits)
  note o = opened_new [OF n(1,2) assms(3,11)]
  note fin = ufs_open_finish [OF assms(4) Inr [unfolded y] assms(7) o(1)]
  have "fd_inv (opened m fd s1)" using endsD [OF ufs_open_inv [OF assms(3)] fin] by simp
  moreover note mem_kept_files [OF o(8)]
  ultimately show ?thesis using fin o(2-4,9-14) n(3) by auto
qed

text \<open>
  (C9) \<open>open\<close> with \<open>O_CREAT\<close> and without \<open>O_APPEND\<close> (which never returns, see below) of a path that is
  neither in the library nor, unless the file is to be truncated anyway, on disk. When a metadata
  bucket and a descriptor are free, the call returns the lowest free descriptor, open on a new empty
  file with the cursor at its start; the path now leads to that file, all other paths lead where
  they led and all other files have their contents. The only other outcome is the exit of the
  process in the allocator, which with the random and the rough-index allocator (the shared counter
  below the total) means that no data bucket is free: with one free bucket the call returns.
\<close>

theorem open_creates_empty_file:
  assumes "minv s" "alloc_inv s" "fd_inv s" "names_file os path fpath s" "look s fpath = None"
    "has_flag flags O_CREAT" "\<not> has_flag flags O_APPEND"
    "O_TRUNC_CHECK flags \<or> fst (fst (fst (os_stat os path (disk s)))) \<noteq> 0"
    "i < META_BUCKETS" "\<not> mb_in_use (mb_arr s i)" "lowest_fd s fd"
  shows "case ufs_open os path flags mode s of
      Inl e \<Rightarrow> e = Exit \<and> (whole_array s \<longrightarrow> free_buckets s = 0)
    | Inr (r, s') \<Rightarrow> r = fd \<and> minv s' \<and> alloc_inv s' \<and>
        (\<exists>m d. look s' = (look s)(fpath \<mapsto> m) \<and> fd_open s' fd m \<and> file_ok s' m [d] \<and> content s' [d] = [] \<and>
           cursor_at s' m [d] 0 \<and> files_kept m s s')"
  using open_new [OF assms, of mode] by (auto split: sum.splits)

lemma rdwr_create:
  "has_flag (O_CREAT OR O_RDWR) O_CREAT" "\<not> has_flag (O_CREAT OR O_RDWR) O_APPEND"
  by (simp_all add: has_flag_def O_CREAT_def O_RDWR_def O_APPEND_def)

lemma boot_fd:
  "fd_inv boot_ustate" "lowest_fd boot_ustate 1024" "\<not> mb_in_use (mb_arr boot_ustate i)"
proof -
  have t: "fdTable boot_ustate j = fd_slot" for j by (simp add: boot_ustate_def boot_mstate_def boot_dstate_def)
  show "fd_inv boot_ustate" "lowest_fd boot_ustate 1024"
    by (auto simp: fd_inv_def fd_ok_def lowest_fd_def t fd_slot_def ufs_config)
  show "\<not> mb_in_use (mb_arr boot_ustate i)" by (simp add: boot_ustate_def boot_mstate_def boot_dstate_def free_mb_def)
qed

lemma boot_names: "names_file null_os ''/a'' ''/a'' boot_ustate" "look boot_ustate = Map.empty"
proof -
  have "\<not> strstr ''/a'' ''/dev/''" "\<not> strstr ''/a'' ''/proc/''" by (simp_all add: strstr.simps)
  then show "names_file null_os ''/a'' ''/a'' boot_ustate"
    by (simp add: names_file_def boot_ustate_def boot_mstate_def boot_dstate_def exclusive_path_def
        full_path_def build_abs_path_def char_at_def Let_def fits_path_def sample_paths ufs_config)
  show "look boot_ustate = Map.empty" unfolding boot_ustate_def using boot_look by (intro ext)
qed

theorem open_creates_empty_file_witness:
  "\<exists>s' m d. ufs_open null_os ''/a'' (O_CREAT OR O_RDWR) 0 boot_ustate = Inr (1024, s') \<and>
     look s' = [''/a'' \<mapsto> m] \<and> fd_open s' 1024 m \<and> file_ok s' m [d] \<and> content s' [d] = []"
proof -
  have n: "fst (fst (fst (os_stat null_os ''/a'' (disk boot_ustate)))) \<noteq> 0" by (simp add: null_os_def)
  have l: "look boot_ustate ''/a'' = None" "0 < META_BUCKETS" by (simp_all add: boot_names ufs_config)
  note o = open_creates_empty_file [OF boot_ustate_inv(2,1) boot_fd(1) boot_names(1) l(1) rdwr_create
      disjI2 [OF n] l(2) boot_fd(3,2), of 0]
  show ?thesis
  proof (cases "ufs_open null_os ''/a'' (O_CREAT OR O_RDWR) 0 boot_ustate")
    case (Inl e)
    with o boot_space show ?thesis by simp
  next
    case (Inr y)
    with o show ?thesis by (cases y) (auto simp: boot_names(2))
  qed
qed

section \<open>The descriptor table\<close>

text \<open>
  (C16) In every state that a program reaches with any sequence of system calls, whatever the operating
  system answers: a free user descriptor has in each field what \<open>init_fdTable\<close> stored there (no
  metadata bucket, no flags, not passed on to the operating system, no pending time stamp, no cached
  offset); a descriptor in use that the library serves itself is a user descriptor and refers to a
  bucket of the metadata array, so that no call on it dereferences outside the array; and a
  descriptor in use that is passed on to the operating system is below \<open>FIRST_USER_FD\<close>, unless the
  operating system's own \<open>open\<close> hands out that number.
\<close>

theorem descriptor_table_well_formed:
  assumes "session os s t" "0 \<le> fd" "fd < MAX_NUM_FD"
  shows "let fi = fdTable t (nat fd) in
    if fd_empty fi then FIRST_USER_FD \<le> fd \<longrightarrow>
      mindex fi = - 1 \<and> fd_flags fi = 0 \<and> \<not> exclusive fi \<and> stamp_type fi = 0 \<and>
      (\<forall>j < OFFSET_PROCESS_CACHE_SIZE. oi_offset (off_db_mapping fi j) = - 1)
    else if exclusive fi then
      FIRST_USER_FD \<le> fd \<longrightarrow> (\<exists>p flags mode d. fst (fst (os_open os p flags mode d)) = fd)
    else FIRST_USER_FD \<le> fd \<and> fd_mb (nat fd) t = Inr (unat (mindex fi)) \<and> unat (mindex fi) < META_BUCKETS"
proof -
  have ok: "fd_ok (nat fd) (fdTable t (nat fd))" "fd_passed os (nat fd) (fdTable t (nat fd))"
    using fd_tab.session_keeps [OF assms(1)] fd_pass.session_keeps [OF assms(1)] assms(2,3)
    by (simp_all add: fd_all_def)
  then have "fd_open t fd (unat (mindex (fdTable t (nat fd))))"
    if "\<not> fd_empty (fdTable t (nat fd))" "\<not> exclusive (fdTable t (nat fd))"
    using assms(2,3) that by (auto simp: fd_open_def fd_ok_def)
  note fd_open_simps(2) [OF this]
  with ok assms(2,3) show ?thesis unfolding Let_def by (auto simp: fd_ok_def fd_passed_def)
qed

text \<open>A session: the process creates \<open>/a\<close> and has it open as descriptor 1024.\<close>

lemma boot_init:
  "minv (init_fdTable boot_ustate)" "alloc_inv (init_fdTable boot_ustate)" "look (init_fdTable boot_ustate) = Map.empty"
  "names_file null_os ''/a'' ''/a'' (init_fdTable boot_ustate)" "lowest_fd (init_fdTable boot_ustate) 1024"
  "\<not> mb_in_use (mb_arr (init_fdTable boot_ustate) i)"
  "whole_array (init_fdTable boot_ustate)" "0 < free_buckets (init_fdTable boot_ustate)"
proof -
  let ?s = "init_fdTable boot_ustate"
  have env: "hash_table ?s = hash_table boot_ustate" "mb_arr ?s = mb_arr boot_ustate" "same_data ?s boot_ustate"
      "disk ?s = disk boot_ustate" "calling_shm_open ?s = calling_shm_open boot_ustate"
    by (simp_all add: init_fdTable_def same_data_def dstate.defs)
  show "minv ?s" "look ?s = Map.empty"
    using boot_ustate_inv(2) boot_names(2) rows_fields [OF env(1)] env(2) by simp_all
  show "alloc_inv ?s" "whole_array ?s" using boot_ustate_inv(1) boot_space(1) same_dataD [OF env(3)] by simp_all
  show "0 < free_buckets ?s" using boot_space(2) same_dataD [OF env(3)] by (simp add: free_buckets_def)
  show "names_file null_os ''/a'' ''/a'' ?s" using boot_names(1) env(4,5) by (simp add: names_file_def)
  show "lowest_fd ?s 1024" by (auto simp: lowest_fd_def init_fdTable_def init_fd_def clear_cache_def ufs_config)
  show "\<not> mb_in_use (mb_arr ?s i)" using boot_fd(3) env(2) by simp
qed

lemma sample_session:
  "\<exists>t m. session null_os boot_ustate t \<and> fd_open t 1024 m \<and> fd_empty (fdTable t 1025)"
proof -
  let ?s = "init_fdTable boot_ustate"
  have n: "fst (fst (fst (os_stat null_os ''/a'' (disk ?s)))) \<noteq> 0" "0 < META_BUCKETS"
    by (simp_all add: null_os_def ufs_config)
  note o = open_new [OF boot_init(1,2) init_fdTable_inv boot_init(4) _ rdwr_create disjI2 [OF n(1)] n(2)
      boot_init(6,5), of 0, unfolded boot_init(3)]
  then obtain t m where "ufs_open null_os ''/a'' (O_CREAT OR O_RDWR) 0 ?s = Inr (1024, t)" "fd_open t 1024 m"
      "fdTable t 1025 = fdTable ?s 1025"
    using boot_init(7,8) by (cases "ufs_open null_os ''/a'' (O_CREAT OR O_RDWR) 0 ?s") auto
  moreover from this have "do_call null_os (Open ''/a'' (O_CREAT OR O_RDWR) 0) ?s = Inr t"
    by (simp add: after_def)
  moreover have "fd_empty (fdTable ?s 1025)" by (simp add: init_fdTable_def init_fd_def clear_cache_def ufs_config)
  ultimately show ?thesis using session.call [OF session.start] by metis
qed

theorem descriptor_table_well_formed_witness:
  "\<exists>t. session null_os boot_ustate t \<and> \<not> fd_empty (fdTable t 1024) \<and>
     (\<exists>m < META_BUCKETS. fd_mb 1024 t = Inr m) \<and> fd_empty (fdTable t 1025) \<and> mindex (fdTable t 1025) = - 1"
proof -
  obtain t m where t: "session null_os boot_ustate t" "fd_open t 1024 m" "fd_empty (fdTable t 1025)"
    using sample_session by blast
  from t(2) have "\<not> fd_empty (fdTable t 1024)" "\<not> exclusive (fdTable t 1024)" by (auto simp: fd_open_def)
  with t(1,3) descriptor_table_well_formed [OF t(1), of 1024] descriptor_table_well_formed [OF t(1), of 1025]
  show ?thesis by (auto simp: Let_def ufs_config)
qed

section \<open>Opening a file that exists\<close>

lemma open_mb_existing:
  assumes "minv s" "ok_path fpath" "look s fpath = Some m"
    "\<not> has_flag flags O_CREAT \<or> \<not> O_TRUNC_CHECK flags \<and> \<not> has_flag flags O_EXCL"
  shows "open_mb os path fpath flags mode s = Inr (Inr m, s)"
  using assms by (auto simp: open_mb_def get_mbucket_look)

lemma append_loop_chain:
  assumes "dinv s" "dchain s ix ps" "length ps < k"
  shows "append_loop k ix s = Inl Exit"
  using assms(2,3)
proof (induction ps arbitrary: ix k)
  case Nil
  then obtain k' where "k = Suc k'" by (cases k) auto
  with Nil get_dbucket_ptr_nil [OF assms(1)] show ?case by simp
next
  case (Cons p ps)
  then obtain k' where k: "k = Suc k'" "length ps < k'" by (cases k) auto
  have "get_dbucket_ptr ix s = Inr (p, s)" using Cons.prems(1) get_dbucket_ptr_live [OF assms(1)] by auto
  with k Cons.IH [of "db_next_ix (dbs s p)" k'] Cons.prems(1) show ?case by simp
qed


text \<open>The empty file \<open>/a\<close> in metadata bucket 0 and data bucket 0.\<close>

definition named_file :: "unit ustate" where
  "named_file = upd_db 0 (\<lambda>db. db\<lparr>db_in_use := True\<rparr>)
     (upd_mb 0 (\<lambda>mb. mb\<lparr>first_dbucket := 0\<rparr>) (one_file ''/a'' 12469 (mstate.more boot_ustate)))"

lemma one_file_ustate: "mstate.more (one_file p h m) = m" "dbs (one_file p h m) = (\<lambda>_. free_db)"
    "sysg (one_file p h m) = sysg (boot_dstate 1 m)" "mb_s (mb_arr (one_file p h m) 0) = mb_s free_mb"
  by (simp_all add: one_file_def created_def last_opt_def relink_def boot_mstate_def boot_dstate_def upd_mb_def upd_hi_def)

lemma more_env:
  assumes "mstate.more s' = mstate.more (s :: ('d, 'z) ustate_scheme)"
  shows "calling_shm_open s' = calling_shm_open s" "disk s' = disk s" "calling_shm_unlink s' = calling_shm_unlink s"
    "fdTable s' = fdTable s"
  using assms by (cases s, cases s', simp)+

lemma named_file_more: "mstate.more named_file = mstate.more boot_ustate"
  by (simp add: named_file_def one_file_ustate)

lemma named_file_ok: "minv named_file" "look named_file ''/a'' = Some 0" "dinv named_file" "file_ok named_file 0 [0]"
  "names_file null_os ''/a'' ''/a'' named_file"
proof -
  let ?o = "one_file ''/a'' 12469 (mstate.more boot_ustate)"
  let ?u = "upd_mb 0 (\<lambda>mb. mb\<lparr>first_dbucket := 0\<rparr>) ?o"
  have tab: "hash_table named_file = hash_table ?o"
      "mb_arr named_file = (mb_arr ?o)(0 := (mb_arr ?o 0)\<lparr>first_dbucket := 0\<rparr>)"
    by (simp_all add: named_file_def upd_db_def upd_mb_def)
  have "minv named_file = minv ?o" "look named_file = look ?o" by (rule rows_fields; simp add: tab)+
  then show "minv named_file" "look named_file ''/a'' = Some 0"
    using sample_file [of "mstate.more boot_ustate"] by simp_all
  have d: "dinv ?o" unfolding one_file_def boot_mstate_def
    using same_dataD(7) [OF same_data_upd(1)] created_data(4) boot_dinv by metis
  have "dinv ?u = dinv ?o" "live ?u = live ?o" using same_dataD(6,7) [OF same_data_upd(1)] by metis+
  with d show "dinv named_file" by (auto simp: named_file_def dinv_def)
  have "live named_file = 524288"
    by (simp add: named_file_def live_def one_file_ustate boot_dstate_def ufs_config)
  then show "file_ok named_file 0 [0]"
    by (simp add: file_ok_def tab used_def) (simp add: named_file_def one_file_ustate free_db_def free_mb_def)
  note more_env [OF named_file_more]
  then show "names_file null_os ''/a'' ''/a'' named_file" using boot_names(1) by (simp add: names_file_def)
qed


section \<open>A file from its creation to its second reader\<close>

lemma reopen_lowest:
  assumes "lowest_fd s fd" "\<forall>j. j \<noteq> nat fd \<longrightarrow> fdTable t j = fdTable s j" "fd_empty (fdTable t (nat fd))"
  shows "lowest_fd t fd"
proof -
  have "nat i \<noteq> nat fd" if "FIRST_USER_FD \<le> i" "i < fd" for i using that by (auto simp: ufs_config)
  with assms show ?thesis by (auto simp: lowest_fd_def)
qed

lemma reopen_read:
  assumes "minv s" "alloc_inv s" "fd_inv s" "names_file os path fpath s" "look s fpath = Some m" "m < META_BUCKETS"
    "file_ok s m ps" "lowest_fd s fd"
  shows "\<exists>s' out. andthen (ufs_open os path 0 0 s) (\<lambda>(fd, s). ufs_read os fd count s) =
    Inr ((int (length out), out), s') \<and> out = take count (content s ps)"
proof -
  have "\<not> has_flag 0 f" for f by (simp add: has_flag_def)
  then have "open_mb os path fpath 0 0 s = Inr (Inr m, s)"
    using assms(1,4,5) by (intro open_mb_existing) (auto simp: names_file_def)
  from ufs_open_finish [OF assms(4) this _ assms(8)] have op: "ufs_open os path 0 0 s = Inr (fd, opened m fd s)"
    by (simp add: has_flag_def)
  note o = opened_file [OF assms(7,6,3,8)]
  have "dinv (opened m fd s)" using assms(2) opened_tables(5) [of m fd s] by (simp add: alloc_inv_def)
  from ufs_read_result [OF this o(1,2,4), of os count] op o(3) show ?thesis by auto
qed

text \<open>
  (C4) A session over all the parts of the library: a program creates a file, writes any data to it,
  closes it, opens it again by the same path and reads. It reads back exactly what it wrote, up to
  the number of bytes it asks for. The only other outcome is that the process exits for want of a
  data bucket. The operating system is only assumed not to change the working directory in \<open>stat\<close>.
\<close>

theorem create_write_close_open_read:
  assumes "minv s" "alloc_inv s" "fd_inv s" "names_file os path fpath s" "look s fpath = None"
    "has_flag flags O_CREAT" "\<not> has_flag flags O_APPEND"
    "O_TRUNC_CHECK flags \<or> fst (fst (fst (os_stat os path (disk s)))) \<noteq> 0"
    "i < META_BUCKETS" "\<not> mb_in_use (mb_arr s i)" "lowest_fd s fd"
    "os_getcwd os (snd (os_stat os path (disk s))) = os_getcwd os (disk s)"
  shows "case andthen (ufs_open os path flags mode s) (\<lambda>(fd, s).
        andthen (ufs_write os fd buf s) (\<lambda>(n, s).
        andthen (ufs_close os fd s) (\<lambda>(r, s).
        andthen (ufs_open os path 0 0 s) (\<lambda>(fd, s). ufs_read os fd count s)))) of
      Inl e \<Rightarrow> e = Exit
    | Inr ((n, out), s') \<Rightarrow> out = take count buf \<and> n = int (length out)"
proof (cases "ufs_open os path flags mode s")
  case (Inl e)
  with open_new [OF assms(1-11), of mode] show ?thesis by simp
next
  case (Inr y)
  with open_new [OF assms(1-11), of mode] obtain m d s1 where y: "y = (fd, s1)" "minv s1" "alloc_inv s1" "fd_inv s1"
      "disk s1 \<in> {disk s, snd (os_stat os path (disk s))}" "calling_shm_open s1 = calling_shm_open s"
      "\<forall>j. j \<noteq> nat fd \<longrightarrow> fdTable s1 j = fdTable s j" "look s1 fpath = Some m"
    and f1: "fd_open s1 fd m" "file_ok s1 m [d]" "content s1 [d] = []" "cursor_at s1 m [d] 0" by (cases y) auto
  have nf1: "names_file os path fpath s1" using assms(4,12) y(5,6) by (auto simp: names_file_def)
  show ?thesis
  proof (cases "ufs_write os fd buf s1")
    case (Inl e)
    with ufs_write_exit [OF y(3) f1(1,2,4) Inl] Inr y(1) show ?thesis by simp
  next
    case w: (Inr z)
    obtain r s2 where z: "z = (r, s2)" by force
    from ufs_write_result [OF y(3) f1(1,2,4) w [unfolded z]] f1(3) obtain es where
      2: "alloc_inv s2" "fd_open s2 fd m" "file_ok s2 m (d # es)" "content s2 (d # es) = buf"
      by (auto simp: splice_def)
    let ?s3 = "closed fd m s2"
    have o2: "only_fd (nat fd) s1 s2" using endsD [OF ufs_write_only [OF f1(1)] w] z by simp
    have o3: "only_fd (nat fd) s1 ?s3" by (rule only_fd_trans [OF o2 closed_only])
    have fd3: "fd_inv ?s3"
      using endsD [OF ufs_close_inv ufs_close_open [OF 2(2)]] endsD [OF ufs_write_inv [OF y(4)] w] z by simp
    have low: "lowest_fd ?s3 fd"
      using o3 y(7) closed_file(3) [of fd m s2] by (intro reopen_lowest [OF assms(11)]) (auto simp: only_fd_def)
    have 3: "minv ?s3" "names_file os path fpath ?s3" "look ?s3 fpath = Some m" "m < META_BUCKETS"
      using only_fd_names(1,2) [OF o3] only_fd_names(3) [OF o3, of os] y(2,8) nf1 f1(1) by (simp_all add: fd_open_def)
    have a3: "alloc_inv ?s3" using 2(1) same_dataD(8) [OF closed_file(1) [of fd m s2]] by simp
    have f3: "file_ok ?s3 m (d # es)" unfolding closed_file(2) by (rule 2(3))
    have "content ?s3 (d # es) = buf" unfolding same_data_chain(2) [OF closed_file(1)] by (rule 2(4))
    from reopen_read [OF 3(1) a3 fd3 3(2-4) f3 low, of count, unfolded this] obtain s' out where
      "andthen (ufs_open os path 0 0 ?s3) (\<lambda>(fd, s). ufs_read os fd count s) = Inr ((int (length out), out), s')"
      "out = take count buf" by blast
    with Inr y(1) w z ufs_close_open [OF 2(2), of os] show ?thesis by simp
  qed
qed

theorem create_write_close_open_read_witness:
  "case andthen (ufs_open null_os ''/a'' (O_CREAT OR O_RDWR) 0 boot_ustate) (\<lambda>(fd, s).
      andthen (ufs_write null_os fd [1, 2, 3] s) (\<lambda>(n, s).
      andthen (ufs_close null_os fd s) (\<lambda>(r, s).
      andthen (ufs_open null_os ''/a'' 0 0 s) (\<lambda>(fd, s). ufs_read null_os fd 2 s)))) of
    Inl e \<Rightarrow> e = Exit
  | Inr ((n, out), s') \<Rightarrow> out = [1, 2] \<and> n = 2"
proof -
  have "fst (fst (fst (os_stat null_os ''/a'' (disk boot_ustate)))) \<noteq> 0" by (simp add: null_os_def)
  moreover have "look boot_ustate ''/a'' = None" "0 < META_BUCKETS" by (simp_all add: boot_names ufs_config)
  ultimately show ?thesis
    using create_write_close_open_read [OF boot_ustate_inv(2,1) boot_fd(1) boot_names(1) _ rdwr_create _ _ boot_fd(3,2),
        where buf = "[1, 2, 3]" and count = 2 and mode = 0]
    by (fastforce simp: null_os_def eval_nat_numeral split: sum.splits prod.splits)
qed

end
