(* ===== verification/Ufs_Attr.thy ===== *)
theory Ufs_Attr
  imports Ufs_Open
begin

text \<open>
  Attributes and removal: what the \<open>stat\<close> calls report of a file that is being written, what
  \<open>unlink\<close> leaves behind, and what closing does to a descriptor of the operating system.
\<close>

unbundle bit_operations_syntax

section \<open>Attributes\<close>

lemma look_in_use:
  assumes "minv s" "look s p = Some m"
  shows "mb_in_use (mb_arr s m)" "m < META_BUCKETS"
proof -
  have ok: "ok_path p" using assms(2) look_not_ok [of p s] by auto
  obtain R h where R: "rows_ok s R" and h: "hash p = Inr h" "h < HASH_TABLE_SIZE"
    using assms(1) ok_path_hash [OF ok] by (auto simp: minv_def)
  have "m \<in> set (R h)" using look_rows [OF R h(1) ok, of m] assms(2) by simp
  with R h(2) show "mb_in_use (mb_arr s m)" by (auto simp: rows_ok_def row_ok_def)
  show "m < META_BUCKETS" by (rule look_path [OF assms(2)])
qed

lemma path_stat_known:
  assumes "minv s" "names_file os path fpath s" "look s fpath = Some m"
  shows "path_stat os real path s = Inr ((0, Some (mb_s (mb_arr s m))), s\<lparr>errno := 0\<rparr>)"
  using assms by (simp add: path_stat_def names_file_def get_mbucket_look)

lemma fxstat_known:
  assumes "minv s" "fd_open s fd m" "look s p = Some m"
  shows "ufs_fxstat os fd s = Inr ((0, Some (mb_s (mb_arr s m))), s\<lparr>errno := 0\<rparr>)"
  using fd_open_simps [OF assms(2)] look_in_use [OF assms(1,3)] by (simp add: ufs_fxstat_def)

text \<open>
  The three \<open>stat\<close> calls agree on a file of the library, by path and by descriptor, and after
  any \<open>write\<close> the size they report is the length of the contents with the data written.
\<close>

theorem stat_reports_written_size:
  assumes "alloc_inv s" "minv s" "fd_open s fd m" "file_ok s m ps" "cursor_at s m ps pos"
    "names_file os path fpath s" "look s fpath = Some m" "ufs_write os fd buf s = Inr (r, s')"
  shows "\<exists>st. st_size st = length (splice (content s ps) pos buf) \<and>
    ufs_xstat os path s' = Inr ((0, Some st), s'\<lparr>errno := 0\<rparr>) \<and>
    ufs_lxstat os path s' = Inr ((0, Some st), s'\<lparr>errno := 0\<rparr>) \<and>
    ufs_fxstat os fd s' = Inr ((0, Some st), s'\<lparr>errno := 0\<rparr>)"
proof -
  have o: "only_fd (nat fd) s s'" using endsD [OF ufs_write_only [OF assms(3)] assms(8)] by simp
  have n: "minv s'" "look s' fpath = Some m" "names_file os path fpath s'"
    using only_fd_names(1,2) [OF o] only_fd_names(3) [OF o, of os] assms(2,6,7) by simp_all
  from ufs_write_result [OF assms(1,3,4,5,8)] obtain es where
    w: "fd_open s' fd m" "file_ok s' m (ps @ es)" "content s' (ps @ es) = splice (content s ps) pos buf" by blast
  have "st_size (mb_s (mb_arr s' m)) = length (splice (content s ps) pos buf)"
    using w(2) unfolding file_ok_def w(3) by simp
  with path_stat_known [OF n(1,3,2)] fxstat_known [OF n(1) w(1) n(2)] show ?thesis
    by (auto simp: ufs_xstat_def ufs_lxstat_def)
qed

lemma small_write:
  assumes "alloc_inv s" "fd_open s fd m" "file_ok s m [p]" "cursor_at s m [p] 0" "length buf \<le> DBUCKET_BUF_SIZE"
  shows "\<exists>r s'. ufs_write os fd buf s = Inr (r, s')"
proof -
  have c: "dchain s (first_dbucket (mb_arr s m)) [p]" "packed s [p]" using assms(3) by (simp_all add: file_ok_def)
  have cur: "at_fpos s [p] (last_dbucket (mb_arr s m)) (nat (last_db_offset (mb_arr s m))) 0"
    using assms(4) by (simp add: cursor_at_def)
  then have at: "unat (last_dbucket (mb_arr s m)) = p" "nat (last_db_offset (mb_arr s m)) = 0"
    unfolding at_fpos_def by (auto simp: Cons_eq_append_conv)
  then have "last_dbucket (mb_arr s m) = first_dbucket (mb_arr s m)"
    using c(1) by (simp add: word_unat_eq_iff)
  with cursor_off_at [OF assms(4) c(1)] at(2) ufs_alloc.write_round_fits(1) [OF assms(1) c, of 0 buf 0 0] assms(5)
  obtain n si ix off t where w: "write_loop get_free_dbucket_ix (last_dbucket (mb_arr s m)) (cursor_off (mb_arr s m)) buf 0 0 s =
      Inr ((n, si, ix, off), t)" by auto
  obtain u where "stamp_fd (nat fd) (ST_MOD OR ST_CHG) (set_cursor m ix off t) = Inr u"
    using stamp_fd_result [OF stamp_kinds(2), of "nat fd" "set_cursor m ix off t"] by blast
  then have "\<exists>r s'. write_done (nat fd) m n si ix off t = Inr (r, s')" by (simp add: write_done_def)
  then show ?thesis unfolding ufs_write_open [OF assms(2)] w by simp
qed

lemma named_file_alloc: "alloc_inv named_file" "fd_inv named_file" "lowest_fd named_file 1024"
proof -
  let ?o = "one_file ''/a'' 12469 (mstate.more boot_ustate)"
  let ?u = "upd_mb 0 (\<lambda>mb. mb\<lparr>first_dbucket := 0\<rparr>) ?o"
  have "alloc_inv (boot_mstate (mstate.more boot_ustate))" by (simp add: boot_mstate_def boot_alloc_inv)
  then have "alloc_inv ?o" unfolding one_file_def same_dataD(8) [OF same_data_upd(1)] created_data(3) .
  then have "alloc_inv ?u" unfolding same_dataD(8) [OF same_data_upd(1)] .
  with named_file_ok(3) show "alloc_inv named_file" unfolding named_file_def by (intro alloc_inv_upd_db)
  show "fd_inv named_file" "lowest_fd named_file 1024"
    using boot_fd(1,2) more_env(4) [OF named_file_more] by (simp_all add: fd_inv_def lowest_fd_def)
qed

theorem stat_reports_written_size_witness:
  "\<exists>r s' st. ufs_write null_os 1024 [1, 2, 3] (opened 0 1024 named_file) = Inr (r, s') \<and>
     ufs_xstat null_os ''/a'' s' = Inr ((0, Some st), s'\<lparr>errno := 0\<rparr>) \<and> st_size st = 3"
proof -
  let ?s = "opened 0 1024 named_file"
  have "0 < META_BUCKETS" by (simp add: ufs_config)
  note o = opened_file [OF named_file_ok(4) this named_file_alloc(2,3)]
  have inv: "alloc_inv ?s" "minv ?s" "look ?s ''/a'' = Some 0"
    using named_file_alloc(1) named_file_ok(1,2) by (simp_all add: opened_tables)
  have nf: "names_file null_os ''/a'' ''/a'' ?s"
    using named_file_ok(5) by (simp add: names_file_def opened_def upd_fd_def upd_mb_def)
  obtain r s' where w: "ufs_write null_os 1024 [1, 2, 3] ?s = Inr (r, s')"
    using small_write [OF inv(1) o(1,2,4), of "[1, 2, 3]" null_os] by (auto simp: ufs_config)
  have "length (splice (content ?s [0]) 0 [1, 2, 3 :: byte]) = 3"
    unfolding o(3) by (simp add: splice_def used_def named_file_def one_file_ustate free_db_def)
  with stat_reports_written_size [OF inv(1,2) o(1,2,4) nf inv(3) w] w show ?thesis by auto
qed

section \<open>Removal\<close>

text \<open>
  (C19) \<open>unlink\<close> of a file of the library succeeds, the path leads nowhere afterwards and every other
  path is as it was; but none of the file's data buckets is given back: all of them stay in use with
  no file that reaches them.
\<close>

theorem unlink_keeps_data_buckets:
  assumes "minv s" "names_file os path fpath s" "\<not> calling_shm_unlink s" "look s fpath = Some m" "file_ok s m ps"
  shows "\<exists>s'. ufs_unlink os path s = Inr (0, s') \<and> minv s' \<and> look s' = (look s)(fpath := None) \<and>
    dbs s' = dbs s \<and> {p \<in> set ps. \<not> db_in_use (dbs s' p)} = {}"
proof -
  have ok: "ok_path fpath" using assms(2) by (simp add: names_file_def)
  obtain t where t: "release_meta_bucket fpath s = Inr (0, t)" "minv t" "look t = (look s)(fpath := None)" "dbs t = dbs s"
    using release_meta_bucket_law [OF assms(1) ok] assms(4) by auto
  have e: "minv (t\<lparr>errno := 0\<rparr>) = minv t" "look (t\<lparr>errno := 0\<rparr>) = look t" by (rule rows_fields; simp)+
  have "db_in_use (dbs s p)" if "p \<in> set ps" for p
    using assms(5) dchain_in_use that by (auto simp: file_ok_def)
  with t e assms(2,3) show ?thesis by (auto simp: ufs_unlink_def names_file_def)
qed

section \<open>Descriptors of the operating system\<close>

text \<open>
  Closing a descriptor of the operating system makes it unusable: \<open>reset_fd\<close> takes the mark off
  that sends calls to the system, so when the system gives the number out again (to \<open>pipe\<close>, \<open>dup\<close>
  or \<open>socket\<close>, which the library does not see), every call on it fails with \<open>EBADF\<close> in the library.
\<close>

theorem closed_system_descriptor_unusable:
  assumes "0 \<le> fd" "fd < MAX_NUM_FD" "exclusive (fdTable s (nat fd))" "fst (fst (os_close os fd (disk s))) = 0"
  shows "\<exists>s'. ufs_close os fd s = Inr (0, s') \<and>
    ufs_read os' fd count s' = Inr ((- 1, []), s'\<lparr>errno := EBADF\<rparr>) \<and>
    ufs_write os' fd buf s' = Inr (- 1, s'\<lparr>errno := EBADF\<rparr>) \<and>
    ufs_close os' fd s' = Inr (- 1, s'\<lparr>errno := EBADF\<rparr>)"
proof -
  obtain e d where "os_close os fd (disk s) = ((0, e), d)" using assms(4) by (metis prod.collapse)
  with assms(1-3) show ?thesis
    by (simp add: ufs_close_def ufs_read_def ufs_write_def FDDES_def reset_fd_def clear_cache_def os_call_def Let_def)
qed

theorem closed_system_descriptor_unusable_witness:
  "\<exists>s'. ufs_close (null_os\<lparr>os_close := (\<lambda>_ d. ((0, None), d))\<rparr>) 5 (init_fdTable boot_ustate) = Inr (0, s') \<and>
     ufs_read null_os 5 1 s' = Inr ((- 1, []), s'\<lparr>errno := EBADF\<rparr>)"
proof -
  have "exclusive (fdTable (init_fdTable boot_ustate) 5)"
    by (simp add: init_fdTable_def init_fd_def clear_cache_def ufs_config)
  from closed_system_descriptor_unusable [of 5 "init_fdTable boot_ustate" "null_os\<lparr>os_close := (\<lambda>_ d. ((0, None), d))\<rparr>"
      null_os 1] this
  show ?thesis by (auto simp: ufs_config)
qed

theorem unlink_keeps_data_buckets_witness:
  "\<exists>s'. ufs_unlink null_os ''/a'' named_file = Inr (0, s') \<and> look s' ''/a'' = None \<and> db_in_use (dbs s' 0)"
proof -
  have "\<not> calling_shm_unlink named_file" 
    unfolding more_env(3) [OF named_file_more] by (simp add: boot_ustate_def boot_mstate_def boot_dstate_def)
  from unlink_keeps_data_buckets [OF named_file_ok(1,5) this named_file_ok(2,4)] show ?thesis by auto
qed

end
