(* ===== verification/Ufs_Disk.thy ===== *)
theory Ufs_Disk
  imports Ufs_Attr
begin

text \<open>
  Files between the disk and the library: \<open>upload_file\<close> loads a file into buckets, \<open>write_to_disk\<close>
  assembles the buckets of a file into one block for the disk. Loading is shown to be the same
  computation as writing the data to a new file; the image for the disk is compared with the
  contents of the file.
\<close>

section \<open>Loading is writing to a new file\<close>

lemma put_bytes_fresh:
  "db_bytes db = 0 \<Longrightarrow> put_bytes 0 d db = db\<lparr>db_buf := mem_write (db_buf db) 0 d, db_bytes := length d\<rparr>"
  by (simp add: put_bytes_def)

lemma upd_db_cong: "f (dbs s p) = g (dbs s p) \<Longrightarrow> upd_db p f s = upd_db p g s"
  by (simp add: upd_db_def)

lemma upd_db_id: "f (dbs s p) = dbs s p \<Longrightarrow> upd_db p f s = s"
  by (simp add: upd_db_def)

lemma buf_size_nz [simp]: "DBUCKET_BUF_SIZE \<noteq> 0"
  by (simp add: ufs_config)

text \<open>A bucket that has just been allocated, or allocated and linked.\<close>

definition fresh_bucket :: "'z dstate_scheme \<Rightarrow> u32 \<Rightarrow> bool" where
  "fresh_bucket s ix \<longleftrightarrow> alloc_inv s \<and> unat ix < live s \<and> db_in_use (dbs s (unat ix)) \<and>
     db_next_ix (dbs s (unat ix)) = nil_ix \<and> db_bytes (dbs s (unat ix)) = 0"

lemma alloc_is_fresh: "alloc_inv s \<Longrightarrow> get_free_dbucket_ix s = Inr (ix, s') \<Longrightarrow> fresh_bucket s' ix"
  using ufs_alloc.alloc_keeps ufs_alloc.alloc_bucket(1-3) ufs_alloc.alloc_live ufs_alloc.alloc_live_same(1)
  unfolding fresh_bucket_def by metis

lemma alloc_inv_upd:
  assumes "alloc_inv s" "db_in_use (dbs s p)" "\<And>db. db_in_use (f db) = db_in_use db" "\<And>db. db_lock (f db) = db_lock db"
  shows "alloc_inv (upd_db p f s)"
proof -
  have "dinv s" using assms(1) by (simp add: alloc_inv_def)
  then have "dinv (upd_db p f s)" using assms(2-4) by (intro dinv_upd_db) auto
  with alloc_inv_upd_db [OF assms(1)] show ?thesis by blast
qed

lemma fresh_ptr: "fresh_bucket s ix \<Longrightarrow> get_dbucket_ptr ix s = Inr (unat ix, s)"
  by (simp add: fresh_bucket_def alloc_inv_def get_dbucket_ptr_live)

lemma link_fresh:
  assumes "fresh_bucket s ix" "p \<noteq> unat ix" "db_in_use (dbs s p)"
  shows "fresh_bucket (upd_db p (\<lambda>b. b\<lparr>db_next_ix := ix\<rparr>) s) ix"
proof -
  have "alloc_inv (upd_db p (\<lambda>b. b\<lparr>db_next_ix := ix\<rparr>) s)"
    using assms by (intro alloc_inv_upd) (auto simp: fresh_bucket_def)
  with assms show ?thesis by (simp add: fresh_bucket_def)
qed

text \<open>The state a run of the write loop leaves, without its counters.\<close>

definition wr :: "u32 \<Rightarrow> byte list \<Rightarrow> 'z dstate_scheme \<Rightarrow> 'z dstate_scheme res" where
  "wr ix d s = andthen (write_loop get_free_dbucket_ix ix 0 d 0 0 s) (\<lambda>(r, s). Inr s)"

lemma write_loop_counters:
  "andthen (write_loop get_free_dbucket_ix ix off d n si s) (\<lambda>(r, s). Inr s) =
   andthen (write_loop get_free_dbucket_ix ix off d n' si' s) (\<lambda>(r, s). Inr s)"
proof (induction "length d + (if off = 0 then 0 else 1)" arbitrary: ix off d n si n' si' s rule: less_induct)
  case less
  let ?room = "sz_sub DBUCKET_BUF_SIZE off"
  have IH: "andthen (write_loop get_free_dbucket_ix iy 0 (drop ?room d) k x t) (\<lambda>(r, s). Inr s) =
      andthen (write_loop get_free_dbucket_ix iy 0 (drop ?room d) k' x' t) (\<lambda>(r, s). Inr s)"
    if "\<not> length d \<le> ?room" "\<not> DBUCKET_BUF_SIZE < off" for iy k x k' x' and t :: "'a dstate_scheme"
    by (rule less) (use room_decreases [OF refl that] in simp)
  have step: "andthen (andthen (next_or_new get_free_dbucket_ix p t) (\<lambda>(ix, s).
        write_loop get_free_dbucket_ix ix 0 (drop ?room d) k x s)) (\<lambda>(r, s). Inr s) =
      andthen (andthen (next_or_new get_free_dbucket_ix p t) (\<lambda>(ix, s).
        write_loop get_free_dbucket_ix ix 0 (drop ?room d) k' x' s)) (\<lambda>(r, s). Inr s)"
    if "\<not> length d \<le> ?room" "\<not> DBUCKET_BUF_SIZE < off" for p k x k' x' and t :: "'a dstate_scheme"
    using IH [OF that] by (cases "next_or_new get_free_dbucket_ix p t") auto
  show ?case
  proof (cases "get_dbucket_ptr ix s")
    case (Inr y)
    obtain p t where y: "y = (p, t)" by force
    show ?thesis
      unfolding write_loop.simps [of _ ix off d n si] write_loop.simps [of _ ix off d n' si'] Inr y andthen.simps prod.case Let_def
      using step by (simp del: sz_sub_le)
  qed (simp add: write_loop.simps [of _ ix off d])
qed

lemma wr_fits:
  assumes "fresh_bucket s ix" "length d \<le> DBUCKET_BUF_SIZE"
  shows "wr ix d s = Inr (upd_db (unat ix) (\<lambda>b. b\<lparr>db_buf := mem_write (db_buf b) 0 d, db_bytes := length d\<rparr>) s)"
  using assms fresh_ptr [OF assms(1)]
  by (simp add: wr_def write_loop.simps [of _ ix] Let_def fresh_bucket_def)
    (auto intro!: upd_db_cong simp: put_bytes_fresh)

lemma wr_spills:
  assumes "fresh_bucket s ix" "DBUCKET_BUF_SIZE < length d"
  shows "wr ix d s =
    (let s = upd_db (unat ix) (\<lambda>b. b\<lparr>db_buf := mem_write (db_buf b) 0 (take DBUCKET_BUF_SIZE d), db_bytes := DBUCKET_BUF_SIZE\<rparr>) s in
     andthen (get_free_dbucket_ix s) (\<lambda>(iy, s).
       wr iy (drop DBUCKET_BUF_SIZE d) (upd_db (unat ix) (\<lambda>b. b\<lparr>db_next_ix := iy\<rparr>) s)))"
proof -
  let ?p = "unat ix" and ?d = "take DBUCKET_BUF_SIZE d"
  let ?t = "upd_db ?p (\<lambda>b. b\<lparr>db_buf := mem_write (db_buf b) 0 ?d, db_bytes := DBUCKET_BUF_SIZE\<rparr>) s"
  have f: "db_bytes (dbs s ?p) = 0" "db_next_ix (dbs s ?p) = nil_ix" using assms(1) by (auto simp: fresh_bucket_def)
  have t: "upd_db ?p (put_bytes 0 ?d) s = ?t"
    using f assms(2) by (intro upd_db_cong) (simp add: put_bytes_fresh)
  have nx: "next_or_new get_free_dbucket_ix ?p ?t =
      andthen (get_free_dbucket_ix ?t) (\<lambda>(ix, s). Inr (ix, upd_db ?p (\<lambda>db. db\<lparr>db_next_ix := ix\<rparr>) s))"
    using f by (simp add: next_or_new_def)
  show ?thesis
    using assms(2) fresh_ptr [OF assms(1)] nx t
    by (cases "get_free_dbucket_ix ?t")
      (auto simp: wr_def write_loop.simps [of _ ix] Let_def andthen_assoc intro: write_loop_counters)
qed

text \<open>The end of \<open>upload_file\<close>: the part of the data behind the last whole bucket.\<close>

definition upload_tail :: "nat \<Rightarrow> byte list \<Rightarrow> nat option \<times> 'z mstate_scheme \<Rightarrow> 'z mstate_scheme res" where
  "upload_tail sz buf = (\<lambda>(db, s).
     (let rounds = sz div DBUCKET_BUF_SIZE; off = sz mod DBUCKET_BUF_SIZE in
      if off > 0 then
        (case db of None \<Rightarrow> Inl Fault
         | Some p \<Rightarrow>
             if db_bytes (dbs s p) = 0 then
               Inr (upd_db p (\<lambda>b. b\<lparr>db_buf := mem_write (db_buf b) 0 (take off buf), db_bytes := off\<rparr>) s)
             else
               andthen (get_free_dbucket_ix s) (\<lambda>(dbindex, s).
                 (let s = upd_db p (\<lambda>b. b\<lparr>db_next_ix := dbindex\<rparr>) s in
                  andthen (get_dbucket_ptr dbindex s) (\<lambda>(q, s).
                    Inr (upd_db q (\<lambda>b. b\<lparr>db_buf := mem_write (db_buf b) 0
                                            (take off (drop (rounds * DBUCKET_BUF_SIZE) buf)),
                                          db_bytes := off\<rparr>) s)))))
      else Inr s))"

lemma alloc_and_link:
  assumes "alloc_inv s" "db_in_use (dbs s p)" "get_free_dbucket_ix s = Inr (ix, s1)"
  shows "fresh_bucket (upd_db p (\<lambda>b. b\<lparr>db_next_ix := ix\<rparr>) s1) ix" "p \<noteq> unat ix" "dbs s1 p = dbs s p"
proof -
  show pq: "p \<noteq> unat ix" using ufs_alloc.alloc_fresh_index [OF assms(1,3,2)] .
  show eq: "dbs s1 p = dbs s p" by (rule ufs_alloc.alloc_bucket(5) [OF assms(1,3) pq])
  show "fresh_bucket (upd_db p (\<lambda>b. b\<lparr>db_next_ix := ix\<rparr>) s1) ix"
    using link_fresh [OF alloc_is_fresh [OF assms(1,3)] pq] assms(2) eq by simp
qed

lemma fill_bucket:
  fixes d n
  assumes "fresh_bucket s ix"
  defines "t \<equiv> upd_db (unat ix) (\<lambda>b. b\<lparr>db_buf := mem_write (db_buf b) 0 d, db_bytes := n\<rparr>) s"
  shows "alloc_inv t" "db_in_use (dbs t (unat ix))" "db_bytes (dbs t (unat ix)) = n"
  using assms(1) unfolding t_def fresh_bucket_def by (auto intro!: alloc_inv_upd)

lemma upload_rest:
  assumes "alloc_inv s" "db_in_use (dbs s p)" "db_bytes (dbs s p) = DBUCKET_BUF_SIZE" "0 < i"
    "length buf = sz" "i + r = sz div DBUCKET_BUF_SIZE"
  shows "andthen (upload_loop r i m (Some p) buf s) (upload_tail sz buf) =
    (if i * DBUCKET_BUF_SIZE = sz then Inr s
     else andthen (get_free_dbucket_ix s) (\<lambda>(ix, s).
       wr ix (drop (i * DBUCKET_BUF_SIZE) buf) (upd_db p (\<lambda>b. b\<lparr>db_next_ix := ix\<rparr>) s)))"
  using assms
proof (induction r arbitrary: i p s)
  case 0
  let ?off = "sz mod DBUCKET_BUF_SIZE"
  have sz: "sz = i * DBUCKET_BUF_SIZE + ?off" using 0 by (metis add_0_right div_mult_mod_eq)
  show ?case
  proof (cases "?off = 0")
    case True
    with sz 0 show ?thesis by (simp add: upload_tail_def)
  next
    case False
    have d: "length (drop (i * DBUCKET_BUF_SIZE) buf) = ?off" using sz 0(5) by simp
    have fits: "?off \<le> DBUCKET_BUF_SIZE" by (simp add: less_imp_le)
    have nsz: "i * DBUCKET_BUF_SIZE \<noteq> sz" using sz False by linarith
    show ?thesis
    proof (cases "get_free_dbucket_ix s")
      case (Inr y)
      obtain ix s1 where y: "y = (ix, s1)" by force
      note fr = alloc_and_link [OF 0(1,2) Inr [unfolded y]]
      note w = wr_fits [OF fr(1), of "drop (i * DBUCKET_BUF_SIZE) buf", unfolded d, OF fits]
      have "take ?off (drop (i * DBUCKET_BUF_SIZE) buf) = drop (i * DBUCKET_BUF_SIZE) buf" using d by simp
      then show ?thesis
        using False nsz Inr y 0 w fresh_ptr [OF fr(1)] by (simp add: upload_tail_def Let_def)
    qed (use False nsz 0 in \<open>simp add: upload_tail_def Let_def\<close>)
  qed
next
  case (Suc r)
  let ?B = DBUCKET_BUF_SIZE
  let ?d = "drop (i * ?B) buf"
  have "Suc i \<le> sz div ?B" using Suc.prems(6) by simp
  then have le: "Suc i * ?B \<le> sz" by (metis div_times_less_eq_dividend le_trans mult_le_mono1)
  then have len: "length ?d = sz - i * ?B" "?B \<le> length ?d" "i * ?B \<noteq> sz"
    using Suc.prems(5) buf_size_pos by auto
  show ?case
  proof (cases "get_free_dbucket_ix s")
    case (Inr y)
    obtain ix s1 where y: "y = (ix, s1)" by force
    note fr = alloc_and_link [OF Suc.prems(1,2) Inr [unfolded y]]
    let ?t1 = "upd_db p (\<lambda>b. b\<lparr>db_next_ix := ix\<rparr>) s1"
    let ?t2 = "upd_db (unat ix) (\<lambda>b. b\<lparr>db_buf := mem_write (db_buf b) 0 (take ?B ?d), db_bytes := ?B\<rparr>) ?t1"
    note fl = fill_bucket [OF fr(1), where d = "take ?B ?d" and n = ?B]
    have "andthen (upload_loop (Suc r) i m (Some p) buf s) (upload_tail sz buf) =
        andthen (upload_loop r (Suc i) m (Some (unat ix)) buf ?t2) (upload_tail sz buf)"
      using Inr y Suc.prems(4) fresh_ptr [OF fr(1)] by simp
    also have "\<dots> = (if Suc i * ?B = sz then Inr ?t2 else andthen (get_free_dbucket_ix ?t2) (\<lambda>(iy, s).
        wr iy (drop (Suc i * ?B) buf) (upd_db (unat ix) (\<lambda>b. b\<lparr>db_next_ix := iy\<rparr>) s)))"
      by (rule Suc.IH [OF fl _ Suc.prems(5)]) (use Suc.prems(6) in simp_all)
    also have "\<dots> = wr ix ?d ?t1"
    proof (cases "Suc i * ?B = sz")
      case True
      then have "length ?d = ?B" using len by simp
      with wr_fits [OF fr(1), of ?d] True show ?thesis by simp
    next
      case False
      then have "?B < length ?d" using le len(1) by simp
      from wr_spills [OF fr(1) this] False show ?thesis by (simp add: Let_def add.commute)
    qed
    finally show ?thesis using Inr y len(3) by simp
  qed (use len(3) in simp)
qed

lemma upload_data_tail:
  "upload_data m sz buf s =
     andthen (if sz div DBUCKET_BUF_SIZE = 0 then
                andthen (get_free_dbucket_ix s) (\<lambda>(dbindex, s).
                andthen (get_dbucket_ptr dbindex s) (\<lambda>(p, s).
                  Inr (Some p, upd_mb m (\<lambda>mb. mb\<lparr>first_dbucket := dbindex\<rparr>)
                                 (upd_db p (\<lambda>b. b\<lparr>db_bytes := 0\<rparr>) s))))
              else Inr (None, s)) (\<lambda>(db, s).
     andthen (upload_loop (sz div DBUCKET_BUF_SIZE) 0 m db buf s) (upload_tail sz buf))"
  by (simp add: upload_data_def upload_tail_def Let_def)

lemma upload_is_write:
  assumes "alloc_inv s" "length buf = sz"
  shows "upload_data m sz buf s = andthen (get_free_dbucket_ix s) (\<lambda>(ix, s).
    wr ix buf (upd_mb m (\<lambda>mb. mb\<lparr>first_dbucket := ix\<rparr>) s))"
proof (cases "get_free_dbucket_ix s")
  case (Inl e)
  then show ?thesis
    by (cases "sz div DBUCKET_BUF_SIZE") (simp_all add: upload_data_tail)
next
  case (Inr y)
  let ?B = DBUCKET_BUF_SIZE
  obtain ix s1 where y: "y = (ix, s1)" by force
  have f1: "fresh_bucket s1 ix" by (rule alloc_is_fresh [OF assms(1) Inr [unfolded y]])
  let ?u = "upd_mb m (\<lambda>mb. mb\<lparr>first_dbucket := ix\<rparr>) s1"
  have fu: "fresh_bucket ?u ix"
    using f1 same_dataD [OF same_data_upd(1) [of m "\<lambda>mb. mb\<lparr>first_dbucket := ix\<rparr>" s1]] by (simp add: fresh_bucket_def)
  show ?thesis
  proof (cases "sz div ?B")
    case 0
    then have lt: "sz < ?B" by (simp add: div_eq_0_iff ufs_config)
    have "upd_db (unat ix) (\<lambda>b. b\<lparr>db_bytes := 0\<rparr>) s1 = s1"
      using f1 by (intro upd_db_id) (simp add: fresh_bucket_def)
    moreover have "upload_tail sz buf (Some (unat ix), ?u) = wr ix buf ?u"
    proof (cases "sz = 0")
      case True
      have "upd_db (unat ix) (\<lambda>b. b\<lparr>db_buf := mem_write (db_buf b) 0 [], db_bytes := 0\<rparr>) ?u = ?u"
        using fu by (intro upd_db_id) (simp add: fresh_bucket_def)
      with True assms(2) wr_fits [OF fu, of buf] show ?thesis by (simp add: upload_tail_def)
    next
      case False
      with lt assms(2) fu wr_fits [OF fu, of buf] show ?thesis
        by (simp add: upload_tail_def fresh_bucket_def)
    qed
    ultimately show ?thesis
      using 0 Inr y fresh_ptr [OF f1] by (simp add: upload_data_tail)
  next
    case (Suc r)
    let ?t = "upd_db (unat ix) (\<lambda>b. b\<lparr>db_buf := mem_write (db_buf b) 0 (take ?B buf), db_bytes := ?B\<rparr>) ?u"
    note fl = fill_bucket [OF fu, where d = "take ?B buf" and n = ?B]
    have le: "?B \<le> sz" using Suc by (metis div_less nat.simps(3) not_le)
    have "upload_data m sz buf s = andthen (upload_loop r 1 m (Some (unat ix)) buf ?t) (upload_tail sz buf)"
      using Suc Inr y fresh_ptr [OF fu] by (simp add: upload_data_tail)
    also have "\<dots> = (if ?B = sz then Inr ?t else andthen (get_free_dbucket_ix ?t) (\<lambda>(iy, s).
        wr iy (drop ?B buf) (upd_db (unat ix) (\<lambda>b. b\<lparr>db_next_ix := iy\<rparr>) s)))"
      using upload_rest [OF fl, of 1 buf sz r m] Suc assms(2) by simp
    also have "\<dots> = wr ix buf ?u"
      using wr_fits [OF fu, of buf] wr_spills [OF fu, of buf] le assms(2) by (auto simp: Let_def)
    finally show ?thesis using Inr y by simp
  qed
qed

lemma wr_result:
  assumes "fresh_bucket s ix"
  shows "case wr ix d s of
      Inl e \<Rightarrow> e = Exit
    | Inr s' \<Rightarrow> alloc_inv s' \<and> kept {unat ix} s s' \<and>
        (\<exists>es. dchain s' ix (unat ix # es) \<and> packed s' (unat ix # es) \<and> content s' (unat ix # es) = d)"
proof -
  let ?p = "unat ix"
  have c: "alloc_inv s" "dchain s ix [?p]" "packed s [?p]" "0 \<le> db_bytes (dbs s ?p)" "content s [?p] = []"
    using assms by (auto simp: fresh_bucket_def used_def)
  show ?thesis
  proof (cases "write_loop get_free_dbucket_ix ix 0 d 0 0 s")
    case (Inl e)
    with ufs_alloc.write_loop_exit [OF c(1-4) Inl] show ?thesis by (simp add: wr_def)
  next
    case (Inr y)
    obtain n si ix' off' s' where y: "y = ((n, si, ix', off'), s')" by (metis surj_pair)
    from ufs_alloc.write_loop_splices [OF c(1-4) Inr [unfolded y]] c(5) show ?thesis
      using Inr y by (auto simp: wr_def splice_def)
  qed
qed

text \<open>What loading does to the state: only the first bucket of \<open>m\<close> is set, data goes to buckets that
  were free.\<close>

definition loaded :: "nat \<Rightarrow> byte list \<Rightarrow> 'z mstate_scheme \<Rightarrow> 'z mstate_scheme \<Rightarrow> bool" where
  "loaded m buf s s' \<longleftrightarrow>
     alloc_inv s' \<and> live s' = live s \<and> hash_table s' = hash_table s \<and> mstate.more s' = mstate.more s \<and>
     alloc_method (sysg s') = alloc_method (sysg s) \<and> (\<forall>q. db_in_use (dbs s q) \<longrightarrow> dbs s' q = dbs s q) \<and>
     (\<exists>ix es. mb_arr s' = (mb_arr s)(m := (mb_arr s m)\<lparr>first_dbucket := ix\<rparr>) \<and>
        dchain s' ix (unat ix # es) \<and> packed s' (unat ix # es) \<and> content s' (unat ix # es) = buf)"

lemma mstate_more: "dstate.more s' = dstate.more s \<Longrightarrow>
  hash_table s' = hash_table s \<and> mb_arr s' = mb_arr s \<and> mstate.more s' = mstate.more (s :: 'z mstate_scheme)"
  by (cases s, cases s') simp

lemma upload_data_result:
  assumes "alloc_inv s" "length buf = sz"
  shows "case upload_data m sz buf s of Inl e \<Rightarrow> e = Exit | Inr s' \<Rightarrow> loaded m buf s s'"
proof (cases "get_free_dbucket_ix s")
  case (Inl e)
  with ufs_alloc.alloc_exit [OF assms(1) Inl] upload_is_write [OF assms] show ?thesis by simp
next
  case (Inr y)
  obtain ix s1 where y: "y = (ix, s1)" by force
  let ?u = "upd_mb m (\<lambda>mb. mb\<lparr>first_dbucket := ix\<rparr>) s1"
  note al = Inr [unfolded y] and sd = same_dataD [OF same_data_upd(1) [of m "\<lambda>mb. mb\<lparr>first_dbucket := ix\<rparr>" s1]]
  have fu: "fresh_bucket ?u ix" using alloc_is_fresh [OF assms(1) al] sd by (simp add: fresh_bucket_def)
  have up: "upload_data m sz buf s = wr ix buf ?u" using upload_is_write [OF assms] Inr y by simp
  note m1 = mstate_more [OF ufs_alloc.alloc_live_same(3) [OF assms(1) al]]
  show ?thesis
  proof (cases "wr ix buf ?u")
    case (Inl e)
    with wr_result [OF fu, of buf] up show ?thesis by simp
  next
    case (Inr t)
    with wr_result [OF fu, of buf] obtain es where t: "alloc_inv t" "kept {unat ix} ?u t"
        "dchain t ix (unat ix # es)" "packed t (unat ix # es)" "content t (unat ix # es) = buf" by auto
    have live: "live t = live s"
      using t(2) sd(6) ufs_alloc.alloc_live_same(1) [OF assms(1) al] by (simp add: kept_def)
    have "dbs t q = dbs s q" if "db_in_use (dbs s q)" for q
    proof -
      have "q \<noteq> unat ix" by (rule ufs_alloc.alloc_fresh_index [OF assms(1) al that])
      with ufs_alloc.alloc_bucket(5) [OF assms(1) al this] that t(2) sd(1) show ?thesis by (simp add: kept_def)
    qed
    moreover have "mb_arr t = mb_arr ?u" "hash_table t = hash_table ?u" "mstate.more t = mstate.more ?u"
      using mstate_more [of t ?u] t(2) by (simp_all add: kept_def)
    moreover have "alloc_method (sysg t) = alloc_method (sysg ?u)"
      using Inr endsD [OF write_loop_frame] frameD(2) by (fastforce simp: wr_def andthen_eq_Inr)
    then have "alloc_method (sysg t) = alloc_method (sysg s)"
      using endsD [OF get_free_dbucket_ix_frame al] frameD(2) [of s1 s] by simp
    ultimately show ?thesis using up Inr t(1,3-5) live m1 unfolding loaded_def by auto
  qed
qed

section \<open>Loading a file\<close>

lemma loaded_files:
  assumes "loaded m buf u s'" "dbs u = dbs s" "live u = live s"
    "\<And>i. mb_s (mb_arr u i) = mb_s (mb_arr s i) \<or> i = m" "\<And>i. first_dbucket (mb_arr u i) = first_dbucket (mb_arr s i)"
  shows "files_kept m s s'"
  unfolding files_kept_def
proof (intro allI impI)
  fix m' qs assume m': "m' \<noteq> m" and ok: "file_ok s m' qs"
  have c: "dchain s (first_dbucket (mb_arr s m')) qs" using ok by (simp add: file_ok_def)
  have "dbs s' q = dbs s q" if "q \<in> set qs" for q
    using dchain_in_use [OF c that] assms(1,2) by (auto simp: loaded_def)
  note fr = dchain_frame [of qs s' s, OF this]
  have "mb_arr s' m' = mb_arr u m'" "live s' = live s" using assms(1,3) m' by (auto simp: loaded_def)
  with ok fr assms(4,5) m' show "file_ok s' m' qs \<and> content s' qs = content s qs \<and> mb_s (mb_arr s' m') = mb_s (mb_arr s m')"
    by (metis file_ok_def)
qed

lemma loaded_new_file:
  assumes R: "rows_ok s R" and p: "hash p = Inr h" "ok_path p" "look s p = None"
    and j: "j < META_BUCKETS" "\<not> mb_in_use (mb_arr s j)"
    and c: "hash_table c = hash_table (created h (R h) j s)" "mb_arr c = mb_arr (created h (R h) j s)"
      "dbs c = dbs s" "live c = live s"
    and l: "loaded j buf (upd_mb j (\<lambda>mb. mb\<lparr>mb_path := p, mb_s := st\<rparr>) c) s'" and st: "st_size st = length buf"
  shows "minv s'" "look s' = (look s)(p \<mapsto> j)" "files_kept j s s'" "mb_s (mb_arr s' j) = st"
    "\<exists>ps. file_ok s' j ps \<and> content s' ps = buf"
proof -
  let ?c = "created h (R h) j s" and ?u = "upd_mb j (\<lambda>mb. mb\<lparr>mb_path := p, mb_s := st\<rparr>) c"
  obtain ix es where arr: "mb_arr s' = (mb_arr ?u)(j := (mb_arr ?u j)\<lparr>first_dbucket := ix\<rparr>)"
    and ch: "dchain s' ix (unat ix # es)" "packed s' (unat ix # es)" "content s' (unat ix # es) = buf"
    using l by (auto simp: loaded_def)
  let ?g = "\<lambda>mb. mb\<lparr>mb_path := p, mb_s := st, first_dbucket := ix\<rparr>"
  let ?v = "upd_mb j ?g ?c"
  have tab: "hash_table s' = hash_table ?v" "mb_arr s' = mb_arr ?v"
    using l c arr by (auto simp: loaded_def)
  have same: "minv s' = minv ?v" "look s' = look ?v" by (rule rows_fields; simp only: tab)+
  show "minv s'" unfolding same using created_rows_ok [OF R p j, of ?g] by (auto simp: minv_def)
  show "look s' = (look s)(p \<mapsto> j)" unfolding same by (rule created_look [OF R p j]) simp
  show "files_kept j s s'"
    by (rule loaded_files [OF l]) (use c live_upd_db in \<open>auto simp: created_mb live_def\<close>)
  show "mb_s (mb_arr s' j) = st" by (simp add: tab)
  show "\<exists>ps. file_ok s' j ps \<and> content s' ps = buf"
    using ch st by (intro exI [of _ "unat ix # es"]) (simp add: file_ok_def tab)
qed

lemma os_call_result:
  assumes "f (disk s) = ((r, e), d)"
  obtains t where "os_call f s = (r, t)" "disk t = d" "hash_table t = hash_table s" "mb_arr t = mb_arr s" "same_data t s"
    "ustate.more t = ustate.more s"
proof (rule that)
  let ?t = "s\<lparr>disk := d, errno := (case e of None \<Rightarrow> errno s | Some x \<Rightarrow> x)\<rparr>"
  show "os_call f s = (r, ?t)" using assms by (simp add: os_call_def)
  show "disk ?t = d" "hash_table ?t = hash_table s" "mb_arr ?t = mb_arr s" "same_data ?t s" "ustate.more ?t = ustate.more s"
    by (simp_all add: same_data_def dstate.defs)
qed

text \<open>A file that has been loaded: a new entry and its contents, everything else as before.\<close>

definition has_loaded ::
  "string \<Rightarrow> nat \<Rightarrow> stat \<Rightarrow> byte list \<Rightarrow> ('d, 'z) ustate_scheme \<Rightarrow> ('d, 'z) ustate_scheme \<Rightarrow> bool" where
  "has_loaded p m st buf s s' \<longleftrightarrow>
     m < META_BUCKETS \<and> \<not> mb_in_use (mb_arr s m) \<and> minv s' \<and> alloc_inv s' \<and> look s' = (look s)(p \<mapsto> m) \<and> files_kept m s s' \<and>
     mb_s (mb_arr s' m) = st \<and> (\<exists>ps. file_ok s' m ps \<and> content s' ps = buf) \<and>
     (\<forall>i. mb_in_use (mb_arr s' i) = (i = m \<or> mb_in_use (mb_arr s i))) \<and>
     alloc_method (sysg s') = alloc_method (sysg s) \<and> ustate.more s' = ustate.more s"

lemma mstate_more_ustate:
  "mstate.more s' = mstate.more s \<Longrightarrow> ustate.more s' = ustate.more s \<and> disk s' = disk (s :: ('d, 'z) ustate_scheme)"
  by (cases s, cases s') simp

lemma created_rest: "sysg (created h xs j s) = sysg s" "ustate.more (created h xs j u) = ustate.more (u :: ('d, 'z) ustate_scheme)"
  by (simp_all add: created_def relink_def upd_mb_def upd_hi_def split: option.split)

text \<open>The call after the metadata bucket has been taken.\<close>

lemma upload_into:
  assumes R: "rows_ok s R" and p: "hash p = Inr h" "ok_path p" "look s p = None"
    and j: "j < META_BUCKETS" "\<not> mb_in_use (mb_arr s j)" and a: "alloc_inv s"
    and rd: "os_read os fd n (disk s) = (((int n, buf), e3), d3)" "length buf = n" "st_size st = n"
  shows "case (case os_call (os_read os fd n) (created h (R h) j s) of ((c, buf), s) \<Rightarrow>
          if c \<noteq> int n then Inr (None, s)
          else case os_call (os_close os fd) s of (_, s) \<Rightarrow>
            (let s = upd_mb j (\<lambda>mb. mb\<lparr>mb_path := p, mb_s := st\<rparr>) s in
             andthen (upload_data j n buf s) (\<lambda>s. Inr (Some j, s)))) of
      Inl e \<Rightarrow> e = Exit
    | Inr (r, s') \<Rightarrow> r = Some j \<and> has_loaded p j st buf s s' \<and> disk s' = snd (os_close os fd d3)"
proof -
  let ?c = "created h (R h) j s"
  have "disk ?c = disk s" using created_proc [of s h "R h" j] by (simp add: proc_kept_def)
  then obtain t where t: "os_call (os_read os fd n) ?c = ((int n, buf), t)" "hash_table t = hash_table ?c"
      "mb_arr t = mb_arr ?c" "same_data t ?c" "disk t = d3" "ustate.more t = ustate.more ?c"
    using os_call_result [of "os_read os fd n" ?c] rd(1) by metis
  obtain r e d where cl: "os_close os fd (disk t) = ((r, e), d)" by (metis surj_pair)
  then obtain c where c: "os_call (os_close os fd) t = (r, c)" "hash_table c = hash_table t" "mb_arr c = mb_arr t" "same_data c t"
      "disk c = d" "ustate.more c = ustate.more t"
    using os_call_result [of "os_close os fd" t] by metis
  note cc = same_dataD [OF same_data_trans [OF c(4) t(4)]]
  have c': "hash_table c = hash_table ?c" "mb_arr c = mb_arr ?c" "dbs c = dbs s" "live c = live s"
    using c t cc(1,6) by (simp_all add: created_data)
  let ?u = "upd_mb j (\<lambda>mb. mb\<lparr>mb_path := p, mb_s := st\<rparr>) c"
  have "alloc_inv ?u"
    unfolding same_dataD(8) [OF same_data_upd(1)] cc(8) created_data(3) by (rule a)
  note up = upload_data_result [OF this rd(2), of j]
  show ?thesis
  proof (cases "upload_data j n buf ?u")
    case (Inl e)
    with up t(1) c(1) show ?thesis by (simp add: Let_def)
  next
    case (Inr s')
    with up have l: "loaded j buf ?u s'" by simp
    then have more: "alloc_inv s'" "mstate.more s' = mstate.more c" "alloc_method (sysg s') = alloc_method (sysg s)"
      using cc(2) by (simp_all add: loaded_def created_rest)
    from l obtain ix where "mb_arr s' = (mb_arr ?u)(j := (mb_arr ?u j)\<lparr>first_dbucket := ix\<rparr>)"
      by (auto simp: loaded_def)
    then have "mb_in_use (mb_arr s' i) = (i = j \<or> mb_in_use (mb_arr s i))" for i
      by (cases "i = j") (simp_all add: c'(2) created_mb)
    moreover note more mstate_more_ustate [OF more(2)]
    ultimately have "has_loaded p j st buf s s' \<and> disk s' = snd (os_close os fd d3)"
      using loaded_new_file [OF R p j c' l] rd(2,3) c(5,6) t(5,6) cl j by (auto simp: has_loaded_def created_rest)
    with Inr t(1) c(1) show ?thesis by (simp add: Let_def)
  qed
qed

lemma upload_file_result:
  assumes "minv s" "alloc_inv s" "ok_path name" "fits_path name" "look s name = None"
    "os_stat os name (disk s) = (((0, st), e1), d1)" "os_open os name 0 0 d1 = ((fd, e2), d2)" "0 \<le> fd"
    "os_read os fd (st_size st) d2 = (((int (st_size st), buf), e3), d3)" "length buf = st_size st"
  shows "case upload_file os name s of
      Inl e \<Rightarrow> e = Exit
    | Inr (None, s') \<Rightarrow> {i. i < META_BUCKETS \<and> \<not> mb_in_use (mb_arr s i)} = {}
    | Inr (Some m, s') \<Rightarrow> has_loaded name m st buf s s' \<and> disk s' = snd (os_close os fd d3)"
proof -
  obtain s1 where s1: "os_call (os_stat os name) s = ((0, st), s1)" "disk s1 = d1" "hash_table s1 = hash_table s"
      "mb_arr s1 = mb_arr s" "same_data s1 s" "ustate.more s1 = ustate.more s"
    using os_call_result [of "os_stat os name" s] assms(6) by metis
  obtain s2 where o: "os_call (os_open os name 0 0) s1 = (fd, s2)" "disk s2 = d2" "hash_table s2 = hash_table s1"
      "mb_arr s2 = mb_arr s1" "same_data s2 s1" "ustate.more s2 = ustate.more s1"
    using os_call_result [of "os_open os name 0 0" s1] assms(7) s1(2) by metis
  have s2: "os_call (os_open os name 0 0) s1 = (fd, s2)" "disk s2 = d2" "hash_table s2 = hash_table s"
      "mb_arr s2 = mb_arr s" "same_data s2 s" "ustate.more s2 = ustate.more s"
    using o s1(3-6) same_data_trans [OF o(5) s1(5)] by simp_all
  have n2: "minv s2" "look s2 = look s" using assms(1) rows_fields [of s2 s] s2 by simp_all
  have a2: "alloc_inv s2" using assms(2) same_dataD(8) [OF s2(5)] by simp
  have hl: "has_loaded name m st buf s2 t \<Longrightarrow> has_loaded name m st buf s t" for m t
    using n2(2) s2(4,6) same_dataD(2) [OF s2(5)] files_kept_cong [OF _ s2(5), of m t] by (simp add: has_loaded_def)
  obtain R h where R: "rows_ok s2 R" and h: "hash name = Inr h"
    using n2(1) ok_path_hash [OF assms(3)] by (auto simp: minv_def)
  have look2: "look s2 name = None" using assms(5) n2 by simp
  consider (new) j where "j < META_BUCKETS" "\<not> mb_in_use (mb_arr s2 j)"
      "strict_create_mbucket name s2 = Inr (Some j, created h (R h) j s2)"
    | (none) "\<forall>i < META_BUCKETS. mb_in_use (mb_arr s2 i)" "\<exists>t. strict_create_mbucket name s2 = Inr (None, t)"
    using strict_create_cases [OF R h assms(3)] look2 by auto
  then show ?thesis
  proof cases
    case (new j)
    note up = upload_into [OF R h assms(3) look2 new(1,2) a2, of os fd "st_size st" buf e3 d3 st, unfolded s2(2), OF assms(9,10) refl]
    show ?thesis
      using up hl s1(1) s2(1) new(3) assms(4,8)
      by (auto simp: upload_file_def split: sum.splits prod.splits option.splits)
  next
    case none
    then show ?thesis using s1(1) s2(1,4) assms(8) by (auto simp: upload_file_def)
  qed
qed

text \<open>
  Loading a file from disk. When the operating system reports the file and delivers as many
  bytes as it reported, the library gets a new entry for the path, with the attributes reported and
  exactly those bytes as contents, whatever their number; nothing else changes in the name table or
  in any other file. Without a free metadata bucket nothing is loaded; without a free data bucket
  the process exits.
\<close>

theorem upload_file_loads_contents:
  assumes "minv s" "alloc_inv s" "ok_path name" "fits_path name" "look s name = None"
    "os_stat os name (disk s) = (((0, st), e1), d1)" "os_open os name 0 0 d1 = ((fd, e2), d2)" "0 \<le> fd"
    "os_read os fd (st_size st) d2 = (((int (st_size st), buf), e3), d3)" "length buf = st_size st"
  shows "case upload_file os name s of
      Inl e \<Rightarrow> e = Exit
    | Inr (None, s') \<Rightarrow> {i. i < META_BUCKETS \<and> \<not> mb_in_use (mb_arr s i)} = {}
    | Inr (Some m, s') \<Rightarrow> minv s' \<and> alloc_inv s' \<and> look s' = (look s)(name \<mapsto> m) \<and> files_kept m s s' \<and>
        mb_s (mb_arr s' m) = st \<and> (\<exists>ps. file_ok s' m ps \<and> content s' ps = buf)"
  using upload_file_result [OF assms] by (auto simp: has_loaded_def split: sum.splits option.splits)

theorem upload_file_loads_contents_witness:
  "case upload_file (null_os\<lparr>os_stat := (\<lambda>_ d. (((0, zero_stat\<lparr>st_size := 3\<rparr>), None), d)), os_open := (\<lambda>_ _ _ d. ((5, None), d)),
      os_read := (\<lambda>_ n d. (((int n, [1, 2, 3]), None), d))\<rparr>) ''/a'' boot_ustate of
     Inl e \<Rightarrow> e = Exit
   | Inr (r, s') \<Rightarrow> \<exists>m ps. r = Some m \<and> look s' = [''/a'' \<mapsto> m] \<and> content s' ps = [1, 2, 3]"
proof -
  let ?os = "null_os\<lparr>os_stat := (\<lambda>_ d. (((0, zero_stat\<lparr>st_size := 3\<rparr>), None), d)), os_open := (\<lambda>_ _ _ d. ((5, None), d)),
      os_read := (\<lambda>_ n d. (((int n, [1, 2, 3]), None), d))\<rparr>"
  have f: "fits_path ''/a''" "look boot_ustate ''/a'' = None" "\<exists>i. i < META_BUCKETS \<and> \<not> mb_in_use (mb_arr boot_ustate i)"
    using boot_fd(3) by (auto simp: fits_path_def boot_names ufs_config intro: exI [of _ 0])
  from upload_file_loads_contents [OF boot_ustate_inv(2,1) sample_paths(4) f(1,2), of ?os "zero_stat\<lparr>st_size := 3\<rparr>" None
      "()" 5 None "()" "[1, 2, 3]" None "()"]
  show ?thesis using f(3) by (fastforce simp: boot_names(2) split: sum.splits prod.splits option.splits)
qed

section \<open>The image for the disk\<close>

lemma mem_write_append: "mem_write (mem_write b off d) (off + length d) e = mem_write b off (d @ e)"
  by (rule ext) (auto simp: mem_write_def nth_append)

lemma image_loop_chain:
  assumes "dinv s" "dchain s ix (us @ vs)" "full s us"
  shows "image_loop (length us) i ix b s = Inr ((ix_of vs, mem_write b (i * DBUCKET_BUF_SIZE) (content s us)), s)"
  using assms(2,3)
proof (induction us arbitrary: i ix b)
  case Nil
  then show ?case using dchain_ix_of by fastforce
next
  case (Cons p us)
  then have p: "get_dbucket_ptr ix s = Inr (p, s)" "mem_read (db_buf (dbs s p)) 0 DBUCKET_BUF_SIZE = used s p"
    using get_dbucket_ptr_live [OF assms(1)] by (auto simp: used_def)
  have "length (used s p) = DBUCKET_BUF_SIZE" using Cons.prems(2) by simp
  with mem_write_append [of b "i * DBUCKET_BUF_SIZE" "used s p" "content s us"] p Cons show ?case
    by (simp add: add.commute)
qed

lemma content_split:
  assumes "packed s ps" "dchain s ix ps"
  defines "c \<equiv> content s ps" and "k \<equiv> length (content s ps) div DBUCKET_BUF_SIZE"
  shows "k \<le> length ps" "full s (take k ps)" "content s (take k ps) = take (k * DBUCKET_BUF_SIZE) c"
    "0 < length c mod DBUCKET_BUF_SIZE \<Longrightarrow> k < length ps \<and> used s (ps ! k) = drop (k * DBUCKET_BUF_SIZE) c"
proof -
  note sp = offset_split [OF assms(1,2) order_refl, folded k_def]
  show "k \<le> length ps" "full s (take k ps)" by (rule sp(1), rule sp(2))
  then have len: "length (content s (take k ps)) = k * DBUCKET_BUF_SIZE"
    using length_content_full [OF sp(2)] by (simp add: mult.commute)
  have c: "c = content s (take k ps) @ content s (drop k ps)"
    unfolding c_def content_simps(3) [symmetric] by simp
  then show "content s (take k ps) = take (k * DBUCKET_BUF_SIZE) c" using len by simp
  assume off: "0 < length c mod DBUCKET_BUF_SIZE"
  then have k: "k < length ps" using sp(1,4) by (cases "k = length ps") (auto simp: c_def)
  have d: "drop k ps = ps ! k # drop (Suc k) ps" using k by (simp add: Cons_nth_drop_Suc)
  have "db_bytes (dbs s (ps ! k)) \<noteq> DBUCKET_BUF_SIZE"
    using packed_layout [OF assms(1,2) k] off
    by (metis c_def k_def min.strict_order_iff minus_mult_div_eq_mod mod_less_divisor buf_size_pos less_irrefl min.commute)
  moreover have "packed s (drop k ps)" using assms(1) packed_append [of s "take k ps" "drop k ps"] by simp
  ultimately have "content s (drop (Suc k) ps) = []" unfolding d by (rule packed_tail_empty [rotated])
  then show "k < length ps \<and> used s (ps ! k) = drop (k * DBUCKET_BUF_SIZE) c"
    using k c len d by simp
qed

text \<open>The block a file is copied to.\<close>

lemma disk_block:
  fixes s :: "'z mstate_scheme"
  assumes "dinv s" "file_ok s m ps"
  defines "c \<equiv> content s ps"
  defines "off \<equiv> length c mod DBUCKET_BUF_SIZE" and "n \<equiv> length c - length c mod DBUCKET_BUF_SIZE"
  shows "disk_image junk (st_size (mb_s (mb_arr s m))) (first_dbucket (mb_arr s m)) s =
    Inr (if off = 0 \<or> n = 0 then c else drop n c @ drop off (take n c) @ mem_read junk n off, s)"
proof -
  let ?k = "length c div DBUCKET_BUF_SIZE"
  have f: "dchain s (first_dbucket (mb_arr s m)) ps" "packed s ps" "st_size (mb_s (mb_arr s m)) = length c"
    using assms(2) by (auto simp: file_ok_def c_def)
  note sp = content_split [OF f(2,1), folded c_def]
  have n: "?k * DBUCKET_BUF_SIZE = n" "n + off = length c" by (simp_all add: n_def off_def minus_mod_eq_div_mult)
  have len: "length (take ?k ps) = ?k" using sp(1) by simp
  have il: "image_loop ?k 0 (first_dbucket (mb_arr s m)) junk s =
      Inr ((ix_of (drop ?k ps), mem_write junk 0 (take n c)), s)"
    using image_loop_chain [OF assms(1), of "first_dbucket (mb_arr s m)" "take ?k ps" "drop ?k ps" 0 junk] f(1) sp(2,3) len n(1)
    by simp
  show ?thesis
  proof (cases "off = 0")
    case True
    then have "mem_read (mem_write junk 0 (take n c)) 0 (length c) = c"
      using n(2) mem_read_write_same [of junk 0 c] by simp
    with True il show ?thesis by (simp add: disk_image_def f(3) Let_def off_def)
  next
    case False
    then have k: "?k < length ps" "used s (ps ! ?k) = drop n c" using sp(4) n(1) by (auto simp: off_def)
    let ?p = "ps ! ?k"
    have d: "drop ?k ps = ?p # drop (Suc ?k) ps" using k(1) by (simp add: Cons_nth_drop_Suc)
    have ch: "dchain s (of_nat ?p) (drop ?k ps)" using dchain_drop [OF f(1), of ?k] d by simp
    then have ptr: "get_dbucket_ptr (of_nat ?p) s = Inr (?p, s)"
      using get_dbucket_ptr_live [OF assms(1)] unfolding d by auto
    have "db_bytes (dbs s ?p) = off" using k(2) n(2) by (metis length_used length_drop add_diff_cancel_left')
    then have last: "mem_read (db_buf (dbs s ?p)) 0 off = drop n c" using k(2) by (simp add: used_def)
    have "disk_image junk (st_size (mb_s (mb_arr s m))) (first_dbucket (mb_arr s m)) s =
        Inr (mem_read (mem_write (mem_write junk 0 (take n c)) 0 (drop n c)) 0 (length c), s)"
      using False il ptr last d by (simp add: disk_image_def f(3) Let_def off_def)
    moreover have "mem_read (mem_write (mem_write junk 0 (take n c)) 0 (drop n c)) 0 (length c) =
        (if n = 0 then c else drop n c @ drop off (take n c) @ mem_read junk n off)"
    proof (cases "n = 0")
      case True
      then show ?thesis using mem_read_write_same [of junk 0 c] by simp
    next
      case False
      have "off < DBUCKET_BUF_SIZE" by (simp add: off_def)
      moreover have "DBUCKET_BUF_SIZE \<le> n" using n(1) False by (cases ?k) auto
      ultimately have "off < n" by simp
      with False n(2) [symmetric] show ?thesis by (intro nth_equalityI) (auto simp: mem_write_def nth_append)
    qed
    ultimately show ?thesis using False by simp
  qed
qed

text \<open>
  (C10) The block \<open>write_to_disk\<close> writes for a file. When the file is shorter than a bucket, or fills
  its buckets exactly, the block is the contents of the file. Otherwise it is not: the last, partly
  used bucket is copied over the beginning of the block, and the end of the block is whatever
  \<open>malloc\<close> returned.
\<close>

theorem write_to_disk_block:
  fixes s :: "('d, 'z) ustate_scheme" and junk :: buffer
  assumes "dinv s" "file_ok s m ps"
  defines "c \<equiv> content s ps"
  defines "off \<equiv> length c mod DBUCKET_BUF_SIZE" and "n \<equiv> length c - length c mod DBUCKET_BUF_SIZE"
  defines "block \<equiv> if off = 0 \<or> n = 0 then c else drop n c @ drop off (take n c) @ mem_read junk n off"
  shows "write_to_disk os junk m s =
    (case os_call (os_open os (mb_path (mb_arr s m)) (O_RDWR OR O_CREAT OR O_TRUNC) (st_mode (mb_s (mb_arr s m)))) s of
       (fd, s1) \<Rightarrow> Inr (snd (os_call (os_close os fd) (snd (os_call (os_write os fd block) s1)))))"
  using disk_block [OF assms(1,2), of junk, folded c_def, folded off_def n_def, folded block_def]
  by (simp add: write_to_disk_def O_RDWR_def O_CREAT_def O_TRUNC_def split: prod.splits)

text \<open>An operating system that leaves the sum of the bytes written in \<open>errno\<close>.\<close>

definition sum_os :: "unit os" where
  "sum_os = null_os\<lparr>os_write := (\<lambda>_ buf d. ((0, Some (int (sum_list (map unat buf)))), d)), os_close := (\<lambda>_ d. ((0, None), d))\<rparr>"

theorem write_to_disk_block_witness:
  "write_to_disk sum_os (\<lambda>_. 0) 0 (demo_file 5) = Inr ((demo_file 5)\<lparr>errno := 35\<rparr>)"
proof -
  have "dinv (demo_file 5)" using demo_alloc_inv by (simp add: alloc_inv_def)
  from write_to_disk_block [OF this demo_ok, of sum_os "\<lambda>_. 0"] show ?thesis
    unfolding demo_content5 by (simp add: os_call_def sum_os_def null_os_def ufs_config)
qed

end
