(* ===== verification/Ufs_Process.thy ===== *)
theory Ufs_Process
  imports Ufs_Disk "HOL-Library.Signed_Division"
begin

text \<open>
  Processes: \<open>system/util/process.c\<close>, \<open>system/lib/file_proc.c\<close>, the constructor and destructor of
  the library in \<open>system/lib/ufs.c\<close> and \<open>open_map_global_memm\<close> of \<open>meta_shm.c\<close>.

  A process keeps its descriptors over \<open>exec\<close> in a shared segment named after its user and pid: the
  old image copies the table there and marks its slot of the shared array \<open>pid_meta\<close>, the constructor
  of the new image finds the mark and copies the table back. The state of the model is that of one
  process (the library's global variables, \<open>ustate\<close> and the fields below) together with the shared
  segments of its user. \<open>VFORK_SIGNALING\<close> is not defined in the build, so \<open>fork\<close> and \<open>vfork\<close> are
  those of the system and the signal handlers are not installed. The flag \<open>calling_shm_open\<close>, which
  makes \<open>open\<close> step aside while \<open>shm_open\<close> runs, is False again when each function returns.
\<close>

unbundle bit_operations_syntax

section \<open>State\<close>

definition MAX_EXEC_HANGING :: nat where
  [ufs_config]: "MAX_EXEC_HANGING = 4096 * 2"

record pid_info =
  pi_pid :: int
  fds_backed_up :: bool
  first_parent_signaled :: bool
  vforked :: bool
  pi_lock :: bool

text \<open>\<open>mainm_seg\<close> and \<open>pid_seg\<close>: the segments \<open>ufs_mainm_\<close> and \<open>ufs_pid_meta_\<close> of the user exist.
  \<open>fd_shm\<close>: the segments \<open>ufs_fdbackup_<uid>_<pid>\<close>. \<open>kuid\<close> and \<open>kpid\<close>: what \<open>getuid\<close> and \<open>getpid\<close>
  return; \<open>uid\<close> and \<open>pid\<close> are the library's variables. \<open>backup_fds\<close>: the segment the pointer of that
  name was mapped to, with whether it still is.\<close>

record 'd pstate = "'d ustate" +
  mainm_seg :: bool
  pid_seg :: bool
  pid_meta :: "nat \<Rightarrow> pid_info"
  fd_shm :: "int \<times> int \<Rightarrow> (nat \<Rightarrow> fd_info) option"
  kuid :: int
  kpid :: int
  uid :: int
  pid :: int
  pid_meta_ind :: nat
  pid_meta_ind_set :: bool
  backup_fds :: "((int \<times> int) \<times> bool) option"
  ufs_init_called :: bool
  glob_umask :: nat

text \<open>What the code takes from the system here besides the calls of \<open>os\<close>: whether an \<open>exec\<close> call
  replaces the image (it only returns when it fails), the number \<open>shm_open\<close> returns for the segment
  of descriptors, the microseconds of \<open>gettimeofday\<close>, the sequence \<open>rand\<close> yields after \<open>srand\<close>, and
  the memory \<open>malloc\<close> returns to \<open>write_to_disk\<close>.\<close>

record 'd pos = "'d os" +
  os_execvp :: "string \<Rightarrow> string list \<Rightarrow> 'd \<Rightarrow> bool \<times> 'd"
  os_execv :: "string \<Rightarrow> string list \<Rightarrow> 'd \<Rightarrow> bool \<times> 'd"
  os_execve :: "string \<Rightarrow> string list \<Rightarrow> string list \<Rightarrow> 'd \<Rightarrow> bool \<times> 'd"
  os_shm_fd :: "'d \<Rightarrow> int"
  os_usec :: "'d \<Rightarrow> int"
  os_srand :: "int \<Rightarrow> nat \<Rightarrow> nat"
  os_junk :: buffer

definition upd_pid :: "nat \<Rightarrow> (pid_info \<Rightarrow> pid_info) \<Rightarrow> ('d, 'z) pstate_scheme \<Rightarrow> ('d, 'z) pstate_scheme" where
  "upd_pid i f s = s\<lparr>pid_meta := (pid_meta s)(i := f (pid_meta s i))\<rparr>"

section \<open>The slots of the processes\<close>

definition trylock_pid_info :: "nat \<Rightarrow> ('d, 'z) pstate_scheme \<Rightarrow> int \<times> ('d, 'z) pstate_scheme" where
  "trylock_pid_info i s =
     (if pi_lock (pid_meta s i) then (- 1, s) else (0, upd_pid i (\<lambda>p. p\<lparr>pi_lock := True\<rparr>) s))"

definition unlock_pid_info :: "nat \<Rightarrow> ('d, 'z) pstate_scheme \<Rightarrow> ('d, 'z) pstate_scheme" where
  "unlock_pid_info i s = upd_pid i (\<lambda>p. p\<lparr>pi_lock := False\<rparr>) s"

function new_pid_loop :: "nat \<Rightarrow> ('d, 'z) pstate_scheme \<Rightarrow> (nat \<times> ('d, 'z) pstate_scheme) res" where
  "new_pid_loop i s =
     (if i < MAX_EXEC_HANGING then
        (if pi_pid (pid_meta s i) = 0 then
           (case trylock_pid_info i s of (trylock_ret, s1) \<Rightarrow>
              if trylock_ret = - 1 then new_pid_loop (Suc i) s
              else Inr (i, unlock_pid_info i (s1\<lparr>pid_meta_ind := i, pid_meta_ind_set := True\<rparr>)))
         else new_pid_loop (Suc i) s)
      else Inl Exit)"
  by pat_completeness auto
termination
  by (relation "measure (\<lambda>(i, s). MAX_EXEC_HANGING - i)") auto

declare new_pid_loop.simps [simp del]

definition get_new_pid_meta_ind :: "('d, 'z) pstate_scheme \<Rightarrow> (nat \<times> ('d, 'z) pstate_scheme) res" where
  "get_new_pid_meta_ind s = new_pid_loop 0 s"

function find_pid :: "int \<Rightarrow> nat \<Rightarrow> (nat \<Rightarrow> pid_info) \<Rightarrow> nat option" where
  "find_pid p j m =
     (if j < MAX_EXEC_HANGING then (if pi_pid (m j) = p then Some j else find_pid p (Suc j) m) else None)"
  by pat_completeness auto
termination
  by (relation "measure (\<lambda>(p, j, m). MAX_EXEC_HANGING - j)") auto

declare find_pid.simps [simp del]

definition get_pid_meta_ind :: "('d, 'z) pstate_scheme \<Rightarrow> (nat \<times> ('d, 'z) pstate_scheme) res" where
  "get_pid_meta_ind s =
     (if pid_meta_ind_set s \<and> pi_pid (pid_meta s (pid_meta_ind s)) = kpid s then Inr (pid_meta_ind s, s)
      else case find_pid (kpid s) 0 (pid_meta s) of
        Some j \<Rightarrow> Inr (j, s\<lparr>pid_meta_ind := j, pid_meta_ind_set := True\<rparr>)
      | None \<Rightarrow> andthen (get_new_pid_meta_ind s) (\<lambda>(k, s).
          Inr (k, upd_pid k (\<lambda>p. p\<lparr>pi_pid := kpid s\<rparr>) s)))"

definition remove_pid_slot :: "('d, 'z) pstate_scheme \<Rightarrow> ('d, 'z) pstate_scheme res" where
  "remove_pid_slot s = andthen (get_pid_meta_ind s) (\<lambda>(_, s).
     Inr (upd_pid (pid_meta_ind s)
       (\<lambda>p. p\<lparr>pi_pid := 0, fds_backed_up := False, first_parent_signaled := False, vforked := False\<rparr>) s))"

definition exit_intercept :: "('d, 'z) pstate_scheme \<Rightarrow> ('d, 'z) pstate_scheme res" where
  "exit_intercept s = remove_pid_slot s"

section \<open>Executing another program\<close>

text \<open>An entry of zeros, as in a new segment and in the memory of a new image.\<close>

definition zero_fd :: fd_info where
  "zero_fd = \<lparr>mindex = 0, fd_flags = 0,
     priv_s = zero_stat, stamp_type = 0, off_db_mapping = (\<lambda>_. \<lparr>oi_offset = 0, oi_dbindex = 0\<rparr>),
     off_db_ptr = 0, exclusive = False, fd_empty = False\<rparr>"

definition copy_table :: "(nat \<Rightarrow> fd_info) \<Rightarrow> (nat \<Rightarrow> fd_info) \<Rightarrow> nat \<Rightarrow> fd_info" where
  "copy_table src dst = (\<lambda>i. if int i < MAX_NUM_FD then src i else dst i)"

definition exec_fd_backup :: "('d, 'z) pstate_scheme \<Rightarrow> ('d, 'z) pstate_scheme res" where
  "exec_fd_backup s =
     (let s = s\<lparr>pid := kpid s, uid := kuid s\<rparr> in
      andthen (case backup_fds s of
          Some _ \<Rightarrow> Inr s
        | None \<Rightarrow> andthen (get_pid_meta_ind s) (\<lambda>(_, s).
            case fd_shm s (uid s, pid s) of
              Some _ \<Rightarrow> Inl Exit
            | None \<Rightarrow> Inr (s\<lparr>calling_shm_open := False, fd_shm := (fd_shm s)((uid s, pid s) \<mapsto> (\<lambda>_. zero_fd)),
                           backup_fds := Some ((uid s, pid s), True)\<rparr>)))
        (\<lambda>s. case backup_fds s of
            Some (k, True) \<Rightarrow>
              (case fd_shm s k of
                 Some seg \<Rightarrow>
                   Inr (upd_pid (pid_meta_ind s) (\<lambda>p. p\<lparr>fds_backed_up := True\<rparr>)
                     (s\<lparr>fd_shm := (fd_shm s)(k \<mapsto> copy_table (fdTable s) seg), backup_fds := Some (k, False)\<rparr>))
               | None \<Rightarrow> Inl Fault)
          | _ \<Rightarrow> Inl Fault))"

definition exec_file_in_shm ::
  "('d, 'x) pos_scheme \<Rightarrow> string \<Rightarrow> ('d, 'z) pstate_scheme \<Rightarrow> ('d, 'z) pstate_scheme res" where
  "exec_file_in_shm os path s =
     andthen (full_path (os_getcwd os (disk s)) path) (\<lambda>fpath.
     andthen (get_mbucket fpath s) (\<lambda>(mb, s).
       case mb of None \<Rightarrow> Inr s | Some m \<Rightarrow> write_to_disk os (os_junk os) m s))"

text \<open>The call of the system: it replaces the image or the process exits.\<close>

definition real_exec ::
  "('d \<Rightarrow> bool \<times> 'd) \<Rightarrow> ('d, 'z) pstate_scheme \<Rightarrow> ('d, 'z) pstate_scheme res" where
  "real_exec f s = (case f (disk s) of (ok, d) \<Rightarrow> if ok then Inr (s\<lparr>disk := d\<rparr>) else Inl Exit)"

definition ufs_execvp ::
  "('d, 'x) pos_scheme \<Rightarrow> string \<Rightarrow> string list \<Rightarrow> ('d, 'z) pstate_scheme \<Rightarrow> ('d, 'z) pstate_scheme res" where
  "ufs_execvp os file args s =
     andthen (exec_fd_backup s) (\<lambda>s. andthen (exec_file_in_shm os file s) (real_exec (os_execvp os file args)))"

definition ufs_execv ::
  "('d, 'x) pos_scheme \<Rightarrow> string \<Rightarrow> string list \<Rightarrow> ('d, 'z) pstate_scheme \<Rightarrow> ('d, 'z) pstate_scheme res" where
  "ufs_execv os path args s =
     andthen (exec_fd_backup s) (\<lambda>s. andthen (exec_file_in_shm os path s) (real_exec (os_execv os path args)))"

text \<open>\<open>execve\<close> puts the library in front of the new program: the environment gets one more entry,
  built in a buffer of \<open>PATH_MAX + 10\<close> characters from the compile-time constant \<open>LIBPATH\<close>.\<close>

definition lib_env_var :: "string \<Rightarrow> string" where
  "lib_env_var libpath = ''LD_PRELOAD='' @ libpath @ ''/libufs.so''"

definition ufs_execve ::
  "('d, 'x) pos_scheme \<Rightarrow> string \<Rightarrow> string \<Rightarrow> string list \<Rightarrow> string list \<Rightarrow>
   ('d, 'z) pstate_scheme \<Rightarrow> ('d, 'z) pstate_scheme res" where
  "ufs_execve os libpath filename args envp s =
     andthen (exec_fd_backup s) (\<lambda>s.
       if length (lib_env_var libpath) < PATH_MAX + 10 then
         andthen (exec_file_in_shm os filename s)
           (real_exec (os_execve os filename args (envp @ [lib_env_var libpath])))
       else Inl Fault)"

section \<open>Start and end of an image\<close>

definition open_map_global_memm :: "('d, 'z) pstate_scheme \<Rightarrow> ('d, 'z) pstate_scheme res" where
  "open_map_global_memm s = (if mainm_seg s then Inr (s\<lparr>calling_shm_open := False\<rparr>) else Inl Exit)"

definition open_map_pid_meta_mem :: "('d, 'z) pstate_scheme \<Rightarrow> ('d, 'z) pstate_scheme res" where
  "open_map_pid_meta_mem s = (if pid_seg s then Inr (s\<lparr>calling_shm_open := False\<rparr>) else Inl Exit)"

definition restore_fd_backup ::
  "('d, 'x) pos_scheme \<Rightarrow> ('d, 'z) pstate_scheme \<Rightarrow> ('d, 'z) pstate_scheme res" where
  "restore_fd_backup os s =
     (let fd_backup_fd = os_shm_fd os (disk s) in
      case fd_shm s (uid s, pid s) of
        None \<Rightarrow> Inl Exit
      | Some seg \<Rightarrow>
          if fd_backup_fd = - 1 then Inl Exit
          else andthen (ufs_close os fd_backup_fd (s\<lparr>calling_shm_open := False\<rparr>)) (\<lambda>(_, s).
            Inr (s\<lparr>fdTable := copy_table seg (fdTable s)\<rparr>)))"

definition FD_CLOEXEC :: int where "FD_CLOEXEC = 1"

function cloexec_loop ::
  "('d, 'x) os_scheme \<Rightarrow> nat \<Rightarrow> ('d, 'z) ustate_scheme \<Rightarrow> ('d, 'z) ustate_scheme res" where
  "cloexec_loop os i s =
     (if int i < MAX_NUM_FD then
        (if \<not> fd_empty (fdTable s i) \<and> fd_flags (fdTable s i) AND FD_CLOEXEC \<noteq> 0 then
           andthen (ufs_close os (int i) s) (\<lambda>(_, s). cloexec_loop os (Suc i) s)
         else cloexec_loop os (Suc i) s)
      else Inr s)"
  by pat_completeness auto
termination
  by (relation "measure (\<lambda>(os, i, s). nat (MAX_NUM_FD - int i))") auto

declare cloexec_loop.simps [simp del]

definition close_cloexec ::
  "('d, 'x) os_scheme \<Rightarrow> ('d, 'z) ustate_scheme \<Rightarrow> ('d, 'z) ustate_scheme res" where
  "close_cloexec os s = cloexec_loop os 0 s"

text \<open>The memory of a freshly loaded image: the initial values of the global and static variables.
  The shared segments, the clock and the identity of the process stay.\<close>

definition load_image :: "('d, 'z) pstate_scheme \<Rightarrow> ('d, 'z) pstate_scheme" where
  "load_image s = s\<lparr>data_steps := (\<lambda>_. False), cmem_mapped := False, last_core_num := 0, last_core_ix := 0,
     alloc_method_ind := 0, fdTable := (\<lambda>_. zero_fd), errno := 0,
     calling_shm_open := False, calling_shm_unlink := False, uid := 0, pid := 0,
     pid_meta_ind := 0, pid_meta_ind_set := False, backup_fds := None, ufs_init_called := False\<rparr>"

text \<open>\<open>ufs_init\<close> in two halves: up to the slot of the process, and the descriptors kept over \<open>exec\<close>.\<close>

definition ufs_init_mem ::
  "('d, 'x) pos_scheme \<Rightarrow> ('d, 'z) pstate_scheme \<Rightarrow> ('d, 'z) pstate_scheme res" where
  "ufs_init_mem os s =
     (let s = (init_fdTable (s\<lparr>ufs_init_called := True\<rparr>))
                \<lparr>glob_umask := 2, pid_meta_ind := 0, pid_meta_ind_set := False, uid := kuid s, pid := kpid s\<rparr>;
          seed = (os_usec os (disk s) * 314) smod pid s;
          s = s\<lparr>rand_src := os_srand os seed, rand_pos := 0, data_steps := (\<lambda>_. False)\<rparr>
      in andthen (open_map_global_memm s) (\<lambda>s.
         andthen (open_map_global_memd s) (\<lambda>s.
         andthen (open_map_pid_meta_mem s) (\<lambda>s.
         andthen (get_pid_meta_ind s) (\<lambda>(k, s).
           Inr (s\<lparr>pid_meta_ind := k, alloc_method_ind := alloc_method (sysg s)\<rparr>))))))"

definition ufs_init ::
  "('d, 'x) pos_scheme \<Rightarrow> ('d, 'z) pstate_scheme \<Rightarrow> ('d, 'z) pstate_scheme res" where
  "ufs_init os s =
     (if ufs_init_called s then Inr s
      else andthen (ufs_init_mem os s) (\<lambda>s.
        if fds_backed_up (pid_meta s (pid_meta_ind s)) then
          andthen (restore_fd_backup os s) (\<lambda>s.
          andthen (close_cloexec os s) (\<lambda>s.
            Inr (upd_pid (pid_meta_ind s) (\<lambda>p. p\<lparr>fds_backed_up := False\<rparr>) s)))
        else Inr s))"

definition ufs_fin :: "('d, 'z) pstate_scheme \<Rightarrow> ('d, 'z) pstate_scheme" where
  "ufs_fin s = s\<lparr>fd_shm := (fd_shm s)((uid s, pid s) := None), calling_shm_unlink := False\<rparr>"

end
