(* ===== verification/Ufs_Daemon.thy ===== *)
theory Ufs_Daemon
  imports Ufs_Process
begin

text \<open>
  The daemon, \<open>system/daemon.c\<close>, which creates the shared segments and loads a directory into them
  when it starts, and writes the files back and removes the segments when a signal ends it; with
  \<open>upload_dir\<close> of \<open>system/util/util.c\<close>. The state is that of the processes: the daemon's variables
  have the same names. What a new segment holds before it is initialised, and the entries of the
  array \<open>data_steps\<close> that \<open>malloc\<close> returns, are whatever the state has there. \<open>readdir\<close> is a
  parameter: the names in a directory of the disk with whether each is itself a directory, \<open>None\<close>
  when it cannot be opened.
\<close>

section \<open>Loading a directory\<close>

type_synonym 'd readdir = "string \<Rightarrow> 'd \<Rightarrow> (string \<times> bool) list option"

lemma andthen_cong [fundef_cong]:
  "m = m' \<Longrightarrow> (\<And>x. m' = Inr x \<Longrightarrow> f x = f' x) \<Longrightarrow> andthen m f = andthen m' f'"
  by (cases m') auto

text \<open>The loop over the entries of the directory \<open>name\<close>. \<open>snprintf\<close> cuts the path to \<open>PATH_MAX - 2\<close>
  characters but returns the length it would have had, and the terminator is stored at that place:
  outside the array when it is \<open>PATH_MAX\<close> or more. A path no longer than that of its directory comes
  only from an empty name and has the same entries again.\<close>

function upload_entries ::
  "('d, 'x) os_scheme \<Rightarrow> 'd readdir \<Rightarrow> string \<Rightarrow> (string \<times> bool) list \<Rightarrow> ('d, 'z) ustate_scheme \<Rightarrow> ('d, 'z) ustate_scheme res" where
  "upload_entries os rd name [] s = Inr s"
| "upload_entries os rd name ((d_name, is_dir) # es) s =
     (let full = name @ ''/'' @ d_name; path = take (PATH_MAX - 2) full in
      if PATH_MAX \<le> length full then Inl Fault
      else
        andthen
          (if is_dir then
             (if d_name = ''.'' \<or> d_name = ''..'' then Inr s
              else if length path \<le> length name then Inl Hang
              else case rd path (disk s) of None \<Rightarrow> Inr s | Some es' \<Rightarrow> upload_entries os rd path es' s)
           else
             andthen (full_path (os_getcwd os (disk s)) path) (\<lambda>fpath.
             andthen (upload_file os fpath s) (\<lambda>(_, s). Inr s)))
          (\<lambda>s. upload_entries os rd name es s))"
  by pat_completeness auto
termination
  by (relation "measures [\<lambda>(os, rd, name, es, s). PATH_MAX - length name, \<lambda>(os, rd, name, es, s). length es]") auto

definition upload_dir ::
  "('d, 'x) os_scheme \<Rightarrow> 'd readdir \<Rightarrow> string \<Rightarrow> ('d, 'z) ustate_scheme \<Rightarrow> ('d, 'z) ustate_scheme res" where
  "upload_dir os rd name s =
     (case rd name (disk s) of None \<Rightarrow> Inr s | Some es \<Rightarrow> upload_entries os rd name es s)"

section \<open>Creating the segments\<close>

definition init_pid_info :: "pid_info \<Rightarrow> pid_info" where
  "init_pid_info p = p\<lparr>pi_pid := 0, fds_backed_up := False, first_parent_signaled := False, vforked := False,
     pi_lock := False\<rparr>"

definition init_pid_meta :: "(nat \<Rightarrow> pid_info) \<Rightarrow> nat \<Rightarrow> pid_info" where
  "init_pid_meta m = (\<lambda>j. if j < MAX_EXEC_HANGING then init_pid_info (m j) else m j)"

definition init_mbucket :: "meta_bucket \<Rightarrow> meta_bucket" where
  "init_mbucket mb = mb\<lparr>mb_in_use := False, mb_next_ix := - 1, mb_lock := False, first_dbucket := - 1,
     last_dbucket := - 1, last_db_offset := 0, consisent := True\<rparr>"

definition create_cores :: "int \<Rightarrow> 'z dstate_scheme \<Rightarrow> 'z dstate_scheme res" where
  "create_cores num_cores s =
     (if cores_seg s \<or> num_cores \<le> 0 then Inl Exit
      else Inr (s\<lparr>cores_seg := True,
        cmem := (\<lambda>n. if int n < num_cores
          then (cmem s n)\<lparr>cs_in_use := False, core_n := - 1, rough_ind := 0, cs_lock := False\<rparr> else cmem s n)\<rparr>))"

text \<open>One segment of data buckets.\<close>

definition create_step :: "nat \<Rightarrow> 'z dstate_scheme \<Rightarrow> 'z dstate_scheme res" where
  "create_step k s =
     (if segs s k then Inl Exit
      else Inr (s\<lparr>segs := (segs s)(k := True), data_steps := (data_steps s)(k := True),
        dbs := (\<lambda>p. if p div DATA_BUCKETS_STEP = k then init_dbucket (dbs s p) else dbs s p)\<rparr>))"

fun create_steps :: "nat list \<Rightarrow> 'z dstate_scheme \<Rightarrow> 'z dstate_scheme res" where
  "create_steps [] s = Inr s"
| "create_steps (k # ks) s = andthen (create_step k s) (create_steps ks)"

definition init_mount_mem :: "int \<Rightarrow> ('d, 'z) pstate_scheme \<Rightarrow> ('d, 'z) pstate_scheme res" where
  "init_mount_mem num_cores s =
     (if mainm_seg s then Inl Exit
      else
        (let s = upd_sysg (\<lambda>g. g\<lparr>dbucket_steps := (if alloc_method_ind s > 0 then int TOTAL_STEPS_ALLOWED else 1),
                                ncores := num_cores, alloc_method := alloc_method_ind s\<rparr>)
                   (s\<lparr>mainm_seg := True, uid := kuid s\<rparr>)
         in andthen (if alloc_method_ind s > 2 then create_cores num_cores s else Inr s) (\<lambda>s.
              (let s = (upd_sysg (\<lambda>g. g\<lparr>dbucket_rough_index := 0, dbuckets_in_use := 0, sg_lock := False\<rparr>) s)
                   \<lparr>hash_table := (\<lambda>j. if j < HASH_TABLE_SIZE then \<lparr>first_ix = - 1, hi_lock = init_urwlock\<rparr> else hash_table s j),
                    mb_arr := (\<lambda>j. if j < META_BUCKETS then init_mbucket (mb_arr s j) else mb_arr s j)\<rparr>
               in andthen (create_steps (if alloc_method_ind s > 0 then [0 ..< TOTAL_STEPS_ALLOWED] else [0]) s) (\<lambda>s.
                    if pid_seg s then Inl Exit
                    else Inr (s\<lparr>pid_seg := True, pid_meta := init_pid_meta (pid_meta s)\<rparr>))))))"

definition init_mount ::
  "('d, 'x) os_scheme \<Rightarrow> 'd readdir \<Rightarrow> int \<Rightarrow> string option \<Rightarrow> ('d, 'z) pstate_scheme \<Rightarrow> ('d, 'z) pstate_scheme res" where
  "init_mount os rd num_cores root s =
     andthen (init_mount_mem num_cores s)
       (upload_dir os rd (case root of None \<Rightarrow> ''.'' | Some r \<Rightarrow> r))"

section \<open>Removing the segments\<close>

fun unlink_steps :: "nat list \<Rightarrow> 'z dstate_scheme \<Rightarrow> 'z dstate_scheme res" where
  "unlink_steps [] s = Inr s"
| "unlink_steps (j # js) s = (if segs s j then unlink_steps js (s\<lparr>segs := (segs s)(j := False)\<rparr>) else Inl Exit)"

text \<open>The state at \<open>exit(0)\<close>.\<close>

definition cleanup ::
  "('d, 'x) os_scheme \<Rightarrow> buffer \<Rightarrow> ('d, 'z) pstate_scheme \<Rightarrow> ('d, 'z) pstate_scheme res" where
  "cleanup os junk s =
     (let steps = dbucket_steps (sysg s) in
      andthen (map_steps [1 .. steps - 1] s) (\<lambda>s.
      andthen (flush_write os junk s) (\<lambda>s.
        if \<not> mainm_seg s then Inl Exit
        else andthen (unlink_steps [0 ..< nat steps] (s\<lparr>mainm_seg := False\<rparr>)) (\<lambda>s.
          if \<not> pid_seg s then Inl Exit
          else
            (let s = s\<lparr>pid_seg := False\<rparr> in
             if alloc_method_ind s = 3 \<or> alloc_method_ind s = 4
             then (if cores_seg s then Inr (s\<lparr>cores_seg := False\<rparr>) else Inl Exit)
             else Inr s)))))"

section \<open>The command line\<close>

text \<open>\<open>atoi\<close> of the C library: white space, a sign, digits.\<close>

definition is_digit :: "char \<Rightarrow> bool" where
  "is_digit c \<longleftrightarrow> 48 \<le> (of_char c :: nat) \<and> (of_char c :: nat) \<le> 57"

definition is_space :: "char \<Rightarrow> bool" where
  "is_space c \<longleftrightarrow> (of_char c :: nat) = 32 \<or> 9 \<le> (of_char c :: nat) \<and> (of_char c :: nat) \<le> 13"

fun atoi_digits :: "int \<Rightarrow> string \<Rightarrow> int" where
  "atoi_digits n [] = n"
| "atoi_digits n (c # cs) = (if is_digit c then atoi_digits (n * 10 + (of_char c - 48)) cs else n)"

definition atoi :: "string \<Rightarrow> int" where
  "atoi str = (case dropWhile is_space str of
      [] \<Rightarrow> 0
    | c # cs \<Rightarrow> if c = CHR ''-'' then - atoi_digits 0 cs
               else if c = CHR ''+'' then atoi_digits 0 cs else atoi_digits 0 (c # cs))"

text \<open>The allocation methods the daemon was compiled with, in the order of the \<open>#ifdef\<close>s: exactly
  one, and its number.\<close>

fun last_selected :: "int \<Rightarrow> bool list \<Rightarrow> nat \<times> int \<Rightarrow> nat \<times> int" where
  "last_selected i [] r = r"
| "last_selected i (b # bs) (count, ind) = last_selected (i + 1) bs (if b then (count + 1, i) else (count, ind))"

definition select_alloc :: "bool list \<Rightarrow> int res" where
  "select_alloc defined =
     (case last_selected 0 defined (0, 0) of (count_alloc_algos, ind) \<Rightarrow>
        if count_alloc_algos = 1 then Inr ind else Inl Exit)"

text \<open>The options: \<open>getopts\<close> are the successive results of \<open>getopt_long\<close> with its \<open>optarg\<close>, \<open>None\<close>
  or the end of the list for -1. The result is the number of options, or \<open>-EINVAL\<close>.\<close>

record cmd_opt =
  dir_name :: "string option"
  daemon_mode :: bool

definition EINVAL :: int where "EINVAL = 22"

fun parse_loop :: "(char option \<times> string) list \<Rightarrow> int \<Rightarrow> cmd_opt \<Rightarrow> int \<times> cmd_opt" where
  "parse_loop [] arg_cnt opt = (arg_cnt, opt)"
| "parse_loop ((None, optarg) # rs) arg_cnt opt = (arg_cnt, opt)"
| "parse_loop ((Some c, optarg) # rs) arg_cnt opt =
     (if c = CHR ''p'' then parse_loop rs (arg_cnt + 1) (opt\<lparr>dir_name := Some optarg\<rparr>)
      else if c = CHR ''d'' then parse_loop rs (arg_cnt + 1) (opt\<lparr>daemon_mode := True\<rparr>)
      else (- EINVAL, opt))"

definition parse_options :: "(char option \<times> string) list \<Rightarrow> int \<times> cmd_opt" where
  "parse_options getopts = parse_loop getopts 0 \<lparr>dir_name = None, daemon_mode = False\<rparr>"

text \<open>\<open>main\<close> up to the wait for a signal.\<close>

definition daemon_main ::
  "('d, 'x) os_scheme \<Rightarrow> 'd readdir \<Rightarrow> bool list \<Rightarrow> string list \<Rightarrow> (char option \<times> string) list \<Rightarrow>
   ('d, 'z) pstate_scheme \<Rightarrow> ('d, 'z) pstate_scheme res" where
  "daemon_main os rd defined argv getopts s =
     andthen (select_alloc defined) (\<lambda>ind.
       (case parse_options getopts of (arg_cnt, opt) \<Rightarrow>
          if arg_cnt < 0 then Inl Exit
          else
            andthen (if ind = 3 \<or> ind = 4
                     then (if length argv = 2 then Inr (atoi (argv ! 1)) else Inl Exit)
                     else Inr 0)
              (\<lambda>num_cores. init_mount os rd num_cores (dir_name opt) (s\<lparr>alloc_method_ind := ind\<rparr>))))"

text \<open>The signals whose handler \<open>handle_sigaction\<close> sets to \<open>cleanup\<close>: those of Linux that its \<open>switch\<close>
  does not skip (\<open>SIGKILL\<close>, \<open>SIGCONT\<close>, \<open>SIGTSTP\<close>) and for which \<open>sigaction\<close> succeeds; its result is not
  looked at. It fails for \<open>SIGKILL\<close> and \<open>SIGSTOP\<close>, and for the signals 32 and 33 that the C library
  reserves.\<close>

definition NSIG :: nat where "NSIG = 65"

definition sigaction_succeeds :: "nat \<Rightarrow> bool" where
  "sigaction_succeeds i \<longleftrightarrow> i \<notin> {9, 19, 32, 33}"

definition handle_sigaction :: "nat list" where
  "handle_sigaction = filter (\<lambda>i. i \<noteq> 9 \<and> i \<noteq> 18 \<and> i \<noteq> 20 \<and> sigaction_succeeds i) [1 ..< NSIG]"

text \<open>The life of a daemon that receives the signal \<open>sig\<close> when the state has become \<open>s\<close>; a signal without
  a handler leaves the memory as it is, whether it ends the daemon, stops it or does nothing.\<close>

definition on_signal ::
  "('d, 'x) os_scheme \<Rightarrow> buffer \<Rightarrow> nat \<Rightarrow> ('d, 'z) pstate_scheme \<Rightarrow> ('d, 'z) pstate_scheme res" where
  "on_signal os junk sig s = (if sig \<in> set handle_sigaction then cleanup os junk s else Inr s)"

end
