(* ===== verification/Ufs_Glibc.thy ===== *)
theory Ufs_Glibc
  imports Ufs_Daemon Ufs_Frame
begin

text \<open>
  \<open>system/include/glibccall.h\<close>: how the library, which defines \<open>open\<close>, \<open>read\<close>, \<open>__xstat\<close>, \<dots> itself,
  reaches the functions of the same names in the C library. Each wrapper \<open>real_f\<close> looks up the next
  definition of its symbol behind the object it is compiled into (\<open>dlsym\<close> with \<open>RTLD_NEXT\<close>), asserts
  that there is one, and passes its arguments on.

  A dynamic object is the list of the symbols it exports; the link map is the list of the objects in
  the order in which they are searched. What a symbol stands for is a function from argument values
  to the value it returns, followed by what it stores through its pointer arguments, over a state
  that holds \<open>errno\<close>. The static pointer of a wrapper is assigned by every call before it is read, so
  it is no part of the state.
\<close>

section \<open>Symbols\<close>

datatype cval =
    CInt int
  | CStr string            \<comment> \<open>pointer to a string that is read\<close>
  | CBytes "byte list"     \<comment> \<open>pointer to bytes that are read, or bytes that were stored\<close>
  | CStrs "string list"    \<comment> \<open>null-terminated array of strings\<close>
  | CStat stat             \<comment> \<open>a \<open>struct stat\<close> that was stored\<close>
  | CPtr nat               \<comment> \<open>address of an object or of a buffer to fill\<close>

type_synonym 's cfun = "cval list \<Rightarrow> 's \<Rightarrow> (cval list \<times> 's) res"

record 's dso =
  exports :: "(string \<times> 's cfun) list"

record 's linkage =
  link_map :: "'s dso list"
  self_ix :: nat   \<comment> \<open>the object that holds the wrappers\<close>

fun scope_lookup :: "'s dso list \<Rightarrow> string \<Rightarrow> 's cfun option" where
  "scope_lookup [] name = None"
| "scope_lookup (ob # obs) name =
     (case map_of (exports ob) name of Some f \<Rightarrow> Some f | None \<Rightarrow> scope_lookup obs name)"

text \<open>A call by name from anywhere in the process is bound to the first definition.\<close>

definition call_symbol :: "'s linkage \<Rightarrow> string \<Rightarrow> 's cfun" where
  "call_symbol l name args s =
     (case scope_lookup (link_map l) name of None \<Rightarrow> Inl Fault | Some f \<Rightarrow> f args s)"

definition dlsym_next :: "'s linkage \<Rightarrow> string \<Rightarrow> 's cfun option" where
  "dlsym_next l name = scope_lookup (drop (Suc (self_ix l)) (link_map l)) name"

text \<open>The macro \<open>dlfun\<close> with the assertion that follows each of its uses.\<close>

definition dlfun :: "'s linkage \<Rightarrow> string \<Rightarrow> 's cfun res" where
  "dlfun l name = (case dlsym_next l name of None \<Rightarrow> Inl Abort | Some f \<Rightarrow> Inr f)"

definition real_call :: "'s linkage \<Rightarrow> string \<Rightarrow> 's cfun" where
  "real_call l name args s = andthen (dlfun l name) (\<lambda>f. f args s)"

text \<open>\<open>va_arg\<close> for the first variable argument: when the caller passed none, what the register holds.\<close>

definition first_va :: "cval list \<Rightarrow> cval \<Rightarrow> cval" where
  "first_va ap junk = (case ap of [] \<Rightarrow> junk | a # _ \<Rightarrow> a)"

section \<open>Formatted output\<close>

text \<open>The conversions of \<open>printf\<close> that the sources use with these wrappers: \<open>d\<close>, \<open>i\<close>, \<open>u\<close>, \<open>o\<close> and \<open>s\<close>
  with a width and the length modifiers \<open>l\<close> and \<open>z\<close>, and \<open>%%\<close>. \<open>None\<close>: the format asks for an argument
  that is missing or of another type, which is undefined.\<close>

function digits :: "nat \<Rightarrow> nat \<Rightarrow> string" where
  "digits b n =
     (if b < 2 \<or> n < b then [char_of (48 + n)] else digits b (n div b) @ [char_of (48 + n mod b)])"
  by pat_completeness auto
termination
  by (relation "measure snd") auto

declare digits.simps [simp del]

fun render :: "char \<Rightarrow> cval \<Rightarrow> string option" where
  "render c (CInt n) =
     (if c = CHR ''d'' \<or> c = CHR ''i'' then Some (if n < 0 then CHR ''-'' # digits 10 (nat (- n)) else digits 10 (nat n))
      else if c = CHR ''u'' then Some (digits 10 (nat n))
      else if c = CHR ''o'' then Some (digits 8 (nat n))
      else None)"
| "render c (CStr str) = (if c = CHR ''s'' then Some str else None)"
| "render c _ = None"

definition pad :: "nat \<Rightarrow> string \<Rightarrow> string" where
  "pad w str = replicate (w - length str) CHR '' '' @ str"

definition is_length_mod :: "char \<Rightarrow> bool" where
  "is_length_mod c \<longleftrightarrow> c = CHR ''l'' \<or> c = CHR ''z''"

text \<open>A directive behind its percent sign: the width, the conversion and the rest of the format.\<close>

definition directive :: "string \<Rightarrow> (nat \<times> char \<times> string) option" where
  "directive cs =
     (case dropWhile is_length_mod (dropWhile is_digit cs) of [] \<Rightarrow> None
      | k # rest \<Rightarrow> Some (nat (atoi_digits 0 cs), k, rest))"

lemma directive_shorter [simp]:
  assumes "directive cs = Some (w, k, rest)"
  shows "length rest < length cs"
proof -
  have "length (dropWhile is_length_mod (dropWhile is_digit cs)) \<le> length cs"
    using length_dropWhile_le order_trans by blast
  with assms show ?thesis by (auto simp: directive_def split: list.splits)
qed

function vformat :: "string \<Rightarrow> cval list \<Rightarrow> string option" where
  "vformat [] ap = Some []"
| "vformat (c # cs) ap =
     (if c \<noteq> CHR ''%'' then map_option ((#) c) (vformat cs ap)
      else case directive cs of
          None \<Rightarrow> None
        | Some (w, k, rest) \<Rightarrow>
            if k = CHR ''%'' then map_option ((#) CHR ''%'') (vformat rest ap)
            else case ap of
                [] \<Rightarrow> None
              | a # as \<Rightarrow>
                  (case render k a of None \<Rightarrow> None | Some t \<Rightarrow> map_option ((@) (pad w t)) (vformat rest as)))"
  by pat_completeness auto
termination
  by (relation "measure (\<lambda>(cs, ap). length cs)") (auto dest: directive_shorter)

declare vformat.simps(2) [simp del]

text \<open>The wrappers of \<open>fprintf\<close> and \<open>printf\<close> expand the format with \<open>vasprintf\<close> and then pass the result
  on as the format of the real function, without arguments.\<close>

definition real_fprintf :: "'s linkage \<Rightarrow> nat \<Rightarrow> string \<Rightarrow> cval list \<Rightarrow> 's \<Rightarrow> (cval list \<times> 's) res" where
  "real_fprintf l stream format ap s =
     (case vformat format ap of None \<Rightarrow> Inl Fault
      | Some strp \<Rightarrow> real_call l ''fprintf'' [CPtr stream, CStr strp] s)"

definition real_printf :: "'s linkage \<Rightarrow> string \<Rightarrow> cval list \<Rightarrow> 's \<Rightarrow> (cval list \<times> 's) res" where
  "real_printf l format ap s =
     (case vformat format ap of None \<Rightarrow> Inl Fault | Some strp \<Rightarrow> real_call l ''printf'' [CStr strp] s)"

section \<open>The wrappers\<close>

definition real_stat :: "'s linkage \<Rightarrow> string \<Rightarrow> nat \<Rightarrow> 's \<Rightarrow> (cval list \<times> 's) res" where
  "real_stat l path buf s = real_call l ''__xstat'' [CInt 1, CStr path, CPtr buf] s"

definition real_lstat :: "'s linkage \<Rightarrow> string \<Rightarrow> nat \<Rightarrow> 's \<Rightarrow> (cval list \<times> 's) res" where
  "real_lstat l path buf s = real_call l ''__lxstat'' [CInt 1, CStr path, CPtr buf] s"

definition real_fstat :: "'s linkage \<Rightarrow> int \<Rightarrow> nat \<Rightarrow> 's \<Rightarrow> (cval list \<times> 's) res" where
  "real_fstat l fd buf s = real_call l ''__fxstat'' [CInt 1, CInt fd, CPtr buf] s"

text \<open>The mode is read from the variable arguments whether or not the caller passed one; \<open>junk\<close> is what is
  read when it did not.\<close>

definition real_open :: "'s linkage \<Rightarrow> string \<Rightarrow> u32 \<Rightarrow> cval list \<Rightarrow> cval \<Rightarrow> 's \<Rightarrow> (cval list \<times> 's) res" where
  "real_open l path flags ap junk s = real_call l ''open'' [CStr path, CInt (uint flags), first_va ap junk] s"

definition real_fopen :: "'s linkage \<Rightarrow> string \<Rightarrow> string \<Rightarrow> 's \<Rightarrow> (cval list \<times> 's) res" where
  "real_fopen l path mode s = real_call l ''fopen'' [CStr path, CStr mode] s"

definition real_creat :: "'s linkage \<Rightarrow> string \<Rightarrow> nat \<Rightarrow> 's \<Rightarrow> (cval list \<times> 's) res" where
  "real_creat l path mode s = real_call l ''creat'' [CStr path, CInt (int mode)] s"

definition real_read :: "'s linkage \<Rightarrow> int \<Rightarrow> nat \<Rightarrow> nat \<Rightarrow> 's \<Rightarrow> (cval list \<times> 's) res" where
  "real_read l fd buf count s = real_call l ''read'' [CInt fd, CPtr buf, CInt (int count)] s"

definition real_write :: "'s linkage \<Rightarrow> int \<Rightarrow> byte list \<Rightarrow> nat \<Rightarrow> 's \<Rightarrow> (cval list \<times> 's) res" where
  "real_write l fd buf count s = real_call l ''write'' [CInt fd, CBytes buf, CInt (int count)] s"

definition real_close :: "'s linkage \<Rightarrow> int \<Rightarrow> 's \<Rightarrow> (cval list \<times> 's) res" where
  "real_close l fd s = real_call l ''close'' [CInt fd] s"

definition real_lseek :: "'s linkage \<Rightarrow> int \<Rightarrow> int \<Rightarrow> int \<Rightarrow> 's \<Rightarrow> (cval list \<times> 's) res" where
  "real_lseek l fd offset whence s = real_call l ''lseek'' [CInt fd, CInt offset, CInt whence] s"

definition real_mmap :: "'s linkage \<Rightarrow> nat \<Rightarrow> nat \<Rightarrow> int \<Rightarrow> int \<Rightarrow> int \<Rightarrow> int \<Rightarrow> 's \<Rightarrow> (cval list \<times> 's) res" where
  "real_mmap l addr len prot flags fd offset s = real_call l ''mmap'' [CPtr addr, CInt (int len), CInt prot, CInt flags, CInt fd, CInt offset] s"

definition real_fileno :: "'s linkage \<Rightarrow> nat \<Rightarrow> 's \<Rightarrow> (cval list \<times> 's) res" where
  "real_fileno l stream s = real_call l ''fileno'' [CPtr stream] s"

definition real_fflush :: "'s linkage \<Rightarrow> nat \<Rightarrow> 's \<Rightarrow> (cval list \<times> 's) res" where
  "real_fflush l stream s = real_call l ''fflush'' [CPtr stream] s"

definition real_access :: "'s linkage \<Rightarrow> string \<Rightarrow> int \<Rightarrow> 's \<Rightarrow> (cval list \<times> 's) res" where
  "real_access l pathname mode s = real_call l ''access'' [CStr pathname, CInt mode] s"

definition real_fclose :: "'s linkage \<Rightarrow> nat \<Rightarrow> 's \<Rightarrow> (cval list \<times> 's) res" where
  "real_fclose l stream s = real_call l ''fclose'' [CPtr stream] s"

definition real_unlink :: "'s linkage \<Rightarrow> string \<Rightarrow> 's \<Rightarrow> (cval list \<times> 's) res" where
  "real_unlink l pathname s = real_call l ''unlink'' [CStr pathname] s"

definition real_isatty :: "'s linkage \<Rightarrow> int \<Rightarrow> 's \<Rightarrow> (cval list \<times> 's) res" where
  "real_isatty l fd s = real_call l ''isatty'' [CInt fd] s"

definition real_fcntl :: "'s linkage \<Rightarrow> int \<Rightarrow> int \<Rightarrow> cval list \<Rightarrow> cval \<Rightarrow> 's \<Rightarrow> (cval list \<times> 's) res" where
  "real_fcntl l fd cmd ap junk s = real_call l ''fcntl'' [CInt fd, CInt cmd, first_va ap junk] s"

definition real_realpath :: "'s linkage \<Rightarrow> string \<Rightarrow> nat \<Rightarrow> 's \<Rightarrow> (cval list \<times> 's) res" where
  "real_realpath l path resolved_path s = real_call l ''realpath'' [CStr path, CPtr resolved_path] s"

definition real_mkstemps :: "'s linkage \<Rightarrow> string \<Rightarrow> int \<Rightarrow> 's \<Rightarrow> (cval list \<times> 's) res" where
  "real_mkstemps l template suffixlen s = real_call l ''mkstemps'' [CStr template, CInt suffixlen] s"

definition real_munmap :: "'s linkage \<Rightarrow> nat \<Rightarrow> nat \<Rightarrow> 's \<Rightarrow> (cval list \<times> 's) res" where
  "real_munmap l addr len s = real_call l ''munmap'' [CPtr addr, CInt (int len)] s"

definition real_fork :: "'s linkage \<Rightarrow> 's \<Rightarrow> (cval list \<times> 's) res" where
  "real_fork l s = real_call l ''fork'' [] s"

definition real_vfork :: "'s linkage \<Rightarrow> 's \<Rightarrow> (cval list \<times> 's) res" where
  "real_vfork l s = real_call l ''vfork'' [] s"

definition real_execvp :: "'s linkage \<Rightarrow> string \<Rightarrow> string list \<Rightarrow> 's \<Rightarrow> (cval list \<times> 's) res" where
  "real_execvp l fname args s = real_call l ''execvp'' [CStr fname, CStrs args] s"

definition real_execv :: "'s linkage \<Rightarrow> string \<Rightarrow> string list \<Rightarrow> 's \<Rightarrow> (cval list \<times> 's) res" where
  "real_execv l path args s = real_call l ''execv'' [CStr path, CStrs args] s"

definition real_execve :: "'s linkage \<Rightarrow> string \<Rightarrow> string list \<Rightarrow> string list \<Rightarrow> 's \<Rightarrow> (cval list \<times> 's) res" where
  "real_execve l filename args envp s = real_call l ''execve'' [CStr filename, CStrs args, CStrs envp] s"

definition real_chmod :: "'s linkage \<Rightarrow> string \<Rightarrow> nat \<Rightarrow> 's \<Rightarrow> (cval list \<times> 's) res" where
  "real_chmod l pathname mode s = real_call l ''chmod'' [CStr pathname, CInt (int mode)] s"

definition real_fchmod :: "'s linkage \<Rightarrow> int \<Rightarrow> nat \<Rightarrow> 's \<Rightarrow> (cval list \<times> 's) res" where
  "real_fchmod l fd mode s = real_call l ''fchmod'' [CInt fd, CInt (int mode)] s"

definition real___chmod :: "'s linkage \<Rightarrow> string \<Rightarrow> nat \<Rightarrow> 's \<Rightarrow> (cval list \<times> 's) res" where
  "real___chmod l pathname mode s = real_call l ''__chmod'' [CStr pathname, CInt (int mode)] s"

definition real_dup :: "'s linkage \<Rightarrow> int \<Rightarrow> 's \<Rightarrow> (cval list \<times> 's) res" where
  "real_dup l oldfd s = real_call l ''dup'' [CInt oldfd] s"

definition real_dup2 :: "'s linkage \<Rightarrow> int \<Rightarrow> int \<Rightarrow> 's \<Rightarrow> (cval list \<times> 's) res" where
  "real_dup2 l oldfd newfd s = real_call l ''dup2'' [CInt oldfd, CInt newfd] s"

definition real_dup3 :: "'s linkage \<Rightarrow> int \<Rightarrow> int \<Rightarrow> int \<Rightarrow> 's \<Rightarrow> (cval list \<times> 's) res" where
  "real_dup3 l oldfd newfd flags s = real_call l ''dup3'' [CInt oldfd, CInt newfd, CInt flags] s"

definition real_pipe :: "'s linkage \<Rightarrow> nat \<Rightarrow> 's \<Rightarrow> (cval list \<times> 's) res" where
  "real_pipe l pipefd s = real_call l ''pipe'' [CPtr pipefd] s"

definition real___overflow :: "'s linkage \<Rightarrow> nat \<Rightarrow> int \<Rightarrow> 's \<Rightarrow> (cval list \<times> 's) res" where
  "real___overflow l stream c s = real_call l ''__overflow'' [CPtr stream, CInt c] s"

definition real_ftell :: "'s linkage \<Rightarrow> nat \<Rightarrow> 's \<Rightarrow> (cval list \<times> 's) res" where
  "real_ftell l stream s = real_call l ''ftell'' [CPtr stream] s"

definition real_fread :: "'s linkage \<Rightarrow> nat \<Rightarrow> nat \<Rightarrow> nat \<Rightarrow> nat \<Rightarrow> 's \<Rightarrow> (cval list \<times> 's) res" where
  "real_fread l ptr sz nmemb stream s = real_call l ''fread'' [CPtr ptr, CInt (int sz), CInt (int nmemb), CPtr stream] s"

definition real_fwrite :: "'s linkage \<Rightarrow> byte list \<Rightarrow> nat \<Rightarrow> nat \<Rightarrow> nat \<Rightarrow> 's \<Rightarrow> (cval list \<times> 's) res" where
  "real_fwrite l ptr sz nmemb stream s = real_call l ''fwrite'' [CBytes ptr, CInt (int sz), CInt (int nmemb), CPtr stream] s"

definition real_ferror :: "'s linkage \<Rightarrow> nat \<Rightarrow> 's \<Rightarrow> (cval list \<times> 's) res" where
  "real_ferror l stream s = real_call l ''ferror'' [CPtr stream] s"

text \<open>The pointer is declared to return \<open>size_t\<close>; the wrapper converts that to \<open>int\<close>.\<close>

fun as_int :: "cval list \<Rightarrow> cval list" where
  "as_int (CInt r # out) = CInt (to_int32 r) # out"
| "as_int vs = vs"

definition real___uflow :: "'s linkage \<Rightarrow> nat \<Rightarrow> 's \<Rightarrow> (cval list \<times> 's) res" where
  "real___uflow l stream s = andthen (real_call l ''__uflow'' [CPtr stream] s) (\<lambda>(r, s). Inr (as_int r, s))"

definition real_rename :: "'s linkage \<Rightarrow> string \<Rightarrow> string \<Rightarrow> 's \<Rightarrow> (cval list \<times> 's) res" where
  "real_rename l oldpath newpath s = real_call l ''rename'' [CStr oldpath, CStr newpath] s"

definition real_feof :: "'s linkage \<Rightarrow> nat \<Rightarrow> 's \<Rightarrow> (cval list \<times> 's) res" where
  "real_feof l stream s = real_call l ''feof'' [CPtr stream] s"

definition real_clearerr :: "'s linkage \<Rightarrow> nat \<Rightarrow> 's \<Rightarrow> (cval list \<times> 's) res" where
  "real_clearerr l stream s = real_call l ''clearerr'' [CPtr stream] s"

definition real_pread :: "'s linkage \<Rightarrow> int \<Rightarrow> nat \<Rightarrow> nat \<Rightarrow> int \<Rightarrow> 's \<Rightarrow> (cval list \<times> 's) res" where
  "real_pread l fd buf count offset s = real_call l ''pread'' [CInt fd, CPtr buf, CInt (int count), CInt offset] s"

definition real_pwrite :: "'s linkage \<Rightarrow> int \<Rightarrow> byte list \<Rightarrow> nat \<Rightarrow> int \<Rightarrow> 's \<Rightarrow> (cval list \<times> 's) res" where
  "real_pwrite l fd buf count offset s = real_call l ''pwrite'' [CInt fd, CBytes buf, CInt (int count), CInt offset] s"

definition real_ftruncate :: "'s linkage \<Rightarrow> int \<Rightarrow> int \<Rightarrow> 's \<Rightarrow> (cval list \<times> 's) res" where
  "real_ftruncate l fd len s = real_call l ''ftruncate'' [CInt fd, CInt len] s"

definition real_truncate :: "'s linkage \<Rightarrow> string \<Rightarrow> int \<Rightarrow> 's \<Rightarrow> (cval list \<times> 's) res" where
  "real_truncate l path len s = real_call l ''truncate'' [CStr path, CInt len] s"

section \<open>Resolution of the symbols\<close>

lemma scope_lookup_append:
  "scope_lookup (xs @ ys) name = (case scope_lookup xs name of None \<Rightarrow> scope_lookup ys name | Some f \<Rightarrow> Some f)"
  by (induction xs) (auto split: option.splits)

lemma scope_lookup_none:
  "scope_lookup obs name = None \<longleftrightarrow> (\<forall>ob \<in> set obs. map_of (exports ob) name = None)"
  by (induction obs) (auto split: option.splits)

lemma call_symbol_first:
  assumes "link_map l = pre @ ob # post" "\<forall>x \<in> set pre. map_of (exports x) name = None"
    "map_of (exports ob) name = Some f"
  shows "call_symbol l name args s = f args s"
  using assms by (simp add: call_symbol_def scope_lookup_append scope_lookup_none [THEN iffD2])

lemma real_call_next:
  assumes "link_map l = pre @ lib # mid @ libc # post" "self_ix l = length pre"
    "\<forall>x \<in> set mid. map_of (exports x) name = None" "map_of (exports libc) name = Some f"
  shows "real_call l name args s = f args s"
  using assms
  by (simp add: real_call_def dlfun_def dlsym_next_def scope_lookup_append scope_lookup_none [THEN iffD2])

text \<open>Without a definition behind the library the assertion of the wrapper fails, whatever objects in
  front of it or the library itself define.\<close>

lemma real_call_aborts:
  assumes "\<forall>x \<in> set (drop (Suc (self_ix l)) (link_map l)). map_of (exports x) name = None"
  shows "real_call l name args s = Inl Abort"
  using assms by (simp add: real_call_def dlfun_def dlsym_next_def scope_lookup_none [THEN iffD2])

section \<open>Formats that are expanded twice\<close>

lemma vformat_plain: "CHR ''%'' \<notin> set t \<Longrightarrow> vformat t ap = Some t"
  by (induction t) (auto simp: vformat.simps(2))

text \<open>A text that is read as a format without arguments only loses characters, and it does lose one
  for each percent sign.\<close>

lemma vformat_no_args_shrinks:
  "vformat t ap = Some u \<Longrightarrow> ap = [] \<Longrightarrow> length u \<le> length t \<and> (CHR ''%'' \<in> set t \<longrightarrow> length u < length t)"
proof (induction t ap arbitrary: u rule: vformat.induct)
  case (1 ap)
  then show ?case by simp
next
  case (2 c cs ap)
  show ?case
  proof (cases "c = CHR ''%''")
    case False
    with 2 show ?thesis by (fastforce simp: vformat.simps(2))
  next
    case True
    with "2.prems" obtain w k rest v where d: "directive cs = Some (w, k, rest)" "k = CHR ''%''"
      and v: "vformat rest ap = Some v" "u = CHR ''%'' # v"
      by (auto simp: vformat.simps(2) split: option.splits if_splits)
    from "2.IH"(2) [OF _ d(1) refl refl d(2) v(1) "2.prems"(2)] True have "length v \<le> length rest" by simp
    with directive_shorter [OF d(1)] v(2) show ?thesis by simp
  qed
qed

lemma vformat_fixed_iff: "vformat t [] = Some t \<longleftrightarrow> CHR ''%'' \<notin> set t"
  using vformat_no_args_shrinks vformat_plain by blast

text \<open>\<open>fprintf\<close> of the C library over the function \<open>put\<close> that sends a text to a stream.\<close>

definition libc_fprintf :: "(nat \<Rightarrow> string \<Rightarrow> 's \<Rightarrow> (cval list \<times> 's) res) \<Rightarrow> 's cfun" where
  "libc_fprintf put args s = (case args of
      CPtr stream # CStr format # ap \<Rightarrow>
        (case vformat format ap of None \<Rightarrow> Inl Fault | Some t \<Rightarrow> put stream t s)
    | _ \<Rightarrow> Inl Fault)"

text \<open>
  (C34) \<open>real_fprintf\<close>, through which the library prints every message, expands its format twice. It
  prints what \<open>fprintf\<close> prints when the expanded text has no percent sign. When it has one, as when the
  name of a file that is printed has one, either the text that comes out is shorter than the one
  \<open>fprintf\<close> prints, or an argument is read that was never passed and the behaviour is undefined.
\<close>

theorem real_fprintf_formats_twice:
  assumes "dlsym_next l ''fprintf'' = Some (libc_fprintf put)" "vformat format ap = Some t"
  shows "libc_fprintf put (CPtr stream # CStr format # ap) s = put stream t s \<and>
    (if CHR ''%'' \<in> set t
     then real_fprintf l stream format ap s = Inl Fault \<and> vformat t [] = None \<or>
       (\<exists>u. real_fprintf l stream format ap s = put stream u s \<and> length u < length t)
     else real_fprintf l stream format ap s = put stream t s)"
proof -
  have r: "real_fprintf l stream format ap s =
      (case vformat t [] of None \<Rightarrow> Inl Fault | Some u \<Rightarrow> put stream u s)"
    using assms by (simp add: real_fprintf_def real_call_def dlfun_def libc_fprintf_def)
  have "libc_fprintf put (CPtr stream # CStr format # ap) s = put stream t s"
    using assms(2) by (simp add: libc_fprintf_def)
  then show ?thesis
  proof (cases "vformat t []")
    case None
    with r vformat_plain [of t "[]"] \<open>libc_fprintf put (CPtr stream # CStr format # ap) s = put stream t s\<close>
    show ?thesis by auto
  next
    case (Some u)
    with vformat_no_args_shrinks [OF Some refl] vformat_plain [of t "[]"] r
      \<open>libc_fprintf put (CPtr stream # CStr format # ap) s = put stream t s\<close>
    show ?thesis by auto
  qed
qed

text \<open>An application and the library in front of a C library whose \<open>fprintf\<close> appends to a list of texts.\<close>

definition put_text :: "nat \<Rightarrow> string \<Rightarrow> string list \<Rightarrow> (cval list \<times> string list) res" where
  "put_text stream t s = Inr ([CInt (int (length t))], s @ [t])"

definition text_linkage :: "string list linkage" where
  "text_linkage = \<lparr>link_map = [\<lparr>exports = []\<rparr>, \<lparr>exports = []\<rparr>, \<lparr>exports = [(''fprintf'', libc_fprintf put_text)]\<rparr>],
     self_ix = 1\<rparr>"

theorem real_fprintf_formats_twice_witness:
  "real_fprintf text_linkage 2 ''file %s'' [CStr ''50%d''] [] = Inl Fault \<and>
   libc_fprintf put_text [CPtr 2, CStr ''file %s'', CStr ''50%d''] [] = Inr ([CInt 9], [''file 50%d''])"
proof -
  have d: "dlsym_next text_linkage ''fprintf'' = Some (libc_fprintf put_text)"
    by (simp add: text_linkage_def dlsym_next_def)
  have v: "vformat ''file %s'' [CStr ''50%d''] = Some ''file 50%d''" "vformat ''file 50%d'' [] = None"
    by (simp_all add: vformat.simps(2) directive_def is_digit_def is_length_mod_def pad_def)
  have "libc_fprintf put_text [CPtr 2, CStr ''file %s'', CStr ''50%d''] [] = put_text 2 ''file 50%d'' []"
    using real_fprintf_formats_twice [OF d v(1), of 2 "[]"] by (rule conjunct1)
  moreover have "real_fprintf text_linkage 2 ''file %s'' [CStr ''50%d''] [] = Inl Fault"
    by (simp add: real_fprintf_def v real_call_def dlfun_def d libc_fprintf_def)
  ultimately show ?thesis by (simp add: put_text_def)
qed

end
