(* ===== verification/Ufs_Spec.thy ===== *)
theory Ufs_Spec
  imports Ufs_Attr
begin

text \<open>
  An abstract file system, the contract of the library's calls on files: a map from absolute paths
  to byte strings with a position, and a map from descriptors to paths. Nothing of buckets, chains,
  rows, caches or locks is left. A call either has one answer and one new state, or is outside the
  contract (\<open>None\<close>): a call that the library passes on to the operating system, or one of those
  whose defects other theorems describe.
\<close>

unbundle bit_operations_syntax

section \<open>State and answers\<close>

text \<open>The position belongs to the file, not to the descriptor: the library keeps it in the metadata
  bucket, and every \<open>open\<close> of the file sets it back.\<close>

record afile =
  a_bytes :: "byte list"
  a_pos :: nat

record afs =
  a_files :: "string \<Rightarrow> afile option"
  a_fds :: "int \<Rightarrow> string option"

text \<open>What a caller sees of a call: the value returned, the bytes put into its buffer, the size put
  into its \<open>stat\<close> buffer, and \<open>errno\<close> when the value is negative.\<close>

datatype answer = Answer int "byte list" nat int

definition reply :: "int \<Rightarrow> byte list \<Rightarrow> nat \<Rightarrow> ('d, 'z) ustate_scheme \<Rightarrow> answer \<times> ('d, 'z) ustate_scheme" where
  "reply r out n s = (Answer r out n (if r < 0 then errno s else 0), s)"

definition reply_stat :: "int \<times> stat option \<Rightarrow> ('d, 'z) ustate_scheme \<Rightarrow> answer \<times> ('d, 'z) ustate_scheme" where
  "reply_stat x s = (case x of
     (r, Some st) \<Rightarrow> reply r [] (if r = 0 then st_size st else 0) s
   | (r, None) \<Rightarrow> reply r [] 0 s)"

fun call_answer :: "('d, 'x) os_scheme \<Rightarrow> call \<Rightarrow> ('d, 'z) ustate_scheme \<Rightarrow> (answer \<times> ('d, 'z) ustate_scheme) res" where
  "call_answer os (Open p flags mode) s = andthen (ufs_open os p flags mode s) (\<lambda>(r, s). Inr (reply r [] 0 s))"
| "call_answer os (Close fd) s = andthen (ufs_close os fd s) (\<lambda>(r, s). Inr (reply r [] 0 s))"
| "call_answer os (Read fd n) s = andthen (ufs_read os fd n s) (\<lambda>((r, out), s). Inr (reply r out 0 s))"
| "call_answer os (Write fd buf) s = andthen (ufs_write os fd buf s) (\<lambda>(r, s). Inr (reply r [] 0 s))"
| "call_answer os (Pread fd n off) s = andthen (ufs_pread os fd n off s) (\<lambda>((r, out), s). Inr (reply r out 0 s))"
| "call_answer os (Pwrite fd buf off) s = andthen (ufs_pwrite os fd buf off s) (\<lambda>(r, s). Inr (reply r [] 0 s))"
| "call_answer os (Unlink p) s = andthen (ufs_unlink os p s) (\<lambda>(r, s). Inr (reply r [] 0 s))"
| "call_answer os (Rename p q) s = andthen (ufs_rename os p q s) (\<lambda>(r, s). Inr (reply r [] 0 s))"
| "call_answer os (Xstat p) s = andthen (ufs_xstat os p s) (\<lambda>(x, s). Inr (reply_stat x s))"
| "call_answer os (Lxstat p) s = andthen (ufs_lxstat os p s) (\<lambda>(x, s). Inr (reply_stat x s))"
| "call_answer os (Fxstat fd) s = andthen (ufs_fxstat os fd s) (\<lambda>(x, s). Inr (reply_stat x s))"
| "call_answer os (Fsync fd) s = Inr (reply (ufs_fsync fd) [] 0 s)"

section \<open>The calls\<close>

text \<open>The name under which the library keeps a path, when it keeps it.\<close>

definition a_key :: "string option \<Rightarrow> string \<Rightarrow> string option" where
  "a_key cwd path =
     (if exclusive_path path then None
      else case full_path cwd path of Inl e \<Rightarrow> None
           | Inr p \<Rightarrow> if ok_path p \<and> fits_path p then Some p else None)"

definition user_fds :: "int list" where
  "user_fds = [FIRST_USER_FD..MAX_NUM_FD - 1]"

definition a_fail :: "int \<Rightarrow> afs \<Rightarrow> (answer \<times> afs) option" where
  "a_fail e a = Some (Answer (- 1) [] 0 e, a)"

definition a_done :: "int \<Rightarrow> byte list \<Rightarrow> nat \<Rightarrow> afs \<Rightarrow> (answer \<times> afs) option" where
  "a_done r out n a = Some (Answer r out n 0, a)"

definition a_on_path ::
  "string option \<Rightarrow> string \<Rightarrow> afs \<Rightarrow> (string \<Rightarrow> (answer \<times> afs) option) \<Rightarrow> (answer \<times> afs) option" where
  "a_on_path cwd path a k =
     (if exclusive_path path then None
      else if length path > PATH_MAX then a_fail ENAMETOOLONG a
      else case a_key cwd path of None \<Rightarrow> None | Some p \<Rightarrow> k p)"

definition a_on_fd :: "int \<Rightarrow> afs \<Rightarrow> (string \<Rightarrow> afile \<Rightarrow> (answer \<times> afs) option) \<Rightarrow> (answer \<times> afs) option" where
  "a_on_fd fd a k =
     (if fd < FIRST_USER_FD \<or> MAX_NUM_FD \<le> fd then None
      else case a_fds a fd of None \<Rightarrow> a_fail EBADF a
           | Some p \<Rightarrow> (case a_files a p of None \<Rightarrow> None | Some f \<Rightarrow> k p f))"

definition a_put :: "string \<Rightarrow> afile \<Rightarrow> afs \<Rightarrow> afs" where
  "a_put p f a = a\<lparr>a_files := (a_files a)(p \<mapsto> f)\<rparr>"

definition a_open :: "string \<Rightarrow> afile \<Rightarrow> afs \<Rightarrow> (answer \<times> afs) option" where
  "a_open p f a =
     (case find (\<lambda>fd. a_fds a fd = None) user_fds of None \<Rightarrow> None
      | Some fd \<Rightarrow> a_done fd [] 0 ((a_put p (f\<lparr>a_pos := 0\<rparr>) a)\<lparr>a_fds := (a_fds a)(fd \<mapsto> p)\<rparr>))"

definition a_stat :: "string \<Rightarrow> afs \<Rightarrow> (answer \<times> afs) option" where
  "a_stat p a = (case a_files a p of None \<Rightarrow> a_fail ENOENT a | Some f \<Rightarrow> a_done 0 [] (length (a_bytes f)) a)"

text \<open>\<open>O_TRUNC\<close> counts only together with \<open>O_CREAT\<close>, as in the code; truncating is in the contract for
  files of less than one bucket, since the chain of a larger one keeps its empty buckets. A file may be removed, or replaced by another in \<open>rename\<close>, when no descriptor
  is open on it; a file that is renamed keeps its descriptors. Renaming inside one row of the hash
  table and renaming a file that does not exist are outside the contract.\<close>

fun a_call :: "string option \<Rightarrow> call \<Rightarrow> afs \<Rightarrow> (answer \<times> afs) option" where
  "a_call cwd (Open path flags mode) a =
     (if has_flag flags O_APPEND then None
      else a_on_path cwd path a (\<lambda>p. case a_files a p of
          Some f \<Rightarrow>
            (if \<not> has_flag flags O_CREAT then a_open p f a
             else if O_TRUNC_CHECK flags then
               (if length (a_bytes f) < DBUCKET_BUF_SIZE then a_open p \<lparr>a_bytes = [], a_pos = 0\<rparr> a else None)
             else if has_flag flags O_EXCL then a_fail EEXIST a
             else a_open p f a)
        | None \<Rightarrow>
            (if \<not> has_flag flags O_CREAT then a_fail ENOENT a
             else if card (dom (a_files a)) < META_BUCKETS then a_open p \<lparr>a_bytes = [], a_pos = 0\<rparr> a
             else a_fail ENOSPC a)))"
| "a_call cwd (Close fd) a = a_on_fd fd a (\<lambda>p f. a_done 0 [] 0 (a\<lparr>a_fds := (a_fds a)(fd := None)\<rparr>))"
| "a_call cwd (Read fd n) a = a_on_fd fd a (\<lambda>p f.
     (let out = take n (drop (a_pos f) (a_bytes f)) in
      a_done (int (length out)) out 0 (a_put p (f\<lparr>a_pos := a_pos f + length out\<rparr>) a)))"
| "a_call cwd (Write fd buf) a = a_on_fd fd a (\<lambda>p f.
     a_done (int (length buf)) [] 0
       (a_put p \<lparr>a_bytes = splice (a_bytes f) (a_pos f) buf, a_pos = a_pos f + length buf\<rparr> a))"
| "a_call cwd (Pread fd n off) a = a_on_fd fd a (\<lambda>p f.
     if 0 \<le> off \<and> off \<le> int (length (a_bytes f)) \<and> off < 2 ^ 31 * int DBUCKET_BUF_SIZE then
       (let out = take n (drop (nat off) (a_bytes f)) in a_done (int (length out)) out 0 a)
     else None)"
| "a_call cwd (Pwrite fd buf off) a = a_on_fd fd a (\<lambda>p f.
     if 0 \<le> off \<and> off \<le> int (length (a_bytes f)) \<and> off < 2 ^ 31 * int DBUCKET_BUF_SIZE \<and>
        (off < int (length (a_bytes f)) \<or> off mod int DBUCKET_BUF_SIZE \<noteq> 0 \<or> off = 0) then
       a_done (int (length buf)) [] 0 (a_put p (f\<lparr>a_bytes := splice (a_bytes f) (nat off) buf\<rparr>) a)
     else None)"
| "a_call cwd (Unlink path) a = a_on_path cwd path a (\<lambda>p.
     if a_files a p = None then a_fail ENOENT a
     else if list_ex (\<lambda>fd. a_fds a fd = Some p) user_fds then None
     else a_done 0 [] 0 (a\<lparr>a_files := (a_files a)(p := None)\<rparr>))"
| "a_call cwd (Rename path newpath) a =
     (if path = newpath then a_done 0 [] 0 a
      else a_on_path cwd path a (\<lambda>p. a_on_path cwd newpath a (\<lambda>q. case a_files a p of None \<Rightarrow> None
        | Some f \<Rightarrow>
            (if rows_differ p q \<and> \<not> list_ex (\<lambda>fd. a_fds a fd = Some q) user_fds then
               a_done 0 [] 0 (a\<lparr>a_files := (a_files a)(p := None, q \<mapsto> f),
                 a_fds := (\<lambda>fd. if a_fds a fd = Some p then Some q else a_fds a fd)\<rparr>)
             else None))))"
| "a_call cwd (Xstat path) a = a_on_path cwd path a (\<lambda>p. a_stat p a)"
| "a_call cwd (Lxstat path) a = a_on_path cwd path a (\<lambda>p. a_stat p a)"
| "a_call cwd (Fxstat fd) a = a_on_fd fd a (\<lambda>p f. a_stat p a)"
| "a_call cwd (Fsync fd) a = a_done 0 [] 0 a"

section \<open>Programs\<close>

text \<open>A program is a list of calls. It is run on the library, where a call may end the process, and
  on the abstract file system, where a call may be outside the contract.\<close>

fun run_calls :: "('c \<Rightarrow> 's \<Rightarrow> ('r \<times> 's) res) \<Rightarrow> 'c list \<Rightarrow> 's \<Rightarrow> ('r list \<times> 's) res" where
  "run_calls step [] s = Inr ([], s)"
| "run_calls step (c # cs) s =
     andthen (step c s) (\<lambda>(x, s). andthen (run_calls step cs s) (\<lambda>(xs, s). Inr (x # xs, s)))"

fun run_spec :: "('c \<Rightarrow> 'a \<Rightarrow> ('r \<times> 'a) option) \<Rightarrow> 'c list \<Rightarrow> 'a \<Rightarrow> ('r list \<times> 'a) option" where
  "run_spec step [] a = Some ([], a)"
| "run_spec step (c # cs) a =
     (case step c a of None \<Rightarrow> None
      | Some (x, a) \<Rightarrow> (case run_spec step cs a of None \<Rightarrow> None | Some (xs, a) \<Rightarrow> Some (x # xs, a)))"

text \<open>Forward simulation of one step carries over to whole programs.\<close>

locale simulation =
  fixes R :: "'s \<Rightarrow> 'a \<Rightarrow> bool"
    and impl :: "'c \<Rightarrow> 's \<Rightarrow> ('r \<times> 's) res"
    and spec :: "'c \<Rightarrow> 'a \<Rightarrow> ('r \<times> 'a) option"
  assumes step: "R s a \<Longrightarrow> spec c a = Some (x, a') \<Longrightarrow>
    case impl c s of Inl e \<Rightarrow> e = Exit | Inr (y, s') \<Rightarrow> y = x \<and> R s' a'"
begin

lemma run:
  assumes "R s a" "run_spec spec cs a = Some (xs, a')"
  shows "case run_calls impl cs s of Inl e \<Rightarrow> e = Exit | Inr (ys, s') \<Rightarrow> ys = xs \<and> R s' a'"
  using assms
proof (induction cs arbitrary: s a xs)
  case Nil
  then show ?case by simp
next
  case (Cons c cs)
  from Cons.prems(2) obtain x b zs where c: "spec c a = Some (x, b)" "run_spec spec cs b = Some (zs, a')" "xs = x # zs"
    by (auto split: option.splits)
  show ?case
  proof (cases "impl c s")
    case (Inl e)
    with step [OF Cons.prems(1) c(1)] show ?thesis by simp
  next
    case (Inr y)
    with step [OF Cons.prems(1) c(1)] obtain t where t: "y = (x, t)" "R t b" by (cases y) auto
    from Cons.IH [OF t(2) c(2)] Inr t(1) c(3) show ?thesis by (auto split: sum.splits)
  qed
qed

lemma step_returns:
  assumes "R s a" "spec c a = Some (x, a')" "impl c s = Inr y"
  obtains s' where "impl c s = Inr (x, s')" "R s' a'"
  using step [OF assms(1,2)] assms(3) that by (cases y) auto

end

end
