(* ===== verification/Ufs_Sim.thy ===== *)
theory Ufs_Sim
  imports Ufs_Spec
begin

text \<open>
  The library implements the abstract file system of \<open>Ufs_Spec\<close>. The relation \<open>models\<close> ties the hash
  table, the chains of data buckets, the cursors, the descriptors and their caches to the two maps
  of the abstract state; every call within the contract preserves it and gives the abstract answer.
\<close>

unbundle bit_operations_syntax

section \<open>The relation\<close>

definition fview :: "'z mstate_scheme \<Rightarrow> nat \<Rightarrow> nat list \<Rightarrow> afile \<Rightarrow> bool" where
  "fview s m ps f \<longleftrightarrow>
     file_ok s m ps \<and> content s ps = a_bytes f \<and> cursor_at s m ps (a_pos f) \<and> full s (butlast ps)"

text \<open>Each path with its metadata bucket \<open>m\<close> and its chain \<open>P m\<close>; no two chains meet, and every
  metadata bucket in use has a path.\<close>

definition files_rel :: "'z mstate_scheme \<Rightarrow> (nat \<Rightarrow> nat list) \<Rightarrow> (string \<Rightarrow> afile option) \<Rightarrow> bool" where
  "files_rel s P F \<longleftrightarrow>
     dom F = dom (look s) \<and> (\<forall>i < META_BUCKETS. mb_in_use (mb_arr s i) \<longrightarrow> i \<in> ran (look s)) \<and>
     (\<forall>p m f. look s p = Some m \<longrightarrow> F p = Some f \<longrightarrow> fview s m (P m) f) \<and>
     (\<forall>m \<in> ran (look s). \<forall>n \<in> ran (look s). m \<noteq> n \<longrightarrow> set (P m) \<inter> set (P n) = {})"

definition fd_rel :: "('d, 'z) ustate_scheme \<Rightarrow> (nat \<Rightarrow> nat list) \<Rightarrow> int \<Rightarrow> string option \<Rightarrow> bool" where
  "fd_rel s P fd x \<longleftrightarrow> (case x of
     None \<Rightarrow> fd_empty (fdTable s (nat fd))
   | Some p \<Rightarrow> (\<exists>m. look s p = Some m \<and> fd_open s fd m \<and> cache_ok (fdTable s (nat fd)) (P m)))"

definition fds_rel :: "('d, 'z) ustate_scheme \<Rightarrow> (nat \<Rightarrow> nat list) \<Rightarrow> (int \<Rightarrow> string option) \<Rightarrow> bool" where
  "fds_rel s P D \<longleftrightarrow>
     dom D \<subseteq> {FIRST_USER_FD..<MAX_NUM_FD} \<and> (\<forall>fd. FIRST_USER_FD \<le> fd \<longrightarrow> fd < MAX_NUM_FD \<longrightarrow> fd_rel s P fd (D fd))"

text \<open>The operating system has no file and says so.\<close>

definition no_files :: "('d, 'x) os_scheme \<Rightarrow> 'd \<Rightarrow> bool" where
  "no_files os d \<longleftrightarrow> (\<forall>p. \<exists>st st'. os_stat os p d = (((- 1, st), Some ENOENT), d) \<and>
     os_lstat os p d = (((- 1, st'), Some ENOENT), d))"

definition models :: "('d, 'x) os_scheme \<Rightarrow> string option \<Rightarrow> ('d, 'z) ustate_scheme \<Rightarrow> afs \<Rightarrow> bool" where
  "models os cwd s a \<longleftrightarrow>
     minv s \<and> alloc_inv s \<and> fd_inv s \<and> \<not> calling_shm_open s \<and> \<not> calling_shm_unlink s \<and>
     no_files os (disk s) \<and> os_getcwd os (disk s) = cwd \<and>
     (\<exists>P. files_rel s P (a_files a) \<and> fds_rel s P (a_fds a))"

lemma modelsI:
  assumes "minv s" "alloc_inv s" "fd_inv s" "\<not> calling_shm_open s" "\<not> calling_shm_unlink s"
    "no_files os (disk s)" "os_getcwd os (disk s) = cwd" "files_rel s P (a_files a)" "fds_rel s P (a_fds a)"
  shows "models os cwd s a"
  using assms by (auto simp: models_def)

section \<open>Files\<close>

lemma look_inj:
  assumes "minv s" "look s p = Some m" "look s q = Some m"
  shows "p = q"
proof -
  have "mb_path (mb_arr s m) = p" if p: "look s p = Some m" for p
  proof -
    have ok: "ok_path p" using p look_not_ok [of p s] by auto
    obtain R h where "rows_ok s R" "hash p = Inr h" "h < HASH_TABLE_SIZE"
      using assms(1) ok_path_hash [OF ok] by (auto simp: minv_def)
    with look_iff [of s h "R h" p m] ok p show ?thesis by (auto simp: rows_ok_def)
  qed
  from this [OF assms(2)] this [OF assms(3)] show ?thesis by simp
qed

lemma fview_frame:
  assumes "mem_kept A M s s'" "fview s m ps f" "m \<notin> M" "set ps \<inter> A = {}"
  shows "fview s' m ps f"
  using mem_kept_file [OF assms(1) _ assms(3,4)] assms(2) by (auto simp: fview_def)

lemma fview_in_use: "fview s m ps f \<Longrightarrow> q \<in> set ps \<Longrightarrow> db_in_use (dbs s q)"
  using dchain_in_use by (auto simp: fview_def file_ok_def)

lemma files_relD:
  assumes "files_rel s P F" "F p = Some f"
  obtains m where "look s p = Some m" "fview s m (P m) f"
proof -
  from assms have "p \<in> dom (look s)" by (auto simp: files_rel_def)
  then obtain m where "look s p = Some m" by auto
  with assms show thesis by (intro that [of m]) (auto simp: files_rel_def)
qed

lemma files_rel_look: "files_rel s P F \<Longrightarrow> F p = None \<longleftrightarrow> look s p = None"
  unfolding files_rel_def by (metis domIff)

text \<open>One entry is changed or added: its chain may grow by buckets that were free.\<close>

lemma files_rel_put:
  assumes rel: "files_rel s P F" and s: "minv s" "look s' = (look s)(p \<mapsto> m)"
    and mem: "mem_kept A {m} s s'" "\<And>i. mb_in_use (mb_arr s' i) \<Longrightarrow> i = m \<or> mb_in_use (mb_arr s i)"
    and old: "\<And>q. look s q = Some m \<Longrightarrow> q = p" "\<And>n. n \<in> ran (look s) \<Longrightarrow> n \<noteq> m \<Longrightarrow> set (P n) \<inter> A = {}"
      "look s p = None \<or> look s p = Some m"
    and new: "fview s' m qs f" "\<And>n. n \<in> ran (look s) \<Longrightarrow> n \<noteq> m \<Longrightarrow> set (P n) \<inter> set qs = {}"
  shows "files_rel s' (P(m := qs)) (F(p \<mapsto> f))"
proof -
  have look': "look s' q = Some n \<longleftrightarrow> (if q = p then n = m else look s q = Some n)" for q n
    using s(2) by auto
  have ran': "n \<in> ran (look s') \<longleftrightarrow> n = m \<or> (\<exists>q. q \<noteq> p \<and> look s q = Some n)" for n
    by (auto simp: ran_def look')
  have other: "n \<noteq> m" "n \<in> ran (look s)" if "look s q = Some n" "q \<noteq> p" for q n
    using that old(1) by (auto simp: ran_def)
  have "dom (F(p \<mapsto> f)) = dom (look s')" using rel s(2) by (simp add: files_rel_def)
  moreover have "i \<in> ran (look s')" if "i < META_BUCKETS" "mb_in_use (mb_arr s' i)" for i
  proof (cases "i = m")
    case False
    with mem(2) [OF that(2)] rel that(1) have "i \<in> ran (look s)" unfolding files_rel_def by blast
    then obtain q where q: "look s q = Some i" by (auto simp: ran_def)
    with old(3) False have "q \<noteq> p" by auto
    with q show ?thesis unfolding ran' by blast
  qed (simp add: ran')
  moreover have "fview s' n ((P(m := qs)) n) g" if "look s' q = Some n" "(F(p \<mapsto> f)) q = Some g" for q n g
  proof (cases "q = p")
    case False
    then have q: "look s q = Some n" "F q = Some g" using that look' by auto
    with rel have "fview s n (P n) g" by (auto simp: files_rel_def)
    with fview_frame [OF mem(1), of n "P n" g] other [OF q(1) False] old(2) show ?thesis by simp
  qed (use that new(1) look' in auto)
  moreover have "set ((P(m := qs)) n) \<inter> set ((P(m := qs)) k) = {}"
    if "n \<in> ran (look s')" "k \<in> ran (look s')" "n \<noteq> k" for n k
  proof -
    have o: "l = m \<or> l \<in> ran (look s) \<and> l \<noteq> m" if "l \<in> ran (look s')" for l using that other unfolding ran' by blast
    have "set (P n) \<inter> set (P k) = {}" if "n \<in> ran (look s)" "k \<in> ran (look s)"
      using rel that \<open>n \<noteq> k\<close> unfolding files_rel_def by blast
    with o [OF that(1)] o [OF that(2)] that(3) new(2) [of n] new(2) [of k] show ?thesis by (auto simp: Int_commute)
  qed
  ultimately show ?thesis unfolding files_rel_def by blast
qed

text \<open>The same for a file that is there.\<close>

lemma files_rel_upd:
  assumes rel: "files_rel s P F" and s: "minv s" "look s p = Some m" "F p \<noteq> None" "look s' = look s"
    and mem: "mem_kept (set (P m)) {m} s s'" "\<And>i. mb_in_use (mb_arr s' i) = mb_in_use (mb_arr s i)"
    and new: "fview s' m (P m @ es) f" "\<forall>e \<in> set es. \<not> db_in_use (dbs s e)"
  shows "files_rel s' (P(m := P m @ es)) (F(p \<mapsto> f))"
proof (rule files_rel_put [OF rel s(1) _ mem(1) _ _ _ disjI2 [OF s(2)] new(1)])
  show "look s' = (look s)(p \<mapsto> m)" using s(2,4) by (auto simp: fun_eq_iff)
  show "mb_in_use (mb_arr s' i) \<Longrightarrow> i = m \<or> mb_in_use (mb_arr s i)" for i using mem(2) by simp
  show "q = p" if "look s q = Some m" for q using look_inj [OF s(1) that s(2)] .
  fix n assume n: "n \<in> ran (look s)" "n \<noteq> m"
  moreover have "m \<in> ran (look s)" using s(2) by (rule ranI)
  ultimately show "set (P n) \<inter> set (P m) = {}" using rel unfolding files_rel_def by blast
  obtain q where q: "look s q = Some n" using n(1) by (auto simp: ran_def)
  then obtain g where "F q = Some g" using files_rel_look [OF rel, of q] by auto
  with q rel have "fview s n (P n) g" by (auto simp: files_rel_def)
  with new(2) fview_in_use have "set (P n) \<inter> set es = {}" by blast
  with \<open>set (P n) \<inter> set (P m) = {}\<close> show "set (P n) \<inter> set (P m @ es) = {}" by auto
qed

section \<open>Descriptors\<close>

lemma fds_rel_put:
  assumes rel: "fds_rel s P D" and tab: "\<And>j. j \<noteq> nat fd \<Longrightarrow> fdTable s' j = fdTable s j"
    and names: "\<And>fd' q n. D fd' = Some q \<Longrightarrow> look s q = Some n \<Longrightarrow> look s' q = Some n \<and> (\<exists>es. P' n = P n @ es)"
    and fd: "FIRST_USER_FD \<le> fd" "fd < MAX_NUM_FD" "fd_rel s' P' fd x"
  shows "fds_rel s' P' (D(fd := x))"
  unfolding fds_rel_def
proof (intro conjI allI impI)
  show "dom (D(fd := x)) \<subseteq> {FIRST_USER_FD..<MAX_NUM_FD}" using rel fd(1,2) by (auto simp: fds_rel_def split: if_splits)
  fix fd' assume fd': "FIRST_USER_FD \<le> fd'" "fd' < MAX_NUM_FD"
  show "fd_rel s' P' fd' ((D(fd := x)) fd')"
  proof (cases "fd' = fd")
    case False
    with fd(1) fd'(1) have t: "fdTable s' (nat fd') = fdTable s (nat fd')" by (intro tab) (auto simp: ufs_config)
    have "fd_rel s P fd' (D fd')" using rel fd' by (simp add: fds_rel_def)
    with t names [of fd'] cache_ok_mono [OF _ refl] False show ?thesis
      by (fastforce simp: fd_rel_def fd_open_def split: option.splits)
  qed (use fd(3) in simp)
qed

lemma fds_rel_same:
  assumes "fds_rel s P D" "fdTable s' = fdTable s" "look s' = look s"
  shows "fds_rel s' P D"
proof -
  have "fd_rel s' P fd x = fd_rel s P fd x" for fd x
    using assms(2,3) by (simp add: fd_rel_def fd_open_def split: option.split)
  with assms(1) show ?thesis by (simp add: fds_rel_def)
qed

text \<open>The descriptor a new file is opened at.\<close>

lemma find_upto:
  assumes "find Q [i..j] = Some x"
  shows "Q x" "i \<le> x" "x \<le> j" "\<And>y. i \<le> y \<Longrightarrow> y < x \<Longrightarrow> \<not> Q y"
proof -
  from assms obtain k where k: "k < length [i..j]" "Q ([i..j] ! k)" "x = [i..j] ! k" "\<forall>l < k. \<not> Q ([i..j] ! l)"
    unfolding find_Some_iff by blast
  then have x: "x = i + int k" by simp
  show "Q x" "i \<le> x" "x \<le> j" using k x by auto
  show "\<not> Q y" if "i \<le> y" "y < x" for y
    using k(1,4) x that by (auto dest: spec [of _ "nat (y - i)"])
qed

lemma lowest_free:
  assumes "fds_rel s P D" "find (\<lambda>fd. D fd = None) user_fds = Some fd"
  shows "lowest_fd s fd" "FIRST_USER_FD \<le> fd" "fd < MAX_NUM_FD"
proof -
  note f = find_upto [OF assms(2) [unfolded user_fds_def]]
  show r: "FIRST_USER_FD \<le> fd" "fd < MAX_NUM_FD" using f(2,3) by auto
  have e: "fd_empty (fdTable s (nat i)) = (D i = None)" if "FIRST_USER_FD \<le> i" "i < MAX_NUM_FD" for i
  proof -
    have "fd_rel s P i (D i)" using that assms(1) by (simp add: fds_rel_def)
    then show ?thesis by (auto simp: fd_rel_def fd_open_def split: option.splits)
  qed
  have "fd_empty (fdTable s (nat fd))" using e [OF r] f(1) by simp
  moreover have "\<not> fd_empty (fdTable s (nat i))" if "FIRST_USER_FD \<le> i" "i < fd" for i
    using e [of i] f(4) [OF that] that r(2) by simp
  ultimately show "lowest_fd s fd" using r by (simp add: lowest_fd_def)
qed

section \<open>The calls on descriptors\<close>

definition agrees ::
  "('d, 'x) os_scheme \<Rightarrow> string option \<Rightarrow> answer \<times> afs \<Rightarrow> (answer \<times> ('d, 'z) ustate_scheme) res \<Rightarrow> bool" where
  "agrees os cwd r res \<longleftrightarrow> (case res of Inl e \<Rightarrow> e = Exit | Inr (y, s') \<Rightarrow> y = fst r \<and> models os cwd s' (snd r))"

lemma models_quiet:
  assumes "models os cwd s a" "quiet s s'" "disk s' = disk s"
  shows "models os cwd s' a"
proof -
  from assms(1) obtain P where P: "files_rel s P (a_files a)" "fds_rel s P (a_fds a)" by (auto simp: models_def)
  have n: "minv s' = minv s" "look s' = look s" using quiet_names [OF assms(2)] by simp_all
  have t: "fdTable s' = fdTable s" using assms(2) by (simp add: quiet_def)
  have "fview s' m ps f" if "fview s m ps f" for m ps f
    using fview_frame [OF quiet_mem [OF assms(2), of "{}" "{}"] that] by simp
  with P(1) n assms(2) have "files_rel s' P (a_files a)" by (auto simp: files_rel_def quiet_def)
  moreover have "fds_rel s' P (a_fds a)" by (rule fds_rel_same [OF P(2) t n(2)])
  ultimately show ?thesis
    using assms n(1) fd_inv_cong [OF t] by (auto simp: models_def quiet_def)
qed

lemma models_errno: "models os cwd s a \<Longrightarrow> models os cwd (s\<lparr>errno := e\<rparr>) a"
  by (rule models_quiet) (simp_all add: quiet_errno)

lemma on_fd_cases [consumes 2, case_names bad ok]:
  assumes "models os cwd s a" "a_on_fd fd a k = Some r"
  obtains (bad) "FDDES fd = Inr (nat fd)" "\<not> exclusive (fdTable s (nat fd))" "fd_empty (fdTable s (nat fd))"
      "r = (Answer (- 1) [] 0 EBADF, a)"
    | (ok) p f P m where "a_fds a fd = Some p" "a_files a p = Some f" "k p f = Some r"
      "FIRST_USER_FD \<le> fd" "fd < MAX_NUM_FD" "files_rel s P (a_files a)" "fds_rel s P (a_fds a)"
      "look s p = Some m" "fview s m (P m) f" "fd_open s fd m" "cache_ok (fdTable s (nat fd)) (P m)"
proof -
  have fd: "FIRST_USER_FD \<le> fd" "fd < MAX_NUM_FD" using assms(2) by (auto simp: a_on_fd_def split: if_splits)
  obtain P where P: "files_rel s P (a_files a)" "fds_rel s P (a_fds a)" using assms(1) by (auto simp: models_def)
  have rel: "fd_rel s P fd (a_fds a fd)" using P(2) fd by (simp add: fds_rel_def)
  show thesis
  proof (cases "a_fds a fd")
    case None
    have "fd_ok (nat fd) (fdTable s (nat fd))" using assms(1) fd by (auto simp: models_def fd_inv_def ufs_config)
    with None rel fd assms(2) show thesis
      by (intro bad) (auto simp: fd_rel_def fd_ok_def FDDES_def a_on_fd_def a_fail_def ufs_config)
  next
    case (Some p)
    with assms(2) fd obtain f where f: "a_files a p = Some f" "k p f = Some r"
      by (auto simp: a_on_fd_def split: option.splits)
    from rel Some obtain m where "look s p = Some m" "fd_open s fd m" "cache_ok (fdTable s (nat fd)) (P m)"
      by (auto simp: fd_rel_def)
    moreover from files_relD [OF P(1) f(1)] this(1) have "fview s m (P m) f" by auto
    ultimately show thesis using Some f fd P by (intro ok)
  qed
qed

text \<open>After a call on one descriptor that changed the file behind it.\<close>

lemma models_upd:
  assumes "models os cwd s a" "files_rel s P (a_files a)" "fds_rel s P (a_fds a)" "look s p = Some m"
    "a_files a p = Some f0" "FIRST_USER_FD \<le> fd" "fd < MAX_NUM_FD"
    "only_fd (nat fd) s s'" "alloc_inv s'" "fd_inv s'" "mem_kept (set (P m)) {m} s s'"
    "fview s' m (P m @ es) f" "\<forall>e \<in> set es. \<not> db_in_use (dbs s e)" "fd_rel s' (P(m := P m @ es)) fd x"
  shows "models os cwd s' ((a_put p f a)\<lparr>a_fds := (a_fds a)(fd := x)\<rparr>)"
proof -
  have n: "minv s" "minv s'" "look s' = look s" using only_fd_names(1,2) [OF assms(8)] assms(1) by (auto simp: models_def)
  have "files_rel s' (P(m := P m @ es)) ((a_files a)(p \<mapsto> f))"
    by (rule files_rel_upd [OF assms(2) n(1) assms(4) _ n(3) assms(11) _ assms(12,13)])
      (use assms(5,8) in \<open>simp_all add: only_fd_def\<close>)
  moreover have "fds_rel s' (P(m := P m @ es)) ((a_fds a)(fd := x))"
    by (rule fds_rel_put [OF assms(3) _ _ assms(6,7,14)]) (use assms(8) n(3) in \<open>auto simp: only_fd_def\<close>)
  ultimately show ?thesis
    using assms(1,8-10) n(2) by (intro modelsI) (auto simp: models_def only_fd_def a_put_def)
qed

lemma a_put_same: "a_files a p = Some f \<Longrightarrow> a_put p f a = a"
  by (simp add: a_put_def fun_upd_idem)

lemma a_fds_same: "a_fds a fd = x \<Longrightarrow> (a_put p f a)\<lparr>a_fds := (a_fds a)(fd := x)\<rparr> = a_put p f a"
  by (auto simp: a_put_def fun_upd_idem)

lemma sim_read:
  assumes "models os cwd s a" "a_call cwd (Read fd n) a = Some r"
  shows "agrees os cwd r (call_answer os (Read fd n) s)"
  using assms(1) assms(2) [unfolded a_call.simps]
proof (cases rule: on_fd_cases)
  case bad
  with models_errno [OF assms(1)] show ?thesis by (simp add: agrees_def ufs_read_def reply_def)
next
  case (ok p f P m)
  define out where "out = take n (drop (a_pos f) (a_bytes f))"
  have v: "file_ok s m (P m)" "content s (P m) = a_bytes f" "cursor_at s m (P m) (a_pos f)" "full s (butlast (P m))"
    using ok(9) by (simp_all add: fview_def)
  have inv: "dinv s" "fd_inv s" "alloc_inv s" using assms(1) by (auto simp: models_def alloc_inv_def)
  from ufs_read_result [OF inv(1) ok(10) v(1,3), of os n] v(2,4) obtain s' where
    s': "ufs_read os fd n s = Inr ((int (length out), out), s')" "same_data s' s" "fd_open s' fd m"
      "file_ok s' m (P m)" "\<forall>k. k \<noteq> m \<longrightarrow> mb_arr s' k = mb_arr s k" "cursor_at s' m (P m) (a_pos f + length out)"
      "off_db_mapping (fdTable s' (nat fd)) = off_db_mapping (fdTable s (nat fd))"
    by (auto simp: out_def)
  have o: "only_fd (nat fd) s s'" using endsD [OF ufs_read_only [OF ok(10)] s'(1)] by simp
  have i: "fd_inv s'" using endsD [OF ufs_read_inv [OF inv(2)] s'(1)] by simp
  have m: "mem_kept (set (P m)) {m} s s'" by (rule mem_kept_same [OF s'(2)]) (use s'(5) in simp)
  have v': "fview s' m (P m @ []) (f\<lparr>a_pos := a_pos f + length out\<rparr>)"
    using s'(4,6) v(2,4) same_data_chain [OF s'(2)] by (simp add: fview_def)
  have c: "fd_rel s' (P(m := P m @ [])) fd (Some p)"
    using s'(3) ok(8) only_fd_names(2) [OF o] cache_ok_mono [OF ok(11) s'(7), of "[]"] by (simp add: fd_rel_def)
  have "r = (Answer (int (length out)) out 0 0, a_put p (f\<lparr>a_pos := a_pos f + length out\<rparr>) a)"
    using ok(3) by (simp add: a_done_def Let_def out_def)
  with models_upd [OF assms(1) ok(6-8,2,4,5) o _ i m v' _ c] s'(1) same_dataD(8) [OF s'(2)] inv(3) a_fds_same [OF ok(1)]
  show ?thesis by (simp add: agrees_def reply_def)
qed

lemma sim_write:
  assumes "models os cwd s a" "a_call cwd (Write fd buf) a = Some r"
  shows "agrees os cwd r (call_answer os (Write fd buf) s)"
  using assms(1) assms(2) [unfolded a_call.simps]
proof (cases rule: on_fd_cases)
  case bad
  with models_errno [OF assms(1)] show ?thesis by (simp add: agrees_def ufs_write_def reply_def)
next
  case (ok p f P m)
  have v: "file_ok s m (P m)" "content s (P m) = a_bytes f" "cursor_at s m (P m) (a_pos f)" "full s (butlast (P m))"
    using ok(9) by (simp_all add: fview_def)
  have inv: "fd_inv s" "alloc_inv s" using assms(1) by (auto simp: models_def)
  show ?thesis
  proof (cases "ufs_write os fd buf s")
    case (Inl e)
    with ufs_write_exit [OF inv(2) ok(10) v(1,3) Inl] show ?thesis by (simp add: agrees_def)
  next
    case (Inr y)
    obtain n s' where y: "y = (n, s')" by force
    note w = Inr [unfolded y]
    from ufs_write_fresh [OF inv(2) ok(10) v(1,3) w] v(2,4) obtain es where
      s': "n = int (length buf)" "alloc_inv s'" "fd_open s' fd m" "mem_kept (set (P m)) {m} s s'"
        "\<forall>e \<in> set es. \<not> db_in_use (dbs s e)" "off_db_mapping (fdTable s' (nat fd)) = off_db_mapping (fdTable s (nat fd))"
      and v': "fview s' m (P m @ es) \<lparr>a_bytes = splice (a_bytes f) (a_pos f) buf, a_pos = a_pos f + length buf\<rparr>"
      by (auto simp: fview_def)
    have o: "only_fd (nat fd) s s'" using endsD [OF ufs_write_only [OF ok(10)] w] by simp
    have i: "fd_inv s'" using endsD [OF ufs_write_inv [OF inv(1)] w] by simp
    have c: "fd_rel s' (P(m := P m @ es)) fd (Some p)"
      using s'(3) ok(8) only_fd_names(2) [OF o] cache_ok_mono [OF ok(11) s'(6)] by (simp add: fd_rel_def)
    show ?thesis
      using models_upd [OF assms(1) ok(6-8,2,4,5) o s'(2) i s'(4) v' s'(5) c] w s'(1) ok(3) a_fds_same [OF ok(1)]
      by (auto simp: agrees_def reply_def a_done_def)
  qed
qed

lemma sim_pread:
  assumes "models os cwd s a" "a_call cwd (Pread fd n off) a = Some r"
  shows "agrees os cwd r (call_answer os (Pread fd n off) s)"
  using assms(1) assms(2) [unfolded a_call.simps]
proof (cases rule: on_fd_cases)
  case bad
  with models_errno [OF assms(1)] show ?thesis by (simp add: agrees_def ufs_pread_def reply_def)
next
  case (ok p f P m)
  define out where "out = take n (drop (nat off) (a_bytes f))"
  have v: "file_ok s m (P m)" "content s (P m) = a_bytes f" using ok(9) by (simp_all add: fview_def)
  have inv: "dinv s" "fd_inv s" "alloc_inv s" using assms(1) by (auto simp: models_def alloc_inv_def)
  from ok(3) have off: "0 \<le> off" "nat off \<le> length (content s (P m))" "nat off < 2 ^ 31 * DBUCKET_BUF_SIZE"
    and r: "r = (Answer (int (length out)) out 0 0, a)"
    using v(2) by (auto simp: a_done_def Let_def out_def nat_less_iff split: if_splits)
  from ufs_pread_result [OF inv(1) ok(10) v(1) ok(11) off(2,3), of os n] v(2) off(1) obtain s' where
    s': "ufs_pread os fd n off s = Inr ((int (length out), out), s')" "same_data s' s" "fd_open s' fd m"
      "mb_arr s' = mb_arr s" "cache_ok (fdTable s' (nat fd)) (P m)"
    by (auto simp: out_def)
  have o: "only_fd (nat fd) s s'" using endsD [OF ufs_pread_only [OF ok(10)] s'(1)] by simp
  have i: "fd_inv s'" using endsD [OF ufs_pread_inv [OF inv(2)] s'(1)] by simp
  have m: "mem_kept A M s s'" for A M by (rule mem_kept_same [OF s'(2)]) (simp add: s'(4))
  have v': "fview s' m (P m @ []) f" using fview_frame [OF m [of "{}" "{}"] ok(9)] by simp
  have c: "fd_rel s' (P(m := P m @ [])) fd (Some p)"
    using s'(3,5) ok(8) only_fd_names(2) [OF o] by (simp add: fd_rel_def)
  show ?thesis
    using models_upd [OF assms(1) ok(6-8,2,4,5) o _ i m v' _ c] s'(1) same_dataD(8) [OF s'(2)] inv(3) r
      a_fds_same [OF ok(1), of p f] a_put_same [OF ok(2)]
    by (simp add: agrees_def reply_def)
qed

text \<open>The cursor stays where it is when the file is written at an offset.\<close>

lemma cursor_grown:
  assumes "cursor_at s m ps pos" "file_ok s m ps" "file_ok s' m (ps @ es)" "full s' (butlast (ps @ es))"
    "length (content s ps) \<le> length (content s' (ps @ es))" "full s (butlast ps)"
    "last_dbucket (mb_arr s' m) = last_dbucket (mb_arr s m)" "last_db_offset (mb_arr s' m) = last_db_offset (mb_arr s m)"
  shows "cursor_at s' m (ps @ es) pos"
proof -
  let ?ix = "last_dbucket (mb_arr s m)" and ?off = "nat (last_db_offset (mb_arr s m))"
  obtain us vs where u: "ps = us @ unat ?ix # vs" "full s us" "?off \<le> db_bytes (dbs s (unat ?ix))"
      "DBUCKET_BUF_SIZE * length us + ?off = pos" "0 \<le> last_db_offset (mb_arr s m)"
    using assms(1) by (auto simp: cursor_at_def at_fpos_def)
  have off: "?off \<le> DBUCKET_BUF_SIZE"
    using at_fpos_off assms(1,2) by (auto simp: cursor_at_def file_ok_def)
  have f: "full s' us" using assms(4) u(1) by (simp add: butlast_append)
  have "?off \<le> db_bytes (dbs s' (unat ?ix))"
  proof (cases "vs @ es = []")
    case True
    have "length (content s' us) = length (content s us)" using f u(2) by (simp add: length_content_full)
    with assms(5) u(1,3) True show ?thesis by simp
  next
    case False
    then have "unat ?ix \<in> set (butlast (ps @ es))" using u(1) by (auto simp: butlast_append)
    with assms(4) off show ?thesis by (auto simp: full_def)
  qed
  with u f assms(7,8) show ?thesis unfolding cursor_at_def at_fpos_def by auto
qed

lemma offset_in_chain:
  assumes "file_ok s m ps" "off \<le> length (content s ps)"
    "off < length (content s ps) \<or> off mod DBUCKET_BUF_SIZE \<noteq> 0 \<or> off = 0"
  shows "off div DBUCKET_BUF_SIZE < length ps"
proof -
  have "dchain s (first_dbucket (mb_arr s m)) ps" "ps \<noteq> []" using assms(1) by (auto simp: file_ok_def)
  then have b: "\<forall>p \<in> set ps. db_bytes (dbs s p) \<le> DBUCKET_BUF_SIZE" using dchain_bytes by blast
  have "\<forall>p \<in> set xs. db_bytes (dbs s p) \<le> DBUCKET_BUF_SIZE \<Longrightarrow> length (content s xs) \<le> length xs * DBUCKET_BUF_SIZE" for xs
    by (induction xs) auto
  from this [OF b] have "length (content s ps) \<le> length ps * DBUCKET_BUF_SIZE" .
  moreover have "0 < length ps * DBUCKET_BUF_SIZE" using \<open>ps \<noteq> []\<close> buf_size_pos by simp
  moreover have "off \<noteq> length ps * DBUCKET_BUF_SIZE" if "off mod DBUCKET_BUF_SIZE \<noteq> 0"
    using that by (metis mod_mult_self2_is_0)
  ultimately have "off < length ps * DBUCKET_BUF_SIZE" using assms(2,3) by linarith
  then show ?thesis by (rule less_mult_imp_div_less)
qed

lemma sim_pwrite:
  assumes "models os cwd s a" "a_call cwd (Pwrite fd buf off) a = Some r"
  shows "agrees os cwd r (call_answer os (Pwrite fd buf off) s)"
  using assms(1) assms(2) [unfolded a_call.simps]
proof (cases rule: on_fd_cases)
  case bad
  with models_errno [OF assms(1)] show ?thesis by (simp add: agrees_def ufs_pwrite_def reply_def)
next
  case (ok p f P m)
  let ?B = DBUCKET_BUF_SIZE
  have v: "file_ok s m (P m)" "content s (P m) = a_bytes f" "cursor_at s m (P m) (a_pos f)" "full s (butlast (P m))"
    using ok(9) by (simp_all add: fview_def)
  have inv: "fd_inv s" "alloc_inv s" using assms(1) by (auto simp: models_def)
  from ok(3) have off: "0 \<le> off" "nat off \<le> length (content s (P m))" "nat off < 2 ^ 31 * ?B"
      "off < int (length (a_bytes f)) \<or> off mod int ?B \<noteq> 0 \<or> off = 0"
    and r: "r = (Answer (int (length buf)) [] 0 0, a_put p (f\<lparr>a_bytes := splice (a_bytes f) (nat off) buf\<rparr>) a)"
    using v(2) by (auto simp: a_done_def nat_less_iff split: if_splits)
  have in_chain: "nat off div ?B < length (P m)"
  proof (rule offset_in_chain [OF v(1) off(2)])
    have "off mod int ?B = int (nat off mod ?B)" using off(1) by (simp add: zmod_int)
    with off(1,4) v(2) show "nat off < length (content s (P m)) \<or> nat off mod ?B \<noteq> 0 \<or> nat off = 0" by auto
  qed
  show ?thesis
  proof (cases "ufs_pwrite os fd buf off s")
    case (Inl e)
    with ufs_pwrite_exit [OF inv(2) ok(10) v(1) ok(11) off(2,3) in_chain, of os buf e] off(1)
    show ?thesis by (simp add: agrees_def)
  next
    case (Inr y)
    obtain n s' where y: "y = (n, s')" by force
    note w = Inr [unfolded y]
    have w': "ufs_pwrite os fd buf (int (nat off)) s = Inr (n, s')" using w off(1) by simp
    from ufs_pwrite_fresh [OF inv(2) ok(10) v(1) ok(11) off(2,3) in_chain w'] v(2,4) obtain es where
      s': "n = int (length buf)" "alloc_inv s'" "fd_open s' fd m" "mem_kept (set (P m)) {m} s s'"
        "\<forall>e \<in> set es. \<not> db_in_use (dbs s e)" "cache_ok (fdTable s' (nat fd)) (P m)"
        "last_dbucket (mb_arr s' m) = last_dbucket (mb_arr s m)" "last_db_offset (mb_arr s' m) = last_db_offset (mb_arr s m)"
      and f': "file_ok s' m (P m @ es)" "content s' (P m @ es) = splice (a_bytes f) (nat off) buf"
        "full s' (butlast (P m @ es))"
      by auto
    have "length (content s (P m)) \<le> length (content s' (P m @ es))"
      unfolding f'(2) using off(2) v(2) by (simp add: length_splice)
    from cursor_grown [OF v(3,1) f'(1,3) this v(4) s'(7,8)] f'
    have v': "fview s' m (P m @ es) (f\<lparr>a_bytes := splice (a_bytes f) (nat off) buf\<rparr>)" by (simp add: fview_def)
    have o: "only_fd (nat fd) s s'" using endsD [OF ufs_pwrite_only [OF ok(10)] w] by simp
    have i: "fd_inv s'" using endsD [OF ufs_pwrite_inv [OF inv(1)] w] by simp
    have c: "fd_rel s' (P(m := P m @ es)) fd (Some p)"
      using s'(3) ok(8) only_fd_names(2) [OF o] cache_ok_mono [OF s'(6) refl] by (simp add: fd_rel_def)
    show ?thesis
      using models_upd [OF assms(1) ok(6-8,2,4,5) o s'(2) i s'(4) v' s'(5) c] w s'(1) r a_fds_same [OF ok(1)]
      by (simp add: agrees_def reply_def)
  qed
qed

lemma sim_close:
  assumes "models os cwd s a" "a_call cwd (Close fd) a = Some r"
  shows "agrees os cwd r (call_answer os (Close fd) s)"
  using assms(1) assms(2) [unfolded a_call.simps]
proof (cases rule: on_fd_cases)
  case bad
  with models_errno [OF assms(1)] show ?thesis by (simp add: agrees_def ufs_close_def reply_def)
next
  case (ok p f P m)
  let ?c = "closed fd m s"
  have inv: "fd_inv s" "alloc_inv s" using assms(1) by (auto simp: models_def)
  note cl = ufs_close_open [OF ok(10), of os]
  note sd = closed_file(1) [of fd m s]
  have i: "fd_inv ?c" using endsD [OF ufs_close_inv [OF inv(1)] cl] by simp
  have m: "mem_kept (set (P m)) {m} s ?c" by (rule mem_kept_same [OF sd]) (simp add: closed_def)
  have v': "fview ?c m (P m @ []) f"
    using ok(9) closed_file(2) [of fd m s m "P m"] same_data_chain [OF sd] cursor_at_cong [OF _ sd, of m "P m" "a_pos f"]
    by (simp add: fview_def) (simp add: closed_def)
  have c: "fd_rel ?c (P(m := P m @ [])) fd None" using closed_file(3) [of fd m s] by (simp add: fd_rel_def)
  have "models os cwd ?c ((a_put p f a)\<lparr>a_fds := (a_fds a)(fd := None)\<rparr>)"
    by (rule models_upd [OF assms(1) ok(6-8,2,4,5) closed_only _ i m v' _ c]) (use same_dataD(8) [OF sd] inv(2) in simp_all)
  with ok(3) cl a_put_same [OF ok(2)] show ?thesis by (auto simp: agrees_def reply_def a_done_def)
qed

lemma sim_fxstat:
  assumes "models os cwd s a" "a_call cwd (Fxstat fd) a = Some r"
  shows "agrees os cwd r (call_answer os (Fxstat fd) s)"
  using assms(1) assms(2) [unfolded a_call.simps]
proof (cases rule: on_fd_cases)
  case bad
  with models_errno [OF assms(1)] show ?thesis by (simp add: agrees_def ufs_fxstat_def reply_stat_def reply_def)
next
  case (ok p f P m)
  have "minv s" using assms(1) by (simp add: models_def)
  note fx = fxstat_known [OF this ok(10,8), of os]
  have "st_size (mb_s (mb_arr s m)) = length (a_bytes f)" using ok(9) by (simp add: fview_def file_ok_def)
  with ok(2,3) fx models_errno [OF assms(1)] show ?thesis
    by (auto simp: agrees_def reply_stat_def reply_def a_stat_def a_done_def)
qed

section \<open>The calls on paths\<close>

lemma on_path_cases [consumes 2, case_names long ok]:
  assumes "models os cwd s a" "a_on_path cwd path a k = Some r"
  obtains (long) "\<not> exclusive_path path" "PATH_MAX < length path" "r = (Answer (- 1) [] 0 ENAMETOOLONG, a)"
    | (ok) p where "names_file os path p s" "k p = Some r"
proof (cases "PATH_MAX < length path")
  case True
  with assms(2) show thesis by (intro long) (auto simp: a_on_path_def a_fail_def split: if_splits)
next
  case False
  with assms(2) obtain p where p: "a_key cwd path = Some p" "k p = Some r" "\<not> exclusive_path path"
    by (auto simp: a_on_path_def split: if_splits option.splits)
  from p(1) have "full_path cwd path = Inr p" "ok_path p" "fits_path p"
    by (auto simp: a_key_def split: if_splits sum.splits)
  with False p assms(1) show thesis by (intro ok [of p]) (auto simp: names_file_def models_def)
qed

lemma path_stat_sim:
  assumes "models os cwd s a" "a_on_path cwd path a (\<lambda>p. a_stat p a) = Some r"
    "real path (disk s) = (((- 1, st), Some ENOENT), disk s)"
  shows "agrees os cwd r (andthen (path_stat os real path s) (\<lambda>(x, s). Inr (reply_stat x s)))"
  using assms(1,2)
proof (cases rule: on_path_cases)
  case long
  with models_errno [OF assms(1)] show ?thesis by (simp add: agrees_def path_stat_def reply_stat_def reply_def)
next
  case (ok p)
  obtain P where P: "files_rel s P (a_files a)" "minv s" using assms(1) by (auto simp: models_def)
  show ?thesis
  proof (cases "a_files a p")
    case None
    then have "look s p = None" using files_rel_look [OF P(1)] by simp
    then have "path_stat os real path s = Inr ((- 1, Some st), s\<lparr>errno := ENOENT\<rparr>)"
      using ok(1) P(2) assms(3) by (simp add: path_stat_def names_file_def get_mbucket_look os_call_def)
    with None ok(2) models_errno [OF assms(1)] show ?thesis
      by (auto simp: agrees_def reply_stat_def reply_def a_stat_def a_fail_def)
  next
    case (Some f)
    from files_relD [OF P(1) Some] obtain m where m: "look s p = Some m" "fview s m (P m) f" .
    have "st_size (mb_s (mb_arr s m)) = length (a_bytes f)" using m(2) by (simp add: fview_def file_ok_def)
    with Some ok(2) path_stat_known [OF P(2) ok(1) m(1), of real] models_errno [OF assms(1)] show ?thesis
      by (auto simp: agrees_def reply_stat_def reply_def a_stat_def a_done_def)
  qed
qed

lemma sim_stat:
  assumes "models os cwd s a"
  shows "a_call cwd (Xstat path) a = Some r \<Longrightarrow> agrees os cwd r (call_answer os (Xstat path) s)"
    "a_call cwd (Lxstat path) a = Some r \<Longrightarrow> agrees os cwd r (call_answer os (Lxstat path) s)"
proof -
  obtain st st' where "os_stat os path (disk s) = (((- 1, st), Some ENOENT), disk s)"
      "os_lstat os path (disk s) = (((- 1, st'), Some ENOENT), disk s)"
    using assms by (auto simp: models_def no_files_def) metis
  note sim = path_stat_sim [OF assms, where real = "os_stat os", OF _ this(1)]
    path_stat_sim [OF assms, where real = "os_lstat os", OF _ this(2)]
  show "agrees os cwd r (call_answer os (Xstat path) s)" if "a_call cwd (Xstat path) a = Some r"
    using sim(1) that by (simp add: ufs_xstat_def)
  show "agrees os cwd r (call_answer os (Lxstat path) s)" if "a_call cwd (Lxstat path) a = Some r"
    using sim(2) that by (simp add: ufs_lxstat_def)
qed

lemma unlinked_mem:
  "same_data (unlinked h ys x s) s" "mem_kept A {x} s (unlinked h ys x s)"
proof -
  show sd: "same_data (unlinked h ys x s) s"
    unfolding unlinked_def relink_def
    by (rule same_data_trans [OF same_data_upd(1)]) (simp split: option.split)
  show "mem_kept A {x} s (unlinked h ys x s)"
    using same_dataD [OF sd] by (simp add: mem_kept_def unlinked_arr)
qed

lemma not_open:
  assumes "models os cwd s a" "\<not> list_ex (\<lambda>fd. a_fds a fd = Some p) user_fds"
  shows "p \<notin> ran (a_fds a)"
proof
  assume "p \<in> ran (a_fds a)"
  then obtain fd where fd: "a_fds a fd = Some p" by (auto simp: ran_def)
  then have "fd \<in> {FIRST_USER_FD..<MAX_NUM_FD}" using assms(1) by (auto simp: models_def fds_rel_def)
  with fd assms(2) show False by (auto simp: list_ex_iff user_fds_def)
qed

text \<open>A file that no descriptor is open on goes away.\<close>

lemma models_unlinked:
  assumes "models os cwd s a" "look s p = Some m" "minv (unlinked h ys m s)"
    "look (unlinked h ys m s) = (look s)(p := None)" "p \<notin> ran (a_fds a)"
  shows "models os cwd (unlinked h ys m s) (a\<lparr>a_files := (a_files a)(p := None)\<rparr>)"
proof -
  let ?t = "unlinked h ys m s"
  obtain P where P: "files_rel s P (a_files a)" "fds_rel s P (a_fds a)" "minv s" using assms(1) by (auto simp: models_def)
  note mem = unlinked_mem(2) [of "{}" m s h ys]
  have old: "q = p" if "look s q = Some m" for q using look_inj [OF P(3) that assms(2)] .
  have look': "look ?t q = Some n \<longleftrightarrow> q \<noteq> p \<and> look s q = Some n" for q n using assms(4) by auto
  have ran': "n \<in> ran (look ?t) \<longleftrightarrow> n \<noteq> m \<and> n \<in> ran (look s)" for n
  proof
    assume "n \<in> ran (look ?t)"
    then obtain q where "q \<noteq> p" "look s q = Some n" using look' by (auto simp: ran_def)
    with old show "n \<noteq> m \<and> n \<in> ran (look s)" by (auto simp: ran_def)
  next
    assume n: "n \<noteq> m \<and> n \<in> ran (look s)"
    then obtain q where "look s q = Some n" by (auto simp: ran_def)
    with n assms(2) have "look ?t q = Some n" unfolding look' by auto
    then show "n \<in> ran (look ?t)" by (rule ranI)
  qed
  have "files_rel ?t P ((a_files a)(p := None))"
    unfolding files_rel_def
  proof (intro conjI allI ballI impI)
    show "dom ((a_files a)(p := None)) = dom (look ?t)" using P(1) assms(4) by (simp add: files_rel_def)
    show "i \<in> ran (look ?t)" if "i < META_BUCKETS" "mb_in_use (mb_arr ?t i)" for i
      using that P(1) unfolding ran' unlinked_fields(3) files_rel_def by blast
    show "fview ?t n (P n) f" if "look ?t q = Some n" "((a_files a)(p := None)) q = Some f" for q n f
    proof -
      have q: "look s q = Some n" "q \<noteq> p" "a_files a q = Some f" using that look' by (auto split: if_splits)
      then have "n \<noteq> m" using old by blast
      with q P(1) fview_frame [OF mem, of n "P n" f] show ?thesis by (simp add: files_rel_def)
    qed
    show "set (P n) \<inter> set (P k) = {}" if "n \<in> ran (look ?t)" "k \<in> ran (look ?t)" "n \<noteq> k" for n k
      using that P(1) unfolding ran' files_rel_def by blast
  qed
  moreover have more: "mstate.more ?t = mstate.more s" by (rule unlinked_other(4))
  note env = more_env [OF more]
  have "fds_rel ?t P (a_fds a)"
  proof -
    have "fd_rel ?t P fd (a_fds a fd)" if "fd_rel s P fd (a_fds a fd)" for fd
    proof (cases "a_fds a fd")
      case (Some q)
      then have "q \<noteq> p" using assms(5) by (auto simp: ran_def)
      with Some that env(4) look' show ?thesis by (auto simp: fd_rel_def fd_open_def)
    qed (use that env(4) in \<open>simp add: fd_rel_def\<close>)
    with P(2) show ?thesis by (simp add: fds_rel_def)
  qed
  ultimately show ?thesis
    using assms(1,3) env fd_inv_cong [OF env(4)] same_dataD(8) [OF unlinked_mem(1)]
    by (intro modelsI) (auto simp: models_def)
qed

lemma sim_unlink:
  assumes "models os cwd s a" "a_call cwd (Unlink path) a = Some r"
  shows "agrees os cwd r (call_answer os (Unlink path) s)"
  using assms(1) assms(2) [unfolded a_call.simps]
proof (cases rule: on_path_cases)
  case long
  with models_errno [OF assms(1)] assms(1) show ?thesis
    by (simp add: agrees_def ufs_unlink_def reply_def models_def)
next
  case (ok p)
  obtain P where P: "files_rel s P (a_files a)" "fds_rel s P (a_fds a)" "minv s" "\<not> calling_shm_unlink s"
    using assms(1) by (auto simp: models_def)
  have okp: "ok_path p" "length path \<le> PATH_MAX" "full_path (os_getcwd os (disk s)) path = Inr p"
    using ok(1) by (auto simp: names_file_def)
  show ?thesis
  proof (cases "a_files a p")
    case None
    then have "look s p = None" using files_rel_look [OF P(1)] by simp
    from release_meta_bucket_missing [OF P(3) okp(1) this] None ok(2) okp P(4) models_errno [OF assms(1)] show ?thesis
      by (auto simp: agrees_def ufs_unlink_def reply_def a_fail_def)
  next
    case (Some f)
    from files_relD [OF P(1) Some] obtain m where m: "look s p = Some m" "fview s m (P m) f" .
    from release_meta_bucket_state [OF P(3) okp(1) m(1)] obtain h ys where
      u: "release_meta_bucket p s = Inr (0, unlinked h ys m s)" "minv (unlinked h ys m s)"
        "look (unlinked h ys m s) = (look s)(p := None)" .
    have free: "\<not> list_ex (\<lambda>fd. a_fds a fd = Some p) user_fds"
      and r: "r = (Answer 0 [] 0 0, a\<lparr>a_files := (a_files a)(p := None)\<rparr>)"
      using ok(2) Some by (auto simp: a_done_def split: if_splits)
    from models_errno [OF models_unlinked [OF assms(1) m(1) u(2,3) not_open [OF assms(1) free]]] u(1) r okp P(4) show ?thesis
      by (simp add: agrees_def ufs_unlink_def reply_def)
  qed
qed

text \<open>Renaming: the entry moves with its bucket, its chain and its descriptors.\<close>

lemma chpath_mem:
  assumes "x \<notin> set es"
  shows "same_data (chpath_state ho ys hn us es x nx new s) s"
    "mem_kept A (set es) s (chpath_state ho ys hn us es x nx new s)"
proof -
  have fr: "same_data (foldr (\<lambda>y. upd_mb y freed) es u) u" for u :: "'a mstate_scheme"
    by (induction es) (simp, simp, rule same_data_trans [OF same_data_upd(1)])
  have rl: "same_data (relink h prev ix u) u" for h prev ix and u :: "'a mstate_scheme"
    by (simp add: relink_def split: option.split)
  show sd: "same_data (chpath_state ho ys hn us es x nx new s) s"
    unfolding chpath_state_def moved_def
    by (rule same_data_trans [OF fr same_data_trans [OF rl same_data_trans [OF same_data_upd(1)
      same_data_trans [OF rl same_data_upd(1)]]]])
  have "k \<notin> set es \<Longrightarrow> last_dbucket (mb_arr (chpath_state ho ys hn us es x nx new s) k) = last_dbucket (mb_arr s k)"
      "k \<notin> set es \<Longrightarrow> last_db_offset (mb_arr (chpath_state ho ys hn us es x nx new s) k) = last_db_offset (mb_arr s k)" for k
    by (simp_all add: chpath_state_def foldr_freed moved_def relink_mb_arr)
  then show "mem_kept A (set es) s (chpath_state ho ys hn us es x nx new s)"
    unfolding mem_kept_def same_dataD(1,6) [OF sd] by (simp add: chpath_fields(4,5) [OF assms])
qed

lemma models_renamed:
  assumes m: "models os cwd s a" "look s p = Some m" "a_files a p = Some f" "q \<notin> ran (a_fds a)" "p \<noteq> q"
    and t: "minv t" "look t = (look s)(p := None, q \<mapsto> m)" "same_data t s" "mem_kept {} E s t"
      "E = {i. look s q = Some i}" "\<And>i. mb_in_use (mb_arr t i) = (mb_in_use (mb_arr s i) \<and> i \<notin> E)"
      "mstate.more t = mstate.more s"
  shows "models os cwd t (a\<lparr>a_files := (a_files a)(p := None, q \<mapsto> f),
      a_fds := (\<lambda>fd. if a_fds a fd = Some p then Some q else a_fds a fd)\<rparr>)"
proof -
  obtain P where P: "files_rel s P (a_files a)" "fds_rel s P (a_fds a)" "minv s" using m(1) by (auto simp: models_def)
  note inj = look_inj [OF P(3)]
  have look': "look t r = Some n \<longleftrightarrow> (if r = q then n = m else r \<noteq> p \<and> look s r = Some n)" for r n
    using t(2) by auto
  have old: "n \<notin> E" if "look s r = Some n" "r \<noteq> q" for r n using inj [OF that(1)] that(2) t(5) by auto
  have sub: "n \<in> ran (look s)" if "n \<in> ran (look t)" for n
    using that m(2) unfolding ran_def look' by (auto split: if_splits)
  have "files_rel t P ((a_files a)(p := None, q \<mapsto> f))"
    unfolding files_rel_def
  proof (intro conjI allI ballI impI)
    show "dom ((a_files a)(p := None, q \<mapsto> f)) = dom (look t)" using P(1) t(2) by (simp add: files_rel_def)
    show "i \<in> ran (look t)" if i: "i < META_BUCKETS" "mb_in_use (mb_arr t i)" for i
    proof -
      have "i \<in> ran (look s)" "i \<notin> E" using i P(1) unfolding t(6) files_rel_def by blast+
      then obtain r where "look s r = Some i" "r \<noteq> q" using t(5) by (auto simp: ran_def)
      with m(2) have "look t (if r = p then q else r) = Some i" unfolding look' by (auto split: if_splits)
      then show ?thesis by (rule ranI)
    qed
    show "fview t n (P n) g" if g: "look t r = Some n" "((a_files a)(p := None, q \<mapsto> f)) r = Some g" for r n g
    proof -
      obtain r' where "look s r' = Some n" "a_files a r' = Some g" "r' \<noteq> q"
        using g m(2,3,5) unfolding look' by (auto split: if_splits)
      with P(1) fview_frame [OF t(4), of n "P n" g] old show ?thesis by (auto simp: files_rel_def)
    qed
    show "set (P n) \<inter> set (P k) = {}" if "n \<in> ran (look t)" "k \<in> ran (look t)" "n \<noteq> k" for n k
      using that sub P(1) unfolding files_rel_def by blast
  qed
  moreover note env = more_env [OF t(7)]
  have "fds_rel t P (\<lambda>fd. if a_fds a fd = Some p then Some q else a_fds a fd)"
  proof -
    have "fd_rel t P fd (if a_fds a fd = Some p then Some q else a_fds a fd)" if "fd_rel s P fd (a_fds a fd)" for fd
    proof (cases "a_fds a fd")
      case (Some r)
      then have "r \<noteq> q" using m(4) by (auto simp: ran_def)
      with Some that env(4) look' m(2) show ?thesis by (auto simp: fd_rel_def fd_open_def)
    qed (use that env(4) in \<open>simp add: fd_rel_def\<close>)
    with P(2) show ?thesis by (auto simp: fds_rel_def dom_def split: if_splits)
  qed
  ultimately show ?thesis
    using m(1) t(1) env fd_inv_cong [OF env(4)] same_dataD(8) [OF t(3)]
    by (intro modelsI) (auto simp: models_def)
qed

lemma sim_rename_moves:
  assumes "models os cwd s a" "names_file os path p s" "names_file os newpath q s" "path \<noteq> newpath"
    "a_files a p = Some f" "rows_differ p q" "\<not> list_ex (\<lambda>fd. a_fds a fd = Some q) user_fds"
  shows "\<exists>t. ufs_rename os path newpath s = Inr (0, t\<lparr>errno := 0\<rparr>) \<and>
    models os cwd t (a\<lparr>a_files := (a_files a)(p := None, q \<mapsto> f),
      a_fds := (\<lambda>fd. if a_fds a fd = Some p then Some q else a_fds a fd)\<rparr>)"
proof -
  obtain P where P: "files_rel s P (a_files a)" "minv s" using assms(1) by (auto simp: models_def)
  from files_relD [OF P(1) assms(5)] obtain m where m: "look s p = Some m" .
  have ok: "ok_path p" "ok_path q" using assms(2,3) by (auto simp: names_file_def)
  have neq: "hash p \<noteq> hash q" "p \<noteq> q" using assms(6) by (auto simp: rows_differ_def)
  from mb_chpath_state [OF P(2) ok neq(1) m] obtain ho ys hn us es nx where
    c: "mb_chpath p q s = Inr (0, chpath_state ho ys hn us es m nx q s)" "minv (chpath_state ho ys hn us es m nx q s)"
      "look (chpath_state ho ys hn us es m nx q s) = (look s)(p := None, q \<mapsto> m)"
      "m \<notin> set es" "set es = {i. look s q = Some i}" .
  let ?c = "chpath_state ho ys hn us es m nx q s" and ?t = "MB_MODIFY m (chpath_state ho ys hn us es m nx q s)"
  note mem = chpath_mem [OF c(4), where ho = ho and ys = ys and hn = hn and us = us and nx = nx and new = q and s = s]
    and fl = chpath_fields [OF c(4), where ho = ho and ys = ys and hn = hn and us = us and nx = nx and new = q and s = s]
  have tab: "minv ?t = minv ?c" "look ?t = look ?c" by (rule rows_fields; simp add: MB_MODIFY_def)+
  have "mem_kept {} (set es) ?c ?t" by (simp add: mem_kept_def MB_MODIFY_sel same_dataD(1,6) [OF same_data_upd(6)])
  with mem(2) have k: "mem_kept {} (set es) s ?t" by (rule mem_kept_trans)
  have "models os cwd ?t (a\<lparr>a_files := (a_files a)(p := None, q \<mapsto> f),
      a_fds := (\<lambda>fd. if a_fds a fd = Some p then Some q else a_fds a fd)\<rparr>)"
  proof (rule models_renamed [OF assms(1) m assms(5) not_open [OF assms(1,7)] neq(2) _ _ _ k c(5)])
    show "same_data ?t s" by (rule same_data_trans [OF same_data_upd(6) mem(1)])
    show "mb_in_use (mb_arr ?t i) = (mb_in_use (mb_arr s i) \<and> i \<notin> set es)" for i
      using fl(3) [of i] by (auto simp: MB_MODIFY_def)
    show "mstate.more ?t = mstate.more s" using fl(7) by (simp add: MB_MODIFY_def)
  qed (use c(2,3) tab in simp_all)
  moreover have "get_mbucket q ?c = Inr (Some m, ?c)" using get_mbucket_look [OF c(2) ok(2)] c(3) by simp
  then have "ufs_rename os path newpath s = Inr (0, ?t\<lparr>errno := 0\<rparr>)"
    using assms(2-4) c(1) by (simp add: ufs_rename_def names_file_def)
  ultimately show ?thesis by blast
qed

lemma sim_rename:
  assumes "models os cwd s a" "a_call cwd (Rename path newpath) a = Some r"
  shows "agrees os cwd r (call_answer os (Rename path newpath) s)"
proof (cases "path = newpath")
  case True
  with assms models_errno [OF assms(1)] show ?thesis
    by (auto simp: agrees_def ufs_rename_def reply_def a_done_def)
next
  case False
  let ?k = "\<lambda>p q. case a_files a p of None \<Rightarrow> None
        | Some f \<Rightarrow>
            (if rows_differ p q \<and> \<not> list_ex (\<lambda>fd. a_fds a fd = Some q) user_fds then
               a_done 0 [] 0 (a\<lparr>a_files := (a_files a)(p := None, q \<mapsto> f),
                 a_fds := (\<lambda>fd. if a_fds a fd = Some p then Some q else a_fds a fd)\<rparr>)
             else None)"
  have too_long: ?thesis if "PATH_MAX < length path \<or> PATH_MAX < length newpath" "r = (Answer (- 1) [] 0 ENAMETOOLONG, a)"
    using that False models_errno [OF assms(1)] by (auto simp: agrees_def ufs_rename_def reply_def)
  from False assms(2) have "a_on_path cwd path a (\<lambda>p. a_on_path cwd newpath a (?k p)) = Some r" by simp
  with assms(1) show ?thesis
  proof (cases rule: on_path_cases)
    case long
    with too_long show ?thesis by blast
  next
    case (ok p)
    note p = ok(1)
    from assms(1) ok(2) show ?thesis
    proof (cases rule: on_path_cases)
      case long
      with too_long show ?thesis by blast
    next
      case (ok q)
      then obtain f where f: "a_files a p = Some f" "rows_differ p q" "\<not> list_ex (\<lambda>fd. a_fds a fd = Some q) user_fds"
        and r: "r = (Answer 0 [] 0 0, a\<lparr>a_files := (a_files a)(p := None, q \<mapsto> f),
          a_fds := (\<lambda>fd. if a_fds a fd = Some p then Some q else a_fds a fd)\<rparr>)"
        by (auto simp: a_done_def split: option.splits if_splits)
      from sim_rename_moves [OF assms(1) p ok(1) False f] models_errno r show ?thesis
        by (fastforce simp: agrees_def reply_def)
    qed
  qed
qed

section \<open>Opening\<close>

lemma files_room:
  assumes "minv s" "files_rel s P F"
  shows "card (dom F) < META_BUCKETS \<longleftrightarrow> (\<exists>i < META_BUCKETS. \<not> mb_in_use (mb_arr s i))"
proof -
  let ?U = "{i. i < META_BUCKETS \<and> mb_in_use (mb_arr s i)}"
  have "inj_on (\<lambda>p. the (look s p)) (dom (look s))"
    using look_inj [OF assms(1)] by (auto simp: inj_on_def)
  from card_image [OF this] have "card ((\<lambda>p. the (look s p)) ` dom (look s)) = card (dom F)"
    using assms(2) by (simp add: files_rel_def)
  moreover have "(\<lambda>p. the (look s p)) ` dom (look s) = ?U"
  proof
    show "(\<lambda>p. the (look s p)) ` dom (look s) \<subseteq> ?U" using look_in_use [OF assms(1)] by auto
    show "?U \<subseteq> (\<lambda>p. the (look s p)) ` dom (look s)"
    proof
      fix i assume "i \<in> ?U"
      then have "i \<in> ran (look s)" using assms(2) unfolding files_rel_def by blast
      then obtain p where "look s p = Some i" by (auto simp: ran_def)
      then show "i \<in> (\<lambda>p. the (look s p)) ` dom (look s)" by (intro image_eqI [of _ _ p]) auto
    qed
  qed
  ultimately have c: "card (dom F) = card ?U" by simp
  have sub: "?U \<subseteq> {..<META_BUCKETS}" by auto
  show ?thesis
  proof
    assume "card (dom F) < META_BUCKETS"
    with c have "?U \<noteq> {..<META_BUCKETS}" by (metis card_lessThan less_irrefl)
    with sub show "\<exists>i < META_BUCKETS. \<not> mb_in_use (mb_arr s i)" by blast
  next
    assume "\<exists>i < META_BUCKETS. \<not> mb_in_use (mb_arr s i)"
    with sub have "?U \<subset> {..<META_BUCKETS}" by blast
    from psubset_card_mono [OF _ this] c show "card (dom F) < META_BUCKETS" by simp
  qed
qed

lemma sim_open_existing:
  assumes "models os cwd s a" "names_file os path p s" "a_files a p = Some f" "a_open p f a = Some r"
    "\<not> has_flag flags O_APPEND" "\<not> has_flag flags O_CREAT \<or> \<not> O_TRUNC_CHECK flags \<and> \<not> has_flag flags O_EXCL"
  shows "agrees os cwd r (call_answer os (Open path flags mode) s)"
proof -
  obtain P where P: "files_rel s P (a_files a)" "fds_rel s P (a_fds a)" "minv s" "fd_inv s" "alloc_inv s"
    using assms(1) by (auto simp: models_def)
  from files_relD [OF P(1) assms(3)] obtain m where m: "look s p = Some m" "fview s m (P m) f" .
  obtain fd where fd: "find (\<lambda>fd. a_fds a fd = None) user_fds = Some fd"
    and r: "r = (Answer fd [] 0 0, (a_put p (f\<lparr>a_pos := 0\<rparr>) a)\<lparr>a_fds := (a_fds a)(fd \<mapsto> p)\<rparr>)"
    using assms(4) by (auto simp: a_open_def a_done_def split: option.splits)
  note low = lowest_free [OF P(2) fd]
  have op: "open_mb os path p flags mode s = Inr (Inr m, s)"
    using assms(2,6) by (intro open_mb_existing P(3) m(1)) (auto simp: names_file_def)
  note fin = ufs_open_finish [OF assms(2) op assms(5) low(1)]
  let ?o = "opened m fd s"
  have "file_ok s m (P m)" "m < META_BUCKETS" using m(2) look_in_use [OF P(3) m(1)] by (simp_all add: fview_def)
  note o = opened_file [OF this P(4) low(1)]
  note sd = opened_tables(1) [of m fd s]
  have v': "fview ?o m (P m @ []) (f\<lparr>a_pos := 0\<rparr>)"
    using o(2-4) m(2) same_data_chain [OF sd] by (simp add: fview_def)
  have "only_fd (nat fd) s ?o" by (simp add: only_fd_def opened_def upd_fd_def upd_mb_def)
  moreover have "fd_inv ?o" using endsD [OF ufs_open_inv [OF P(4)] fin] by simp
  moreover have "fd_rel ?o (P(m := P m @ [])) fd (Some p)"
    using o(1,5) m(1) opened_tables(4) [of m fd s] by (simp add: fd_rel_def)
  ultimately have "models os cwd ?o ((a_put p (f\<lparr>a_pos := 0\<rparr>) a)\<lparr>a_fds := (a_fds a)(fd \<mapsto> p)\<rparr>)"
    using P(5) by (intro models_upd [OF assms(1) P(1,2) m(1) assms(3) low(2,3) _ _ _ opened_mem v'])
      (simp_all add: opened_tables)
  moreover have "0 \<le> fd" using low(2) by (simp add: ufs_config)
  ultimately show ?thesis using fin r by (simp add: agrees_def reply_def)
qed

text \<open>Truncation of a file of one bucket.\<close>

lemma emptied_alloc: "alloc_inv s \<Longrightarrow> alloc_inv (emptied A s)"
  using emptied_dinv [of s A] by (simp add: alloc_inv_def core_inv_def) (simp add: emptied_def)

lemma short_chain:
  assumes "full s (butlast ps)" "length (content s ps) < DBUCKET_BUF_SIZE" "ps \<noteq> []"
  obtains d where "ps = [d]"
proof (cases ps rule: rev_cases)
  case (snoc us d)
  with assms(1) have "length (content s ps) = DBUCKET_BUF_SIZE * length us + db_bytes (dbs s d)"
    by (simp add: length_content_full)
  with assms(2) have "us = []" by (cases us) auto
  with snoc that show thesis by simp
qed (use assms(3) in simp)

lemma open_mb_truncates:
  assumes "minv s" "dinv s" "ok_path p" "look s p = Some m" "file_ok s m ps" "has_flag flags O_CREAT" "O_TRUNC_CHECK flags"
  obtains st c where "st_size st = 0" "open_mb os path p flags mode s =
    Inr (Inr m, MB_MODIFY m (upd_mb m (\<lambda>mb. mb\<lparr>mb_s := st\<rparr>) ((emptied (set ps) s)\<lparr>clock_pos := c\<rparr>)))"
proof -
  have "dchain s (first_dbucket (mb_arr s m)) ps" "ps \<noteq> []" using assms(5) by (auto simp: file_ok_def)
  note tr = truncate_chain_empties [OF assms(2) this]
  let ?e = "emptied (set ps) s"
  let ?u = "upd_mb m (\<lambda>mb. mb\<lparr>mb_s := (mb_s mb)\<lparr>st_size := 0, st_blocks := 1\<rparr>\<rparr>) ?e"
  obtain st c where st: "stamp_mb m (ST_MOD OR ST_CHG) ?u = Inr (upd_mb m (\<lambda>mb. mb\<lparr>mb_s := st\<rparr>) (?u\<lparr>clock_pos := c\<rparr>))"
      "st_size st = st_size (mb_s (mb_arr ?u m))"
    using stamp_mb_result [OF stamp_kinds(2), of m ?u] by blast
  have "upd_mb m (\<lambda>mb. mb\<lparr>mb_s := st\<rparr>) (?u\<lparr>clock_pos := c\<rparr>) = upd_mb m (\<lambda>mb. mb\<lparr>mb_s := st\<rparr>) (?e\<lparr>clock_pos := c\<rparr>)"
    by (auto simp: upd_mb_def intro!: mstate.equality ext)
  with st tr assms show thesis
    by (intro that [of st c]) (simp_all add: open_mb_def get_mbucket_look)
qed

lemma sim_open_truncates:
  assumes "models os cwd s a" "names_file os path p s" "a_files a p = Some f"
    "a_open p \<lparr>a_bytes = [], a_pos = 0\<rparr> a = Some r" "length (a_bytes f) < DBUCKET_BUF_SIZE"
    "\<not> has_flag flags O_APPEND" "has_flag flags O_CREAT" "O_TRUNC_CHECK flags"
  shows "agrees os cwd r (call_answer os (Open path flags mode) s)"
proof -
  obtain P where P: "files_rel s P (a_files a)" "fds_rel s P (a_fds a)" "minv s" "fd_inv s" "alloc_inv s"
    using assms(1) by (auto simp: models_def)
  from files_relD [OF P(1) assms(3)] obtain m where m: "look s p = Some m" "fview s m (P m) f" .
  have v: "file_ok s m (P m)" "content s (P m) = a_bytes f" "full s (butlast (P m))" using m(2) by (simp_all add: fview_def)
  obtain d where d: "P m = [d]" using short_chain [OF v(3)] v(1,2) assms(5) by (auto simp: file_ok_def)
  obtain fd where fd: "find (\<lambda>fd. a_fds a fd = None) user_fds = Some fd"
    and r: "r = (Answer fd [] 0 0, (a_put p \<lparr>a_bytes = [], a_pos = 0\<rparr> a)\<lparr>a_fds := (a_fds a)(fd \<mapsto> p)\<rparr>)"
    using assms(4) by (auto simp: a_open_def a_done_def split: option.splits)
  note low = lowest_free [OF P(2) fd]
  have okp: "ok_path p" "dinv s" using assms(2) P(5) by (simp_all add: names_file_def alloc_inv_def)
  let ?e = "emptied {d} s"
  from open_mb_truncates [OF P(3) okp(2,1) m(1) v(1) assms(7,8), of os path mode] obtain st c where st: "st_size st = 0"
    and op0: "open_mb os path p flags mode s =
      Inr (Inr m, MB_MODIFY m (upd_mb m (\<lambda>mb. mb\<lparr>mb_s := st\<rparr>) (?e\<lparr>clock_pos := c\<rparr>)))" unfolding d by auto
  define t where t: "t = MB_MODIFY m (upd_mb m (\<lambda>mb. mb\<lparr>mb_s := st\<rparr>) (?e\<lparr>clock_pos := c\<rparr>))"
  note op = op0 [folded t]
  let ?o = "opened m fd t"
  have sd: "same_data t ?e"
    unfolding t by (rule same_data_trans [OF same_data_upd(6) same_data_trans [OF same_data_upd(1) same_data_upd(5)]])
  have tab: "fdTable t = fdTable s" "hash_table t = hash_table s" "disk t = disk s"
      "calling_shm_open t = calling_shm_open s" "calling_shm_unlink t = calling_shm_unlink s"
    by (simp_all add: t MB_MODIFY_def upd_mb_def emptied_def)
  have mb: "first_dbucket (mb_arr t m) = first_dbucket (mb_arr s m)" "mb_s (mb_arr t m) = st"
      "k \<noteq> m \<Longrightarrow> mb_arr t k = mb_arr s k" for k
    by (simp_all add: t MB_MODIFY_sel) (simp_all add: emptied_def)
  have low1: "lowest_fd t fd" "fd_inv t" using low(1) P(4) tab(1) fd_inv_cong [OF tab(1)] by (simp_all add: lowest_fd_def)
  note fin = ufs_open_finish [OF assms(2) op assms(6) low1(1)]
  have ft: "file_ok t m [d]" "content t [d] = []"
  proof -
    have c: "dchain s (first_dbucket (mb_arr s m)) [d]" using v(1) unfolding d file_ok_def by blast
    note e = emptied_chain [OF c, of "{d}"]
    show ct: "content t [d] = []" unfolding same_data_chain(2) [OF sd] by (rule e(2)) simp
    show "file_ok t m [d]"
      unfolding file_ok_def ct mb(1,2) same_data_chain(1,3) [OF sd] using e(1,3) st by simp
  qed
  have "m < META_BUCKETS" using look_in_use [OF P(3) m(1)] by simp
  note o = opened_file [OF ft(1) this low1(2,1)]
  have v': "fview ?o m (P m @ []) \<lparr>a_bytes = [], a_pos = 0\<rparr>" using o(2-4) ft(2) d by (simp add: fview_def)
  have "only_fd (nat fd) s t" by (simp add: t only_fd_def MB_MODIFY_def upd_mb_def emptied_def)
  then have of: "only_fd (nat fd) s ?o" by (rule only_fd_trans) (simp add: only_fd_def opened_def upd_fd_def upd_mb_def)
  moreover have "fd_inv ?o" using endsD [OF ufs_open_inv [OF P(4)] fin] by simp
  moreover have "fd_rel ?o (P(m := P m @ [])) fd (Some p)"
    using o(1,5) m(1) d only_fd_names(2) [OF of] by (simp add: fd_rel_def)
  moreover have "mem_kept (set (P m)) {m} s t"
    using same_dataD(1,6) [OF sd] d by (simp add: mem_kept_def mb) (simp add: emptied_def)
  then have "mem_kept (set (P m)) {m} s ?o" by (rule mem_kept_trans [OF _ opened_mem])
  moreover have "alloc_inv ?o" using same_dataD(8) [OF sd] emptied_alloc [OF P(5)] by (simp add: opened_tables)
  ultimately have "models os cwd ?o ((a_put p \<lparr>a_bytes = [], a_pos = 0\<rparr> a)\<lparr>a_fds := (a_fds a)(fd \<mapsto> p)\<rparr>)"
    by (intro models_upd [OF assms(1) P(1,2) m(1) assms(3) low(2,3) _ _ _ _ v']) simp_all
  moreover have "0 \<le> fd" using low(2) by (simp add: ufs_config)
  ultimately show ?thesis using fin r by (simp add: agrees_def reply_def)
qed

lemma models_opened_new:
  assumes "models os cwd s a" "a_files a p = None" "find (\<lambda>fd. a_fds a fd = None) user_fds = Some fd"
    "quiet s s0" "has_new_file p m s0 s1" "disk s1 = disk s" "fd_inv (opened m fd s1)"
  shows "models os cwd (opened m fd s1) ((a_put p \<lparr>a_bytes = [], a_pos = 0\<rparr> a)\<lparr>a_fds := (a_fds a)(fd \<mapsto> p)\<rparr>)"
proof -
  let ?o = "opened m fd s1"
  obtain P where P: "files_rel s P (a_files a)" "fds_rel s P (a_fds a)" "minv s" "fd_inv s"
    using assms(1) by (auto simp: models_def)
  note low = lowest_free [OF P(2) assms(3)]
  note o = opened_new [OF assms(4,5) P(4) low(1)]
  have p: "look s p = None" using files_rel_look [OF P(1)] assms(2) by simp
  obtain d where d: "\<not> db_in_use (dbs s d)" "cache_ok (fdTable ?o (nat fd)) [d]"
    and v: "fview ?o m [d] \<lparr>a_bytes = [], a_pos = 0\<rparr>"
    using o(14) by (auto simp: fview_def)
  have new: "look s q \<noteq> Some m" for q using look_in_use(1) [OF P(3)] o(6) by blast
  have "files_rel ?o (P(m := [d])) ((a_files a)(p \<mapsto> \<lparr>a_bytes = [], a_pos = 0\<rparr>))"
  proof (rule files_rel_put [OF P(1,3) o(4,8) _ _ _ disjI1 [OF p] v])
    fix n assume n: "n \<in> ran (look s)"
    then obtain q where q: "look s q = Some n" by (auto simp: ran_def)
    then obtain g where "a_files a q = Some g" using files_rel_look [OF P(1), of q] by auto
    with q P(1) have "fview s n (P n) g" by (auto simp: files_rel_def)
    with d(1) fview_in_use [of s n "P n" g d] show "set (P n) \<inter> set [d] = {}" by auto
  qed (use o(7) new in auto)
  moreover have "fds_rel ?o (P(m := [d])) ((a_fds a)(fd \<mapsto> p))"
  proof (rule fds_rel_put [OF P(2) o(10) _ low(2,3)])
    show "look ?o q = Some n \<and> (\<exists>es. (P(m := [d])) n = P n @ es)" if "look s q = Some n" for fd' q n
      using that o(4) p new [of q] by auto
    show "fd_rel ?o (P(m := [d])) fd (Some p)" using o(4,9) d(2) by (simp add: fd_rel_def)
  qed
  ultimately show ?thesis
    using o(2,3,11-13) assms(1,6,7) by (intro modelsI) (auto simp: models_def a_put_def)
qed

lemma sim_open_new:
  assumes "models os cwd s a" "names_file os path p s" "a_files a p = None"
    "\<not> has_flag flags O_APPEND" "has_flag flags O_CREAT"
    "(if card (dom (a_files a)) < META_BUCKETS then a_open p \<lparr>a_bytes = [], a_pos = 0\<rparr> a else a_fail ENOSPC a) = Some r"
  shows "agrees os cwd r (call_answer os (Open path flags mode) s)"
proof -
  obtain P where P: "files_rel s P (a_files a)" "fds_rel s P (a_fds a)" "minv s" "fd_inv s" "alloc_inv s"
    using assms(1) by (auto simp: models_def)
  have p: "look s p = None" using files_rel_look [OF P(1)] assms(3) by simp
  obtain st where st: "os_stat os path (disk s) = (((- 1, st), Some ENOENT), disk s)"
    using assms(1) by (auto simp: models_def no_files_def)
  note new = open_mb_new [OF P(3,5) assms(2) p assms(5) disjI2, of mode]
  show ?thesis
  proof (cases "open_mb os path p flags mode s")
    case (Inl e)
    with new st assms(2) show ?thesis by (simp add: agrees_def ufs_open_def names_file_def)
  next
    case (Inr y)
    obtain x s1 where y: "y = (x, s1)" by force
    have dk: "disk s1 = disk s" using new Inr y st by simp
    show ?thesis
    proof (cases x)
      case (Inl e)
      with new Inr y st have e: "e = ENOSPC" "\<forall>i < META_BUCKETS. mb_in_use (mb_arr s i)" "quiet s s1" by auto
      then have "r = (Answer (- 1) [] 0 ENOSPC, a)"
        using assms(6) files_room [OF P(3,1)] by (auto simp: a_fail_def split: if_splits)
      moreover have "ufs_open os path flags mode s = Inr (- 1, s1\<lparr>errno := ENOSPC\<rparr>)"
        using assms(2) Inr y Inl e(1) by (simp add: ufs_open_def names_file_def)
      ultimately show ?thesis
        using models_errno [OF models_quiet [OF assms(1) e(3) dk]] by (simp add: agrees_def reply_def)
    next
      case x: (Inr m)
      with new Inr y st obtain s0 where s0: "quiet s s0" "has_new_file p m s0 s1" by auto
      have "m < META_BUCKETS" "\<not> mb_in_use (mb_arr s m)" using s0 by (auto simp: has_new_file_def quiet_def)
      then have "card (dom (a_files a)) < META_BUCKETS" using files_room [OF P(3,1)] by blast
      with assms(6) obtain fd where fd: "find (\<lambda>fd. a_fds a fd = None) user_fds = Some fd"
        and r: "r = (Answer fd [] 0 0, (a_put p \<lparr>a_bytes = [], a_pos = 0\<rparr> a)\<lparr>a_fds := (a_fds a)(fd \<mapsto> p)\<rparr>)"
        by (auto simp: a_open_def a_done_def split: option.splits)
      note low = lowest_free [OF P(2) fd]
      note fin = ufs_open_finish [OF assms(2) Inr [unfolded y x] assms(4) opened_new(1) [OF s0 P(4) low(1)]]
      have "fd_inv (opened m fd s1)" using endsD [OF ufs_open_inv [OF P(4)] fin] by simp
      from models_opened_new [OF assms(1,3) fd s0 dk this] have
        "models os cwd (opened m fd s1) ((a_put p \<lparr>a_bytes = [], a_pos = 0\<rparr> a)\<lparr>a_fds := (a_fds a)(fd \<mapsto> p)\<rparr>)" .
      moreover have "0 \<le> fd" using low(2) by (simp add: ufs_config)
      ultimately show ?thesis using fin r by (simp add: agrees_def reply_def)
    qed
  qed
qed

lemma sim_open:
  assumes "models os cwd s a" "a_call cwd (Open path flags mode) a = Some r"
  shows "agrees os cwd r (call_answer os (Open path flags mode) s)"
proof -
  from assms(2) have app: "\<not> has_flag flags O_APPEND" by (auto split: if_splits)
  note call = assms(2) [unfolded a_call.simps if_not_P [OF app]]
  from assms(1) obtain P where P: "files_rel s P (a_files a)" "minv s" "\<not> calling_shm_open s"
    by (auto simp: models_def)
  show ?thesis
    using assms(1) call
  proof (cases rule: on_path_cases)
    case long
    with models_errno [OF assms(1)] P(3) show ?thesis by (simp add: agrees_def ufs_open_def reply_def)
  next
    case (ok p)
    have okp: "ok_path p" using ok(1) by (simp add: names_file_def)
    have fails: "ufs_open os path flags mode s = Inr (- 1, t\<lparr>errno := e\<rparr>)"
      if "open_mb os path p flags mode s = Inr (Inl e, t)" for e t
      using that ok(1) by (simp add: ufs_open_def names_file_def)
    show ?thesis
    proof (cases "a_files a p")
      case (Some f)
      then have l: "look s p \<noteq> None" using files_rel_look [OF P(1)] by (metis option.distinct(1))
      consider (trunc) "has_flag flags O_CREAT" "O_TRUNC_CHECK flags"
        | (excl) "has_flag flags O_CREAT" "\<not> O_TRUNC_CHECK flags" "has_flag flags O_EXCL"
        | (plain) "\<not> has_flag flags O_CREAT \<or> \<not> O_TRUNC_CHECK flags \<and> \<not> has_flag flags O_EXCL" by blast
      then show ?thesis
      proof cases
        case trunc
        with ok(2) Some have "length (a_bytes f) < DBUCKET_BUF_SIZE" "a_open p \<lparr>a_bytes = [], a_pos = 0\<rparr> a = Some r"
          by (auto split: if_splits)
        with sim_open_truncates [OF assms(1) ok(1) Some _ _ app trunc] show ?thesis by blast
      next
        case excl
        with ok(2) Some have r: "r = (Answer (- 1) [] 0 EEXIST, a)" by (auto simp: a_fail_def)
        from l excl okp P(2) have "open_mb os path p flags mode s = Inr (Inl EEXIST, s)"
          by (auto simp: open_mb_def get_mbucket_look)
        with fails r models_errno [OF assms(1)] show ?thesis by (simp add: agrees_def reply_def)
      next
        case plain
        with ok(2) Some have "a_open p f a = Some r" by (auto split: if_splits)
        with sim_open_existing [OF assms(1) ok(1) Some _ app plain] show ?thesis by blast
      qed
    next
      case None
      then have l: "look s p = None" using files_rel_look [OF P(1)] by simp
      show ?thesis
      proof (cases "has_flag flags O_CREAT")
        case True
        with sim_open_new [OF assms(1) ok(1) None app True] ok(2) None show ?thesis by simp
      next
        case False
        obtain st where "os_stat os p (disk s) = (((- 1, st), Some ENOENT), disk s)"
          using assms(1) by (auto simp: models_def no_files_def)
        then have "open_mb os path p flags mode s = Inr (Inl ENOENT, s\<lparr>errno := ENOENT\<rparr>)"
          using False l okp P(2) by (simp add: open_mb_def get_mbucket_look upload_file_def os_call_def)
        with fails False ok(2) None models_errno [OF assms(1)] show ?thesis
          by (auto simp: agrees_def reply_def a_fail_def)
      qed
    qed
  qed
qed

section \<open>Programs\<close>

lemma sim_call:
  assumes "models os cwd s a" "a_call cwd c a = Some r"
  shows "agrees os cwd r (call_answer os c s)"
proof (cases c)
  case (Fsync fd)
  with assms show ?thesis by (auto simp: agrees_def ufs_fsync_def reply_def a_done_def)
qed (use assms in \<open>simp_all only: sim_open sim_close sim_read sim_write sim_pread sim_pwrite sim_unlink sim_rename sim_stat sim_fxstat\<close>)

interpretation library: simulation "models os cwd" "call_answer os" "a_call cwd" for os cwd
proof
  fix s a c x a'
  assume "models os cwd s a" "a_call cwd c a = Some (x, a')"
  from sim_call [OF this] show "case call_answer os c s of Inl e \<Rightarrow> e = Exit | Inr (y, s') \<Rightarrow> y = x \<and> models os cwd s' a'"
    by (simp add: agrees_def split: sum.splits prod.splits)
qed

section \<open>Calls that need no new bucket\<close>

lemma content_le: "dchain s ix ps \<Longrightarrow> length (content s ps) \<le> DBUCKET_BUF_SIZE * length ps"
  by (induction ps arbitrary: ix) (auto intro: add_mono)

text \<open>\<open>open\<close> of a file that exists, \<open>pread\<close>, and a \<open>write\<close> into the buckets the file has, always return.\<close>

lemma served_file:
  assumes "models os cwd s a" "a_fds a fd = Some p" "a_files a p = Some f"
  obtains m ps where "fd_open s fd m" "fview s m ps f" "cache_ok (fdTable s (nat fd)) ps"
proof -
  obtain P where P: "files_rel s P (a_files a)" "fds_rel s P (a_fds a)" using assms(1) by (auto simp: models_def)
  have "FIRST_USER_FD \<le> fd" "fd < MAX_NUM_FD" using P(2) assms(2) by (auto simp: fds_rel_def subset_iff)
  with P(2) assms(2) have "fd_rel s P fd (Some p)" by (metis fds_rel_def)
  then obtain m where m: "look s p = Some m" "fd_open s fd m" "cache_ok (fdTable s (nat fd)) (P m)"
    by (auto simp: fd_rel_def)
  with files_relD [OF P(1) assms(3)] have "fview s m (P m) f" by auto
  with m that show thesis by blast
qed

lemma open_returns:
  assumes "models os cwd s a" "a_key cwd path = Some p" "length path \<le> PATH_MAX" "a_files a p = Some f"
    "find (\<lambda>fd. a_fds a fd = None) user_fds = Some fd"
  shows "\<exists>y. call_answer os (Open path 0 mode) s = Inr y"
proof -
  obtain P where P: "files_rel s P (a_files a)" "fds_rel s P (a_fds a)" "minv s"
    using assms(1) by (auto simp: models_def)
  from files_relD [OF P(1) assms(4)] obtain m where m: "look s p = Some m" .
  have n: "names_file os path p s"
    using assms(1-3) by (auto simp: models_def a_key_def names_file_def split: if_splits sum.splits)
  have "open_mb os path p 0 mode s = Inr (Inr m, s)"
    using n by (intro open_mb_existing P(3) m) (auto simp: names_file_def has_flag_def)
  from ufs_open_finish [OF n this _ lowest_free(1) [OF P(2) assms(5)]] show ?thesis
    by (simp add: has_flag_def)
qed

lemma write_returns:
  assumes "models os cwd s a" "a_fds a fd = Some p" "a_files a p = Some f"
    "a_pos f + length buf \<le> max DBUCKET_BUF_SIZE (length (a_bytes f))"
  shows "\<exists>y. call_answer os (Write fd buf) s = Inr y"
proof -
  obtain m ps where m: "fd_open s fd m" "fview s m ps f" by (rule served_file [OF assms(1-3)])
  then have v: "file_ok s m ps" "content s ps = a_bytes f" "cursor_at s m ps (a_pos f)" "ps \<noteq> []"
    by (auto simp: fview_def cursor_at_def at_fpos_def)
  have "length (a_bytes f) \<le> DBUCKET_BUF_SIZE * length ps"
    using v(1) content_le [of s _ ps] unfolding v(2) [symmetric] file_ok_def by blast
  moreover have "DBUCKET_BUF_SIZE \<le> DBUCKET_BUF_SIZE * length ps" using v(4) by (cases ps) auto
  ultimately have "a_pos f + length buf \<le> DBUCKET_BUF_SIZE * length ps" using assms(4) by linarith
  then have "\<not> DBUCKET_BUF_SIZE * (length ps + k) < a_pos f + length buf" for k
    by (simp add: distrib_left)
  moreover have "alloc_inv s" using assms(1) by (simp add: models_def)
  ultimately obtain y where "ufs_write os fd buf s = Inr y"
    using ufs_write_space [OF _ m(1) v(1,3), of os buf] by (cases "ufs_write os fd buf s") auto
  then show ?thesis by (cases y) simp
qed

lemma pread_returns:
  assumes "models os cwd s a" "a_fds a fd = Some p" "a_files a p = Some f"
    "0 \<le> off" "off \<le> int (length (a_bytes f))" "off < 2 ^ 31 * int DBUCKET_BUF_SIZE"
  shows "\<exists>y. call_answer os (Pread fd n off) s = Inr y"
proof -
  obtain m ps where m: "fd_open s fd m" "fview s m ps f" "cache_ok (fdTable s (nat fd)) ps"
    by (rule served_file [OF assms(1-3)])
  have v: "file_ok s m ps" "content s ps = a_bytes f" "dinv s"
    using m(2) assms(1) by (auto simp: fview_def models_def alloc_inv_def)
  have o: "nat off \<le> length (content s ps)" "nat off < 2 ^ 31 * DBUCKET_BUF_SIZE"
    using assms(4-6) v(2) by (simp_all add: nat_less_iff)
  from ufs_pread_result [OF v(3) m(1) v(1) m(3) o, of os n] assms(4) show ?thesis by auto
qed

end
