(* ===== verification/Ufs_Exec.thy ===== *)
theory Ufs_Exec
  imports Ufs_Process
begin

text \<open>
  Properties of the process code: the slot of a process in the shared array, and what \<open>exec\<close> keeps
  of the descriptors of the library.
\<close>

section \<open>Slots\<close>

text \<open>No two slots have the same pid.\<close>

definition pid_table :: "(nat \<Rightarrow> pid_info) \<Rightarrow> bool" where
  "pid_table m \<longleftrightarrow> (\<forall>i < MAX_EXEC_HANGING. \<forall>j < MAX_EXEC_HANGING. pi_pid (m i) = pi_pid (m j) \<and> pi_pid (m i) \<noteq> 0 \<longrightarrow> i = j)"

text \<open>The process with slot \<open>k\<close>.\<close>

definition slotted :: "nat \<Rightarrow> ('d, 'z) pstate_scheme \<Rightarrow> ('d, 'z) pstate_scheme" where
  "slotted k s = upd_pid k (\<lambda>p. p\<lparr>pi_pid := kpid s\<rparr>) (s\<lparr>pid_meta_ind := k, pid_meta_ind_set := True\<rparr>)"

lemma slotted_sel [simp]:
  "pid_meta (slotted k s) = (pid_meta s)(k := (pid_meta s k)\<lparr>pi_pid := kpid s\<rparr>)"
  "pid_meta_ind (slotted k s) = k" "pid_meta_ind_set (slotted k s)"
  "kpid (slotted k s) = kpid s" "kuid (slotted k s) = kuid s" "pid (slotted k s) = pid s" "uid (slotted k s) = uid s"
  "fd_shm (slotted k s) = fd_shm s" "backup_fds (slotted k s) = backup_fds s"
  "fdTable (slotted k s) = fdTable s" "disk (slotted k s) = disk s"
  by (simp_all add: slotted_def upd_pid_def)

lemma slotted_id:
  assumes "pi_pid (pid_meta s k) = kpid s" "pid_meta_ind s = k" "pid_meta_ind_set s"
  shows "slotted k s = s"
  using assms by (simp add: slotted_def upd_pid_def fun_upd_idem)

lemma find_pid_Some: "find_pid p j m = Some i \<Longrightarrow> j \<le> i \<and> i < MAX_EXEC_HANGING \<and> pi_pid (m i) = p"
proof (induction p j m rule: find_pid.induct)
  case (1 p j m)
  then show ?case by (subst (asm) (2) find_pid.simps) (fastforce split: if_splits)
qed

lemma find_pid_None: "find_pid p j m = None \<Longrightarrow> j \<le> i \<Longrightarrow> i < MAX_EXEC_HANGING \<Longrightarrow> pi_pid (m i) \<noteq> p"
proof (induction p j m rule: find_pid.induct)
  case (1 p j m)
  then show ?case by (subst (asm) (2) find_pid.simps) (cases "i = j"; force split: if_splits)
qed

text \<open>The search for a new slot: locking and unlocking leaves no trace.\<close>

lemma new_pid_loop_result:
  "case new_pid_loop i s of
     Inl e \<Rightarrow> e = Exit \<and> (\<forall>j. i \<le> j \<and> j < MAX_EXEC_HANGING \<longrightarrow> pi_pid (pid_meta s j) \<noteq> 0 \<or> pi_lock (pid_meta s j))
   | Inr (k, s') \<Rightarrow> k < MAX_EXEC_HANGING \<and> pi_pid (pid_meta s k) = 0 \<and> \<not> pi_lock (pid_meta s k) \<and>
       s' = s\<lparr>pid_meta_ind := k, pid_meta_ind_set := True\<rparr>"
proof (induction i s rule: new_pid_loop.induct)
  case (1 i s)
  let ?free = "i < MAX_EXEC_HANGING \<and> pi_pid (pid_meta s i) = 0 \<and> \<not> pi_lock (pid_meta s i)"
  consider (take) ?free | (last) "\<not> i < MAX_EXEC_HANGING" | (skip) "i < MAX_EXEC_HANGING" "\<not> ?free" by blast
  then show ?case
  proof cases
    case take
    then have "(pid_meta s i)\<lparr>pi_lock := False\<rparr> = pid_meta s i" by simp
    with take show ?thesis
      by (subst new_pid_loop.simps) (simp add: trylock_pid_info_def unlock_pid_info_def upd_pid_def fun_upd_idem)
  next
    case last
    then show ?thesis by (subst new_pid_loop.simps) auto
  next
    case skip
    then have r: "new_pid_loop i s = new_pid_loop (Suc i) s"
      by (subst new_pid_loop.simps) (auto simp: trylock_pid_info_def)
    have "case new_pid_loop (Suc i) s of
        Inl e \<Rightarrow> e = Exit \<and> (\<forall>j. Suc i \<le> j \<and> j < MAX_EXEC_HANGING \<longrightarrow> pi_pid (pid_meta s j) \<noteq> 0 \<or> pi_lock (pid_meta s j))
      | Inr (k, s') \<Rightarrow> k < MAX_EXEC_HANGING \<and> pi_pid (pid_meta s k) = 0 \<and> \<not> pi_lock (pid_meta s k) \<and>
          s' = s\<lparr>pid_meta_ind := k, pid_meta_ind_set := True\<rparr>"
      using 1 skip by (cases "pi_pid (pid_meta s i) = 0") (auto simp: trylock_pid_info_def)
    moreover have "i \<le> j \<longleftrightarrow> i = j \<or> Suc i \<le> j" for j by auto
    ultimately show ?thesis unfolding r using skip by (auto split: sum.splits)
  qed
qed

definition has_slot :: "('d, 'z) pstate_scheme \<Rightarrow> bool" where
  "has_slot s \<longleftrightarrow> (\<exists>j < MAX_EXEC_HANGING.
     pi_pid (pid_meta s j) = kpid s \<or> pi_pid (pid_meta s j) = 0 \<and> \<not> pi_lock (pid_meta s j))"

text \<open>The slot is the process's own one or a free one.\<close>

lemma get_pid_meta_ind_result:
  assumes "pid_meta_ind_set s \<longrightarrow> pid_meta_ind s < MAX_EXEC_HANGING"
  shows "case get_pid_meta_ind s of
      Inl e \<Rightarrow> e = Exit \<and> \<not> has_slot s
    | Inr (k, s') \<Rightarrow> s' = slotted k s \<and> k < MAX_EXEC_HANGING \<and>
        (pi_pid (pid_meta s k) = kpid s \<or>
         pi_pid (pid_meta s k) = 0 \<and> (\<forall>j < MAX_EXEC_HANGING. pi_pid (pid_meta s j) \<noteq> kpid s))"
proof (cases "pid_meta_ind_set s \<and> pi_pid (pid_meta s (pid_meta_ind s)) = kpid s")
  case True
  with assms slotted_id [of s "pid_meta_ind s"] show ?thesis by (simp add: get_pid_meta_ind_def)
next
  case False
  show ?thesis
  proof (cases "find_pid (kpid s) 0 (pid_meta s)")
    case None
    with find_pid_None have n: "\<forall>j < MAX_EXEC_HANGING. pi_pid (pid_meta s j) \<noteq> kpid s" by blast
    with None False new_pid_loop_result [of 0 s] show ?thesis
      by (auto simp: get_pid_meta_ind_def get_new_pid_meta_ind_def has_slot_def slotted_def split: sum.splits)
  next
    case (Some j)
    from find_pid_Some [OF this] have j: "j < MAX_EXEC_HANGING" "pi_pid (pid_meta s j) = kpid s" by simp_all
    then have "(pid_meta s)(j := (pid_meta s j)\<lparr>pi_pid := kpid s\<rparr>) = pid_meta s" by (simp add: fun_upd_idem)
    then have "slotted j s = s\<lparr>pid_meta_ind := j, pid_meta_ind_set := True\<rparr>" by (simp add: slotted_def upd_pid_def)
    with Some False j show ?thesis by (auto simp: get_pid_meta_ind_def)
  qed
qed

lemma get_pid_meta_ind_own: "get_pid_meta_ind (slotted k s) = Inr (k, slotted k s)"
  by (simp add: get_pid_meta_ind_def)

lemma pid_table_slotted:
  assumes "pid_table (pid_meta s)" "kpid s \<noteq> 0" "k < MAX_EXEC_HANGING"
    "pi_pid (pid_meta s k) = kpid s \<or> (\<forall>j < MAX_EXEC_HANGING. pi_pid (pid_meta s j) \<noteq> kpid s)"
  shows "pid_table (pid_meta (slotted k s))"
    "{j. j < MAX_EXEC_HANGING \<and> pi_pid (pid_meta (slotted k s) j) = kpid s} = {k}"
  using assms by (auto simp: pid_table_def)

text \<open>
  (C14) The slot of a process. \<open>get_pid_meta_ind\<close> answers with the one slot that has the pid of the
  process, registering it in a free slot when there is none; it keeps the pids of the slots different
  and touches no other slot, a second call gives the same slot and changes nothing, and
  \<open>remove_pid_slot\<close> takes the process out of the array again. The process exits only when it has no
  slot and none is free.
\<close>

theorem pid_slot_registered:
  assumes "pid_table (pid_meta s)" "kpid s \<noteq> 0" "pid_meta_ind_set s \<longrightarrow> pid_meta_ind s < MAX_EXEC_HANGING"
  shows "case get_pid_meta_ind s of
      Inl e \<Rightarrow> e = Exit \<and> \<not> has_slot s
    | Inr (k, s') \<Rightarrow> pid_table (pid_meta s') \<and>
        {j. j < MAX_EXEC_HANGING \<and> pi_pid (pid_meta s' j) = kpid s} = {k} \<and>
        (\<forall>j. j = k \<or> pid_meta s' j = pid_meta s j) \<and> get_pid_meta_ind s' = Inr (k, s') \<and>
        (case remove_pid_slot s' of Inl e \<Rightarrow> False
         | Inr s'' \<Rightarrow> {j. j < MAX_EXEC_HANGING \<and> pi_pid (pid_meta s'' j) = kpid s} = {} \<and>
             (\<forall>j. j = k \<or> pid_meta s'' j = pid_meta s j))"
proof (cases "get_pid_meta_ind s")
  case (Inl e)
  with get_pid_meta_ind_result [OF assms(3)] show ?thesis by simp
next
  case (Inr ks)
  then obtain k where k: "get_pid_meta_ind s = Inr (k, slotted k s)" "k < MAX_EXEC_HANGING"
      "pi_pid (pid_meta s k) = kpid s \<or> (\<forall>j < MAX_EXEC_HANGING. pi_pid (pid_meta s j) \<noteq> kpid s)"
    using get_pid_meta_ind_result [OF assms(3)] by (cases ks) auto
  note t = pid_table_slotted [OF assms(1,2) k(2,3)]
  have rm: "remove_pid_slot (slotted k s) = Inr (upd_pid k (\<lambda>p. p\<lparr>pi_pid := 0, fds_backed_up := False,
      first_parent_signaled := False, vforked := False\<rparr>) (slotted k s))"
    by (simp add: remove_pid_slot_def get_pid_meta_ind_own)
  have "{j. j < MAX_EXEC_HANGING \<and> pi_pid (((pid_meta (slotted k s))(k := q)) j) = kpid s} = {}" if "pi_pid q = 0" for q
    using t(2) that assms(2) by (auto simp del: slotted_sel(1))
  with t show ?thesis unfolding k(1) sum.case prod.case rm get_pid_meta_ind_own by (simp add: upd_pid_def)
qed

text \<open>A process of user 1000 with pid 7 on an empty file system, before any process has a slot.\<close>

definition boot_pstate :: "unit pstate" where
  "boot_pstate = boot_mstate
     \<lparr>fdTable = (\<lambda>_. fd_slot), errno = 0, calling_shm_open = False, calling_shm_unlink = False,
      clock_src = (\<lambda>k. \<lparr>tv_sec = int k, tv_nsec = 0\<rparr>), clock_pos = 1, disk = (),
      mainm_seg = True, pid_seg = True,
      pid_meta = (\<lambda>_. \<lparr>pi_pid = 0, fds_backed_up = False, first_parent_signaled = False, vforked = False, pi_lock = False\<rparr>),
      fd_shm = (\<lambda>_. None), kuid = 1000, kpid = 7, uid = 1000, pid = 7, pid_meta_ind = 0, pid_meta_ind_set = False,
      backup_fds = None, ufs_init_called = True, glob_umask = 2\<rparr>"

lemma boot_pstate_proc:
  "pid_meta boot_pstate i = \<lparr>pi_pid = 0, fds_backed_up = False, first_parent_signaled = False, vforked = False, pi_lock = False\<rparr>"
  "kpid boot_pstate = 7" "kuid boot_pstate = 1000" "\<not> pid_meta_ind_set boot_pstate" "backup_fds boot_pstate = None"
  "fd_shm boot_pstate = (\<lambda>_. None)" "fdTable boot_pstate = (\<lambda>_. fd_slot)" "mainm_seg boot_pstate" "pid_seg boot_pstate"
  by (simp_all add: boot_pstate_def boot_mstate_def boot_dstate_def)

theorem pid_slot_registered_witness:
  "\<exists>k s'. get_pid_meta_ind boot_pstate = Inr (k, s') \<and> {j. j < MAX_EXEC_HANGING \<and> pi_pid (pid_meta s' j) = 7} = {k}"
proof -
  have "pid_table (pid_meta boot_pstate)" by (simp add: pid_table_def boot_pstate_proc)
  moreover have "has_slot boot_pstate"
    by (auto simp: has_slot_def boot_pstate_proc MAX_EXEC_HANGING_def intro!: exI [of _ 0])
  moreover note r = pid_slot_registered [of boot_pstate]
  ultimately obtain k s' where ks: "get_pid_meta_ind boot_pstate = Inr (k, s')"
    by (cases "get_pid_meta_ind boot_pstate") (auto simp: boot_pstate_proc)
  from r \<open>pid_table (pid_meta boot_pstate)\<close>
  have "{j. j < MAX_EXEC_HANGING \<and> pi_pid (pid_meta s' j) = 7} = {k}"
    unfolding ks by (simp add: boot_pstate_proc)
  with ks show ?thesis by blast
qed

section \<open>Saving the descriptors\<close>

text \<open>The old image after \<open>exec_fd_backup\<close>.\<close>

definition backed :: "nat \<Rightarrow> ('d, 'z) pstate_scheme \<Rightarrow> ('d, 'z) pstate_scheme" where
  "backed k s = upd_pid k (\<lambda>p. p\<lparr>fds_backed_up := True\<rparr>)
     ((slotted k s)\<lparr>pid := kpid s, uid := kuid s, calling_shm_open := False,
        fd_shm := (fd_shm s)((kuid s, kpid s) \<mapsto> copy_table (fdTable s) (\<lambda>_. zero_fd)),
        backup_fds := Some ((kuid s, kpid s), False)\<rparr>)"

lemma exec_fd_backup_result:
  assumes "pid_meta_ind_set s \<longrightarrow> pid_meta_ind s < MAX_EXEC_HANGING" "has_slot s"
    "backup_fds s = None" "fd_shm s (kuid s, kpid s) = None"
  shows "\<exists>k < MAX_EXEC_HANGING. exec_fd_backup s = Inr (backed k s) \<and>
    (pi_pid (pid_meta s k) = kpid s \<or> (\<forall>j < MAX_EXEC_HANGING. pi_pid (pid_meta s j) \<noteq> kpid s))"
proof -
  let ?s = "s\<lparr>pid := kpid s, uid := kuid s\<rparr>"
  have "has_slot ?s" using assms(2) by (simp add: has_slot_def)
  then obtain k where k: "get_pid_meta_ind ?s = Inr (k, slotted k ?s)" "k < MAX_EXEC_HANGING"
      "pi_pid (pid_meta s k) = kpid s \<or> (\<forall>j < MAX_EXEC_HANGING. pi_pid (pid_meta s j) \<noteq> kpid s)"
    using get_pid_meta_ind_result [of ?s] assms(1) by (auto split: sum.splits)
  then have "exec_fd_backup s = Inr (backed k s)"
    using assms(3,4) by (simp add: exec_fd_backup_def Let_def backed_def upd_pid_def slotted_def)
  with k show ?thesis by blast
qed

lemma exec_fd_backup_twice:
  assumes "pid_meta_ind_set s \<longrightarrow> pid_meta_ind s < MAX_EXEC_HANGING"
    "backup_fds s = None" "fd_shm s (kuid s, kpid s) \<noteq> None"
  shows "exec_fd_backup s = Inl Exit"
proof -
  let ?s = "s\<lparr>pid := kpid s, uid := kuid s\<rparr>"
  show ?thesis
    using get_pid_meta_ind_result [of ?s] assms
    by (cases "get_pid_meta_ind ?s") (auto simp: exec_fd_backup_def Let_def)
qed

section \<open>Loading another image\<close>

text \<open>The file to execute is known to the library with its data, or not at all.\<close>

definition exec_ready :: "('d, 'x) pos_scheme \<Rightarrow> string \<Rightarrow> ('d, 'z) pstate_scheme \<Rightarrow> bool" where
  "exec_ready os path s \<longleftrightarrow> minv s \<and> dinv s \<and>
     (\<exists>fpath. full_path (os_getcwd os (disk s)) path = Inr fpath \<and> ok_path fpath \<and>
        (\<forall>m. look s fpath = Some m \<longrightarrow> (\<exists>ps. file_ok s m ps)))"

lemma os_call_form:
  obtains r d e where "os_call f s = (r, s\<lparr>disk := d, errno := e\<rparr>)"
  by (cases "f (disk s)") (auto simp: os_call_def split: prod.splits)

lemma write_to_disk_form:
  assumes "disk_image junk (st_size (mb_s (mb_arr s m))) (first_dbucket (mb_arr s m)) s = Inr (buf, s)"
  shows "\<exists>d e. write_to_disk os junk m s = Inr (s\<lparr>disk := d, errno := e\<rparr>)"
proof -
  let ?u = "\<lambda>d e. s\<lparr>disk := d, errno := e\<rparr>"
  obtain fd d e where o: "os_call (os_open os (mb_path (mb_arr s m)) (2 OR 64 OR 512) (st_mode (mb_s (mb_arr s m)))) s = (fd, ?u d e)"
    by (rule os_call_form)
  obtain r d' e' where w: "os_call (os_write os fd buf) (?u d e) = (r, ?u d' e')"
    by (rule os_call_form [of "os_write os fd buf" "?u d e"]) simp
  obtain r' d'' e'' where c: "os_call (os_close os fd) (?u d' e') = (r', ?u d'' e'')"
    by (rule os_call_form [of "os_close os fd" "?u d' e'"]) simp
  have "write_to_disk os junk m s = Inr (?u d'' e'')"
    unfolding write_to_disk_def assms andthen.simps prod.case o w c ..
  then show ?thesis by (intro exI)
qed

lemma exec_file_in_shm_result:
  assumes "exec_ready os path s"
  shows "\<exists>d e. exec_file_in_shm os path s = Inr (s\<lparr>disk := d, errno := e\<rparr>)"
proof -
  obtain fpath where f: "full_path (os_getcwd os (disk s)) path = Inr fpath" "ok_path fpath" "minv s" "dinv s"
      "\<And>m. look s fpath = Some m \<Longrightarrow> \<exists>ps. file_ok s m ps"
    using assms by (auto simp: exec_ready_def)
  note g = get_mbucket_look [OF f(3,2)]
  show ?thesis
  proof (cases "look s fpath")
    case None
    with f(1) g have "exec_file_in_shm os path s = Inr (s\<lparr>disk := disk s, errno := errno s\<rparr>)"
      by (simp add: exec_file_in_shm_def)
    then show ?thesis by blast
  next
    case (Some m)
    then obtain ps where "file_ok s m ps" using f(5) by blast
    from disk_block [OF f(4) this, of "os_junk os"] write_to_disk_form
    have "\<exists>d e. write_to_disk os (os_junk os) m s = Inr (s\<lparr>disk := d, errno := e\<rparr>)" by blast
    with Some f(1) g show ?thesis by (simp add: exec_file_in_shm_def)
  qed
qed

lemma backed_data: "same_data (backed k s) s" "hash_table (backed k s) = hash_table s" "mb_arr (backed k s) = mb_arr s"
    "disk (backed k s) = disk s"
  by (simp_all add: backed_def slotted_def upd_pid_def same_data_def dstate.defs)

lemma exec_ready_backed: "exec_ready os path (backed k s) = exec_ready os path s"
proof -
  note b = backed_data [of k s]
  have "minv (backed k s) = minv s" "look (backed k s) = look s" by (rule rows_fields; simp add: b)+
  then show ?thesis
    using same_dataD(7) [OF b(1)] same_data_chain [OF b(1)] by (simp add: exec_ready_def file_ok_def b)
qed

text \<open>The state in which the system loads the new image: nothing has been lost.\<close>

lemma ufs_execv_result:
  assumes "pid_meta_ind_set s \<longrightarrow> pid_meta_ind s < MAX_EXEC_HANGING" "has_slot s"
    "backup_fds s = None" "fd_shm s (kuid s, kpid s) = None" "exec_ready os path s" "\<forall>d. fst (os_execv os path args d)"
  shows "\<exists>k d e. k < MAX_EXEC_HANGING \<and> ufs_execv os path args s = Inr ((backed k s)\<lparr>disk := d, errno := e\<rparr>) \<and>
    (pi_pid (pid_meta s k) = kpid s \<or> (\<forall>j < MAX_EXEC_HANGING. pi_pid (pid_meta s j) \<noteq> kpid s))"
proof -
  obtain k where k: "k < MAX_EXEC_HANGING" "exec_fd_backup s = Inr (backed k s)"
      "pi_pid (pid_meta s k) = kpid s \<or> (\<forall>j < MAX_EXEC_HANGING. pi_pid (pid_meta s j) \<noteq> kpid s)"
    using exec_fd_backup_result [OF assms(1-4)] by blast
  obtain d e where "exec_file_in_shm os path (backed k s) = Inr ((backed k s)\<lparr>disk := d, errno := e\<rparr>)"
    using exec_file_in_shm_result [of os path "backed k s"] assms(5) exec_ready_backed by blast
  moreover obtain d' where "os_execv os path args d = (True, d')" using assms(6) by (metis prod.collapse)
  ultimately have "ufs_execv os path args s = Inr ((backed k s)\<lparr>disk := d', errno := e\<rparr>)"
    using k(2) by (simp add: ufs_execv_def real_exec_def)
  with k show ?thesis by blast
qed

section \<open>The constructor\<close>

text \<open>The shared memory, and what the kernel knows of the process.\<close>

definition shared_kept :: "('d, 'z) pstate_scheme \<Rightarrow> ('d, 'z) pstate_scheme \<Rightarrow> bool" where
  "shared_kept s s' \<longleftrightarrow> hash_table s' = hash_table s \<and> mb_arr s' = mb_arr s \<and> dbs s' = dbs s \<and> sysg s' = sysg s \<and>
     segs s' = segs s \<and> cores_seg s' = cores_seg s \<and> cmem s' = cmem s \<and> mainm_seg s' = mainm_seg s \<and>
     pid_seg s' = pid_seg s \<and> kuid s' = kuid s \<and> kpid s' = kpid s"

text \<open>The segments a process maps when it starts.\<close>

definition mounted :: "('d, 'z) pstate_scheme \<Rightarrow> bool" where
  "mounted s \<longleftrightarrow> mainm_seg s \<and> pid_seg s \<and>
     1 \<le> dbucket_steps (sysg s) \<and> dbucket_steps (sysg s) \<le> int MAX_DATA_BUCKETS_STEPS \<and>
     (\<forall>k. int k < dbucket_steps (sysg s) \<longrightarrow> segs s k)"

lemma open_map_global_memd_result:
  assumes "mounted s" "data_steps s = (\<lambda>_. False)"
  shows "\<exists>c i b. open_map_global_memd s = Inr (s\<lparr>last_core_num := c, last_core_ix := i, cmem_mapped := b,
      data_steps := (\<lambda>k. int k < dbucket_steps (sysg s))\<rparr>) \<and>
      (alloc_method (sysg s) = 3 \<or> alloc_method (sysg s) = 4 \<longrightarrow> c = - 1)"
proof -
  let ?n = "dbucket_steps (sysg s)"
  let ?u = "\<lambda>c i b. s\<lparr>last_core_num := c, last_core_ix := i, cmem_mapped := b\<rparr>"
  have "map_steps [0 .. ?n - 1] (?u c i b) =
      Inr ((?u c i b)\<lparr>data_steps := (\<lambda>k. k \<in> nat ` set [0 .. ?n - 1] \<or> data_steps s k)\<rparr>)" for c i b
    using assms(1) map_steps_range [of "[0 .. ?n - 1]" "?u c i b"] by (simp add: mounted_def)
  moreover have "(\<lambda>k. k \<in> nat ` set [0 .. ?n - 1] \<or> data_steps s k) = (\<lambda>k. int k < ?n)"
    using assms(2) by (auto simp: fun_eq_iff image_iff intro!: bexI [of _ "int _"])
  ultimately have m: "map_steps [0 .. ?n - 1] (?u c i b) = Inr ((?u c i b)\<lparr>data_steps := (\<lambda>k. int k < ?n)\<rparr>)" for c i b
    by simp
  have "\<exists>c i b. open_map_global_memd s = map_steps [0 .. ?n - 1] (?u c i b) \<and>
      (alloc_method (sysg s) = 3 \<or> alloc_method (sysg s) = 4 \<longrightarrow> c = - 1)"
  proof (cases "alloc_method (sysg s) = 3 \<or> alloc_method (sysg s) = 4")
    case False
    then have "open_map_global_memd s = map_steps [0 .. ?n - 1] (?u (last_core_num s) (last_core_ix s) (cmem_mapped s))"
      by (simp add: open_map_global_memd_def)
    with False show ?thesis by blast
  qed (auto simp: open_map_global_memd_def Let_def)
  with m show ?thesis by metis
qed

lemma init_fdTable_sel [simp]:
  fixes s :: "('d, 'z) pstate_scheme"
  shows "hash_table (init_fdTable s) = hash_table s" "mb_arr (init_fdTable s) = mb_arr s" "dbs (init_fdTable s) = dbs s"
    "sysg (init_fdTable s) = sysg s" "segs (init_fdTable s) = segs s" "cores_seg (init_fdTable s) = cores_seg s"
    "cmem (init_fdTable s) = cmem s" "cpu_src (init_fdTable s) = cpu_src s" "disk (init_fdTable s) = disk s"
    "ustate.more (init_fdTable s) = ustate.more s"
    "mainm_seg (init_fdTable s) = mainm_seg s" "pid_seg (init_fdTable s) = pid_seg s"
    "kuid (init_fdTable s) = kuid s" "kpid (init_fdTable s) = kpid s" "pid_meta (init_fdTable s) = pid_meta s"
    "fd_shm (init_fdTable s) = fd_shm s" "backup_fds (init_fdTable s) = backup_fds s"
    "ufs_init_called (init_fdTable s) = ufs_init_called s" "calling_shm_unlink (init_fdTable s) = calling_shm_unlink s"
    "fdTable (init_fdTable (s\<lparr>ufs_init_called := v\<rparr>)) = fdTable (init_fdTable s)"
  by (simp_all add: init_fdTable_def)

text \<open>The process is registered and has everything mapped.\<close>

definition attached :: "nat \<Rightarrow> ('d, 'z) pstate_scheme \<Rightarrow> ('d, 'z) pstate_scheme \<Rightarrow> bool" where
  "attached k s s' \<longleftrightarrow> shared_kept s s' \<and> ufs_init_called s' \<and> uid s' = kuid s \<and> pid s' = kpid s \<and>
     fd_shm s' = fd_shm s \<and> backup_fds s' = backup_fds s \<and>
     k < MAX_EXEC_HANGING \<and> pid_meta_ind s' = k \<and> pid_meta_ind_set s' \<and>
     (pi_pid (pid_meta s k) = kpid s \<or> pi_pid (pid_meta s k) = 0 \<and> (\<forall>j < MAX_EXEC_HANGING. pi_pid (pid_meta s j) \<noteq> kpid s)) \<and>
     data_steps s' = (\<lambda>k. int k < dbucket_steps (sysg s)) \<and> alloc_method_ind s' = alloc_method (sysg s) \<and>
     cpu_src s' = cpu_src s \<and> \<not> calling_shm_open s' \<and> calling_shm_unlink s' = calling_shm_unlink s \<and>
     (alloc_method (sysg s) = 3 \<or> alloc_method (sysg s) = 4 \<longrightarrow> last_core_num s' = - 1)"

lemma ufs_init_mem_result:
  assumes "mounted s" "has_slot s"
  shows "\<exists>k s'. ufs_init_mem os s = Inr s' \<and> attached k s s' \<and> disk s' = disk s \<and>
    fdTable s' = fdTable (init_fdTable s) \<and> pid_meta s' = (pid_meta s)(k := (pid_meta s k)\<lparr>pi_pid := kpid s\<rparr>)"
proof -
  let ?a = "(init_fdTable (s\<lparr>ufs_init_called := True\<rparr>))
     \<lparr>glob_umask := 2, pid_meta_ind := 0, pid_meta_ind_set := False, uid := kuid s, pid := kpid s,
      rand_src := os_srand os ((os_usec os (disk s) * 314) smod kpid s), rand_pos := 0, data_steps := (\<lambda>_. False),
      calling_shm_open := False\<rparr>"
  have "mounted ?a" "data_steps ?a = (\<lambda>_. False)" using assms(1) by (simp_all add: mounted_def)
  from open_map_global_memd_result [OF this] obtain c i b where
    m: "open_map_global_memd ?a = Inr (?a\<lparr>last_core_num := c, last_core_ix := i, cmem_mapped := b,
          data_steps := (\<lambda>k. int k < dbucket_steps (sysg ?a))\<rparr>)" (is "_ = Inr ?b")
      and core: "alloc_method (sysg s) = 3 \<or> alloc_method (sysg s) = 4 \<longrightarrow> c = - 1" by auto
  have h: "has_slot ?b" using assms(2) by (simp add: has_slot_def)
  then obtain k where k: "get_pid_meta_ind ?b = Inr (k, slotted k ?b)" "k < MAX_EXEC_HANGING"
      "pi_pid (pid_meta s k) = kpid s \<or> pi_pid (pid_meta s k) = 0 \<and> (\<forall>j < MAX_EXEC_HANGING. pi_pid (pid_meta s j) \<noteq> kpid s)"
    using get_pid_meta_ind_result [of ?b] by (auto split: sum.splits)
  let ?c = "(slotted k ?b)\<lparr>pid_meta_ind := k, alloc_method_ind := alloc_method (sysg (slotted k ?b))\<rparr>"
  have p: "open_map_pid_meta_mem ?b = Inr ?b" using assms(1) by (simp add: open_map_pid_meta_mem_def mounted_def)
  have g: "open_map_global_memm ((init_fdTable (s\<lparr>ufs_init_called := True\<rparr>))
     \<lparr>glob_umask := 2, pid_meta_ind := 0, pid_meta_ind_set := False, uid := kuid s, pid := kpid s,
      rand_src := os_srand os ((os_usec os (disk s) * 314) smod kpid s), rand_pos := 0, data_steps := (\<lambda>_. False)\<rparr>) = Inr ?a"
    using assms(1) by (simp add: open_map_global_memm_def mounted_def)
  have "ufs_init_mem os s = Inr ?c"
    using g m p k(1) by (simp add: ufs_init_mem_def Let_def)
  moreover have "attached k s ?c"
    using k(2,3) core by (simp add: attached_def shared_kept_def slotted_def upd_pid_def)
  moreover have "disk ?c = disk s" "fdTable ?c = fdTable (init_fdTable s)"
      "pid_meta ?c = (pid_meta s)(k := (pid_meta s k)\<lparr>pi_pid := kpid s\<rparr>)"
    by (simp_all add: slotted_def upd_pid_def)
  ultimately show ?thesis by blast
qed

section \<open>Descriptors over \<open>exec\<close>\<close>

lemma ufs_close_system_form:
  assumes "0 \<le> fd" "fd < MAX_NUM_FD" "exclusive (fdTable s (nat fd))"
  shows "\<exists>r d e f. ufs_close os fd s = Inr (r, s\<lparr>disk := d, errno := e, fdTable := f\<rparr>)"
proof -
  obtain r d e where o: "os_call (os_close os fd) s = (r, s\<lparr>disk := d, errno := e\<rparr>)" by (rule os_call_form)
  show ?thesis
  proof (cases "r = 0")
    case True
    with o assms have "\<exists>f. ufs_close os fd s = Inr (0, s\<lparr>disk := d, errno := e, fdTable := f\<rparr>)"
      by (auto simp: ufs_close_def FDDES_def reset_fd_def upd_fd_def Let_def intro!: exI)
    then show ?thesis by blast
  next
    case False
    with o assms have "ufs_close os fd s = Inr (r, s\<lparr>disk := d, errno := e, fdTable := fdTable s\<rparr>)"
      by (simp add: ufs_close_def FDDES_def)
    then show ?thesis by blast
  qed
qed

definition no_cloexec :: "('d, 'z) ustate_scheme \<Rightarrow> bool" where
  "no_cloexec s \<longleftrightarrow> (\<forall>i. int i < MAX_NUM_FD \<longrightarrow> fd_empty (fdTable s i) \<or> fd_flags (fdTable s i) AND FD_CLOEXEC = 0)"

lemma close_cloexec_none:
  assumes "no_cloexec s"
  shows "close_cloexec os s = Inr s"
proof -
  have "cloexec_loop os i s = Inr s" for i
    using assms
  proof (induction os i s rule: cloexec_loop.induct)
    case (1 os i s)
    then show ?case by (subst cloexec_loop.simps) (auto simp: no_cloexec_def)
  qed
  then show ?thesis by (simp add: close_cloexec_def)
qed

text \<open>A process that runs with the library: registered or able to register, no \<open>exec\<close> under way.\<close>

definition running :: "('d, 'z) pstate_scheme \<Rightarrow> bool" where
  "running s \<longleftrightarrow> mounted s \<and> pid_table (pid_meta s) \<and> kpid s \<noteq> 0 \<and>
     (pid_meta_ind_set s \<longrightarrow> pid_meta_ind s < MAX_EXEC_HANGING) \<and> has_slot s \<and> backup_fds s = None"

lemma init_fdTable_system:
  "0 \<le> fd \<Longrightarrow> fd < FIRST_USER_FD \<Longrightarrow> exclusive (fdTable (init_fdTable s) (nat fd))"
  by (simp add: init_fdTable_def init_fd_def clear_cache_def ufs_config)

text \<open>The constructor of an image whose process has a slot with saved descriptors.\<close>

lemma ufs_init_restores:
  assumes "mounted s" "\<not> ufs_init_called s" "pid_table (pid_meta s)" "kpid s \<noteq> 0" "backup_fds s = None"
    "k < MAX_EXEC_HANGING" "pi_pid (pid_meta s k) = kpid s" "fds_backed_up (pid_meta s k)"
    "fd_shm s (kuid s, kpid s) = Some seg" "\<forall>d. 0 \<le> os_shm_fd os d \<and> os_shm_fd os d < FIRST_USER_FD"
    "\<forall>i. int i < MAX_NUM_FD \<longrightarrow> fd_empty (seg i) \<or> fd_flags (seg i) AND FD_CLOEXEC = 0"
  shows "\<exists>s'. ufs_init os s = Inr s' \<and> attached k s s' \<and> (\<forall>i. int i < MAX_NUM_FD \<longrightarrow> fdTable s' i = seg i) \<and>
    pid_meta s' = (pid_meta s)(k := (pid_meta s k)\<lparr>fds_backed_up := False\<rparr>)"
proof -
  have "has_slot s" using assms(6,7) by (auto simp: has_slot_def)
  then obtain k' t where t: "ufs_init_mem os s = Inr t" "attached k' s t" "fdTable t = fdTable (init_fdTable s)"
      "pid_meta t = (pid_meta s)(k' := (pid_meta s k')\<lparr>pi_pid := kpid s\<rparr>)"
    using ufs_init_mem_result [OF assms(1), of os] by blast
  have k: "k' = k" using t(2) assms(3,4,6,7) by (auto simp: attached_def pid_table_def)
  then have pm: "pid_meta t = pid_meta s" using t(4) assms(7) by (simp add: fun_upd_idem)
  let ?fd = "os_shm_fd os (disk t)" and ?t = "t\<lparr>calling_shm_open := False\<rparr>"
  have fd: "0 \<le> ?fd" "?fd < FIRST_USER_FD" using assms(10) by simp_all
  then obtain r d e f where c: "ufs_close os ?fd ?t = Inr (r, ?t\<lparr>disk := d, errno := e, fdTable := f\<rparr>)"
    using ufs_close_system_form [of ?fd ?t os] init_fdTable_system [OF fd, of s] t(3) by (auto simp: ufs_config)
  let ?u = "?t\<lparr>disk := d, errno := e, fdTable := copy_table seg f\<rparr>"
  have "fd_shm t (uid t, pid t) = Some seg" using t(2) assms(9) by (simp add: attached_def)
  then have rs: "restore_fd_backup os t = Inr ?u" using c fd by (simp add: restore_fd_backup_def)
  have "no_cloexec ?u" using assms(11) by (simp add: no_cloexec_def copy_table_def)
  note cc = close_cloexec_none [OF this, of os]
  let ?v = "upd_pid k (\<lambda>p. p\<lparr>fds_backed_up := False\<rparr>) ?u"
  have ind: "pid_meta_ind t = k" using t(2) k by (simp add: attached_def)
  then have "ufs_init os s = Inr ?v"
    using assms(2,8) t(1) rs cc pm by (simp add: ufs_init_def)
  moreover have "attached k s ?v" using t(2) k by (simp add: attached_def shared_kept_def upd_pid_def)
  ultimately show ?thesis using pm by (auto simp: upd_pid_def copy_table_def)
qed

lemma loaded_backed:
  fixes s :: "('d, 'z) pstate_scheme"
  shows "pid_meta (load_image ((backed k s)\<lparr>disk := d, errno := e\<rparr>)) =
      (pid_meta s)(k := (pid_meta s k)\<lparr>pi_pid := kpid s, fds_backed_up := True\<rparr>)"
    "fd_shm (load_image ((backed k s)\<lparr>disk := d, errno := e\<rparr>)) =
      (fd_shm s)((kuid s, kpid s) \<mapsto> copy_table (fdTable s) (\<lambda>_. zero_fd))"
    "backup_fds (load_image ((backed k s)\<lparr>disk := d, errno := e\<rparr>)) = None"
    "\<not> ufs_init_called (load_image ((backed k s)\<lparr>disk := d, errno := e\<rparr>))"
    "shared_kept s (load_image ((backed k s)\<lparr>disk := d, errno := e\<rparr>))"
  by (simp_all add: load_image_def backed_def slotted_def upd_pid_def shared_kept_def)

lemma shared_kept_mounted: "shared_kept s t \<Longrightarrow> mounted t = mounted s"
  by (simp add: shared_kept_def mounted_def)

lemma pid_table_cong: "(\<And>j. pi_pid (m j) = pi_pid (m' j)) \<Longrightarrow> pid_table m = pid_table m'"
  by (simp add: pid_table_def)

lemma pid_table_flag:
  "pid_table (m(k := (m k)\<lparr>pi_pid := p, fds_backed_up := b\<rparr>)) = pid_table (m(k := (m k)\<lparr>pi_pid := p\<rparr>))"
  "pid_table (m(k := (m k)\<lparr>fds_backed_up := b\<rparr>)) = pid_table m"
  by (rule pid_table_cong; simp)+

lemma exec_then_init:
  assumes "running s" "fd_shm s (kuid s, kpid s) = None" "exec_ready os path s" "\<forall>d. fst (os_execv os path args d)"
    "\<forall>d. 0 \<le> os_shm_fd os d \<and> os_shm_fd os d < FIRST_USER_FD" "no_cloexec s"
  shows "\<exists>s'. andthen (ufs_execv os path args s) (\<lambda>t. ufs_init os (load_image t)) = Inr s' \<and> running s' \<and>
    shared_kept s s' \<and> (\<forall>i. int i < MAX_NUM_FD \<longrightarrow> fdTable s' i = fdTable s i) \<and> dinv s' \<and>
    alloc_method_ind s' = alloc_method (sysg s) \<and> fd_shm s' (kuid s', kpid s') \<noteq> None"
proof -
  have run: "mounted s" "pid_table (pid_meta s)" "kpid s \<noteq> 0" "pid_meta_ind_set s \<longrightarrow> pid_meta_ind s < MAX_EXEC_HANGING"
      "has_slot s" "backup_fds s = None"
    using assms(1) by (simp_all add: running_def)
  obtain k d e where k: "k < MAX_EXEC_HANGING" "ufs_execv os path args s = Inr ((backed k s)\<lparr>disk := d, errno := e\<rparr>)"
      "pi_pid (pid_meta s k) = kpid s \<or> (\<forall>j < MAX_EXEC_HANGING. pi_pid (pid_meta s j) \<noteq> kpid s)"
    using ufs_execv_result [OF run(4-6) assms(2-4)] by blast
  let ?t = "load_image ((backed k s)\<lparr>disk := d, errno := e\<rparr>)"
  note t = loaded_backed [where k = k and s = s and d = d and e = e]
  have id: "kpid ?t = kpid s" "kuid ?t = kuid s" "sysg ?t = sysg s" using t(5) by (simp_all add: shared_kept_def)
  have pt: "pid_table (pid_meta ?t)"
    using pid_table_slotted(1) [OF run(2,3) k(1,3)] unfolding t(1) pid_table_flag(1) by simp
  have "\<exists>s'. ufs_init os ?t = Inr s' \<and> attached k ?t s' \<and>
      (\<forall>i. int i < MAX_NUM_FD \<longrightarrow> fdTable s' i = copy_table (fdTable s) (\<lambda>_. zero_fd) i) \<and>
      pid_meta s' = (pid_meta ?t)(k := (pid_meta ?t k)\<lparr>fds_backed_up := False\<rparr>)"
    using run(1,3) k(1) pt assms(5,6) t(3,4) shared_kept_mounted [OF t(5)]
    by (intro ufs_init_restores) (simp_all add: id t(1,2) no_cloexec_def copy_table_def)
  then obtain s' where s': "ufs_init os ?t = Inr s'" "attached k ?t s'"
      "\<And>i. int i < MAX_NUM_FD \<Longrightarrow> fdTable s' i = fdTable s i"
      "pid_meta s' = (pid_meta ?t)(k := (pid_meta ?t k)\<lparr>fds_backed_up := False\<rparr>)"
    by (auto simp: copy_table_def)
  have sk: "shared_kept s s'" using t(5) s'(2) by (simp add: attached_def shared_kept_def)
  have "pid_table (pid_meta s')" using pt unfolding s'(4) pid_table_flag .
  moreover have "has_slot s'" using sk k(1) unfolding has_slot_def s'(4) t(1) by (auto simp: shared_kept_def)
  ultimately have "running s'"
    using run(1,3) k(1) s'(2) t(3) sk shared_kept_mounted [OF sk]
    by (simp add: running_def attached_def shared_kept_def)
  moreover have "dinv s'" using assms(3) s'(2) sk
    by (simp add: exec_ready_def dinv_def attached_def shared_kept_def live_def)
  moreover have "alloc_method_ind s' = alloc_method (sysg s)" "fd_shm s' (kuid s', kpid s') \<noteq> None"
    using s'(2) sk t(2) id by (auto simp: attached_def shared_kept_def)
  ultimately show ?thesis using k(2) s'(1,3) sk by auto
qed

text \<open>
  (C13) A process that executes another program keeps its files. The old image saves its descriptor
  table in a shared segment, the constructor of the library in the new image finds it and restores
  it: both calls return, the new image has every descriptor of the old one and sees the shared memory
  unchanged, with every step of data buckets mapped. The assumptions are that the system loads the
  program and gives \<open>shm_open\<close> one of its own descriptor numbers, that this process has not
  executed another program before, and that no open descriptor is marked to be closed.
\<close>

theorem exec_keeps_descriptors:
  assumes "running s" "fd_shm s (kuid s, kpid s) = None" "exec_ready os path s" "\<forall>d. fst (os_execv os path args d)"
    "\<forall>d. 0 \<le> os_shm_fd os d \<and> os_shm_fd os d < FIRST_USER_FD" "no_cloexec s"
  shows "\<exists>s'. andthen (ufs_execv os path args s) (\<lambda>t. ufs_init os (load_image t)) = Inr s' \<and> running s' \<and>
    shared_kept s s' \<and> (\<forall>i. int i < MAX_NUM_FD \<longrightarrow> fdTable s' i = fdTable s i) \<and> dinv s' \<and>
    alloc_method_ind s' = alloc_method (sysg s)"
  using exec_then_init [OF assms] by blast

text \<open>
  (C15) A process can execute another program only once. The saved table of the first \<open>exec\<close> stays in
  its segment, as the comment at \<open>restore_fd_backup\<close> intends, but the new image does not keep the
  pointer to it, so the next \<open>exec\<close> tries to create the segment exclusively and ends the process,
  whichever of the three calls it is.
\<close>

theorem second_exec_exits:
  assumes "running s" "fd_shm s (kuid s, kpid s) = None" "exec_ready os path s" "\<forall>d. fst (os_execv os path args d)"
    "\<forall>d. 0 \<le> os_shm_fd os d \<and> os_shm_fd os d < FIRST_USER_FD" "no_cloexec s"
  shows "\<exists>s'. andthen (ufs_execv os path args s) (\<lambda>t. ufs_init os (load_image t)) = Inr s' \<and>
    ufs_execv os path' args' s' = Inl Exit \<and> ufs_execvp os path' args' s' = Inl Exit \<and>
    ufs_execve os libpath path' args' envp s' = Inl Exit"
proof -
  obtain s' where s': "andthen (ufs_execv os path args s) (\<lambda>t. ufs_init os (load_image t)) = Inr s'"
      "running s'" "fd_shm s' (kuid s', kpid s') \<noteq> None"
    using exec_then_init [OF assms] by blast
  then have "exec_fd_backup s' = Inl Exit" by (intro exec_fd_backup_twice) (simp_all add: running_def)
  with s'(1) show ?thesis by (auto simp: ufs_execv_def ufs_execvp_def ufs_execve_def)
qed

text \<open>A system on which \<open>exec\<close> loads any program and every other call fails.\<close>

definition exec_os :: "unit pos" where
  "exec_os = os.extend null_os (pos.fields (\<lambda>_ _ d. (True, d)) (\<lambda>_ _ d. (True, d)) (\<lambda>_ _ _ d. (True, d))
     (\<lambda>_. 5) (\<lambda>_. 1) (\<lambda>_ _. 0) (\<lambda>_. 0))"

lemma boot_pstate_runs:
  "running boot_pstate" "fd_shm boot_pstate (kuid boot_pstate, kpid boot_pstate) = None"
  "exec_ready exec_os ''/a'' boot_pstate" "\<forall>d. fst (os_execv exec_os ''/a'' [] d)"
  "\<forall>d. 0 \<le> os_shm_fd exec_os d \<and> os_shm_fd exec_os d < FIRST_USER_FD" "no_cloexec boot_pstate"
proof -
  have "mounted boot_pstate"
    by (auto simp: mounted_def boot_pstate_proc)
      (simp_all add: boot_pstate_def boot_mstate_def boot_dstate_def ufs_config)
  then show "running boot_pstate"
    by (auto simp: running_def boot_pstate_proc pid_table_def has_slot_def MAX_EXEC_HANGING_def intro!: exI [of _ 0])
  have "minv boot_pstate" "look boot_pstate p = None" "dinv boot_pstate" for p
    unfolding boot_pstate_def using boot_minv boot_look by (simp_all add: boot_mstate_def boot_dinv)
  moreover have "full_path (os_getcwd exec_os (disk boot_pstate)) ''/a'' = Inr ''/a''"
    by (simp add: full_path_def build_abs_path_def char_at_def Let_def fits_path_def ufs_config)
  ultimately show "exec_ready exec_os ''/a'' boot_pstate"
    using sample_paths by (auto simp: exec_ready_def)
qed (simp_all add: exec_os_def os.defs pos.defs null_os_def boot_pstate_proc no_cloexec_def fd_slot_def ufs_config)

theorem exec_keeps_descriptors_witness:
  "\<exists>s'. andthen (ufs_execv exec_os ''/a'' [] boot_pstate) (\<lambda>t. ufs_init exec_os (load_image t)) = Inr s' \<and>
     fdTable s' 1024 = fd_slot \<and> alloc_method_ind s' = 1"
  using exec_keeps_descriptors [OF boot_pstate_runs]
  by (auto simp: boot_pstate_proc ufs_config) (auto simp: boot_pstate_def boot_mstate_def boot_dstate_def)

theorem second_exec_exits_witness:
  "\<exists>s'. andthen (ufs_execv exec_os ''/a'' [] boot_pstate) (\<lambda>t. ufs_init exec_os (load_image t)) = Inr s' \<and>
     ufs_execv exec_os ''/a'' [] s' = Inl Exit"
  using second_exec_exits [OF boot_pstate_runs, of "''/a''" "[]" "''/lib''" "[]"] by blast

end
