(* ===== verification/Ufs_Mount.thy ===== *)
theory Ufs_Mount
  imports Ufs_Exec Ufs_Daemon
begin

text \<open>
  The daemon together with the processes: what a process finds when it starts on a file system the
  daemon has just created, and that the end of a daemon leaves room for the next.
\<close>

section \<open>A new file system\<close>

text \<open>An empty name table, free data buckets and free slots.\<close>

definition fresh :: "int \<Rightarrow> ('d, 'z) pstate_scheme \<Rightarrow> bool" where
  "fresh meth s \<longleftrightarrow> mounted s \<and> rows_ok s (\<lambda>_. []) \<and>
     dbucket_steps (sysg s) = int TOTAL_STEPS_ALLOWED \<and> alloc_method (sysg s) = meth \<and>
     (3 \<le> meth \<longrightarrow> cores_seg s \<and> 1 \<le> ncores (sysg s) \<and> ncores (sysg s) \<le> int tot_buckets) \<and>
     (\<forall>i < META_BUCKETS. \<not> mb_in_use (mb_arr s i)) \<and>
     (\<forall>p < live s. \<not> db_in_use (dbs s p) \<and> \<not> db_lock (dbs s p) \<and> db_next_ix (dbs s p) = - 1 \<and> db_bytes (dbs s p) = 0) \<and>
     (\<forall>j < MAX_EXEC_HANGING. pi_pid (pid_meta s j) = 0 \<and> \<not> fds_backed_up (pid_meta s j) \<and> \<not> pi_lock (pid_meta s j))"

text \<open>No segment of the user exists.\<close>

definition unmounted :: "('d, 'z) pstate_scheme \<Rightarrow> bool" where
  "unmounted s \<longleftrightarrow> \<not> mainm_seg s \<and> \<not> pid_seg s \<and> \<not> cores_seg s \<and> (\<forall>k. \<not> segs s k)"

lemma create_steps_all:
  assumes "\<forall>k. \<not> segs s k"
  shows "create_steps [0 ..< TOTAL_STEPS_ALLOWED] s =
    Inr (s\<lparr>segs := (\<lambda>k. k < 2), data_steps := (\<lambda>k. k < 2 \<or> data_steps s k),
      dbs := (\<lambda>p. if p < 2 * DATA_BUCKETS_STEP then init_dbucket (dbs s p) else dbs s p)\<rparr>)"
proof -
  have "[0 ..< TOTAL_STEPS_ALLOWED] = [0, 1]" by (simp add: TOTAL_STEPS_ALLOWED_def upt_rec)
  moreover have "p < 2 * DATA_BUCKETS_STEP \<longleftrightarrow> p div DATA_BUCKETS_STEP = 0 \<or> p div DATA_BUCKETS_STEP = Suc 0" for p
    by (auto simp: ufs_config)
  moreover have "(k :: nat) < 2 \<longleftrightarrow> k = 0 \<or> k = Suc 0" for k by auto
  ultimately show ?thesis using assms by (auto simp: create_step_def fun_eq_iff intro!: arg_cong [of _ _ Inr])
qed

lemma init_mount_mem_fresh:
  assumes "unmounted s" "1 \<le> alloc_method_ind s" "alloc_method_ind s \<le> 4"
    "3 \<le> alloc_method_ind s \<longrightarrow> 1 \<le> num_cores \<and> num_cores \<le> int tot_buckets"
  shows "\<exists>t. init_mount_mem num_cores s = Inr t \<and> fresh (alloc_method_ind s) t \<and> cpu_src t = cpu_src s \<and> disk t = disk s \<and>
    alloc_method_ind t = alloc_method_ind s \<and> (\<forall>k. int k < dbucket_steps (sysg t) \<longrightarrow> data_steps t k)"
proof -
  let ?a = "upd_sysg (\<lambda>g. g\<lparr>dbucket_steps := int TOTAL_STEPS_ALLOWED, ncores := num_cores, alloc_method := alloc_method_ind s\<rparr>)
      (s\<lparr>mainm_seg := True, uid := kuid s\<rparr>)"
  obtain b c where b: "(if alloc_method_ind s > 2 then create_cores num_cores ?a else Inr ?a) = Inr (?a\<lparr>cores_seg := b, cmem := c\<rparr>)"
      "3 \<le> alloc_method_ind s \<longrightarrow> b"
  proof (cases "3 \<le> alloc_method_ind s")
    case True
    with assms show ?thesis by (intro that [of _ True]) (auto simp: create_cores_def unmounted_def upd_sysg_def)
  next
    case False
    then show ?thesis by (intro that [of "cmem s" "cores_seg s"]) (auto simp: upd_sysg_def)
  qed
  let ?b = "?a\<lparr>cores_seg := b, cmem := c\<rparr>"
  let ?c = "(upd_sysg (\<lambda>g. g\<lparr>dbucket_rough_index := 0, dbuckets_in_use := 0, sg_lock := False\<rparr>) ?b)
     \<lparr>hash_table := (\<lambda>j. if j < HASH_TABLE_SIZE then \<lparr>first_ix = - 1, hi_lock = init_urwlock\<rparr> else hash_table s j),
      mb_arr := (\<lambda>j. if j < META_BUCKETS then init_mbucket (mb_arr s j) else mb_arr s j)\<rparr>"
  let ?d = "?c\<lparr>segs := (\<lambda>k. k < 2), data_steps := (\<lambda>k. k < 2 \<or> data_steps s k),
      dbs := (\<lambda>p. if p < 2 * DATA_BUCKETS_STEP then init_dbucket (dbs s p) else dbs s p)\<rparr>"
  let ?t = "?d\<lparr>pid_seg := True, pid_meta := init_pid_meta (pid_meta s)\<rparr>"
  have d: "create_steps [0 ..< TOTAL_STEPS_ALLOWED] ?c = Inr ?d"
    using create_steps_all [of ?c] assms(1) by (simp add: unmounted_def upd_sysg_def cong: if_cong)
  have "init_mount_mem num_cores s = Inr ?t"
    using b(1) d assms(1,2) by (simp add: init_mount_mem_def Let_def unmounted_def upd_sysg_def cong: if_cong)
  moreover have "live ?t = 2 * DATA_BUCKETS_STEP" by (simp add: live_def upd_sysg_def TOTAL_STEPS_ALLOWED_def)
  then have "fresh (alloc_method_ind s) ?t"
    using b(2) assms(4)
    by (auto simp: fresh_def mounted_def rows_ok_def row_ok_def init_mbucket_def init_dbucket_def init_pid_meta_def
        init_pid_info_def upd_sysg_def ufs_config)
  moreover have "cpu_src ?t = cpu_src s" "disk ?t = disk s" "alloc_method_ind ?t = alloc_method_ind s"
      "\<forall>k. int k < dbucket_steps (sysg ?t) \<longrightarrow> data_steps ?t k"
    by (simp_all add: upd_sysg_def TOTAL_STEPS_ALLOWED_def)
  ultimately show ?thesis by blast
qed

lemma no_rows_look:
  assumes "rows_ok s (\<lambda>_. [])"
  shows "minv s" "look s = Map.empty"
proof -
  show "minv s" unfolding minv_def by (rule exI) (rule assms)
  have "look s p \<noteq> Some i" if "ok_path p" for p i
    using look_rows [OF assms, of p _ i] ok_path_hash [of p] that by auto
  then show "look s = Map.empty" using look_not_ok [of _ s] by (metis (no_types, lifting) ext not_None_eq)
qed

text \<open>A mounted file system on which a process can start: no lock is held and every slot is free.\<close>

definition serving :: "int \<Rightarrow> ('d, 'z) pstate_scheme \<Rightarrow> bool" where
  "serving meth s \<longleftrightarrow> mounted s \<and> minv s \<and>
     dbucket_steps (sysg s) = int TOTAL_STEPS_ALLOWED \<and> alloc_method (sysg s) = meth \<and>
     (3 \<le> meth \<longrightarrow> cores_seg s \<and> 1 \<le> ncores (sysg s) \<and> ncores (sysg s) \<le> int tot_buckets) \<and>
     (\<forall>p < live s. \<not> db_lock (dbs s p) \<and>
        (\<not> db_in_use (dbs s p) \<longrightarrow> db_next_ix (dbs s p) = - 1 \<and> db_bytes (dbs s p) = 0)) \<and>
     (\<forall>j < MAX_EXEC_HANGING. pi_pid (pid_meta s j) = 0 \<and> \<not> fds_backed_up (pid_meta s j) \<and> \<not> pi_lock (pid_meta s j))"

lemma fresh_serving: "fresh meth t \<Longrightarrow> serving meth t"
  using no_rows_look(1) by (auto simp: fresh_def serving_def)

text \<open>A process behind its constructor: what the components rely on.\<close>

definition attached_to :: "('d, 'z) pstate_scheme \<Rightarrow> ('d, 'z) pstate_scheme \<Rightarrow> bool" where
  "attached_to t u \<longleftrightarrow> hash_table u = hash_table t \<and> mb_arr u = mb_arr t \<and> dbs u = dbs t \<and> live u = live t \<and> disk u = disk t \<and>
     alloc_inv u \<and> fd_inv u \<and> lowest_fd u FIRST_USER_FD \<and> running u \<and> \<not> calling_shm_open u \<and> \<not> calling_shm_unlink u \<and>
     (\<forall>fd. FIRST_USER_FD \<le> fd \<longrightarrow> fd < MAX_NUM_FD \<longrightarrow> fd_empty (fdTable u (nat fd)))"

lemma attached_names: "attached_to t u \<Longrightarrow> minv u = minv t \<and> look u = look t"
  using rows_fields [of u t] by (simp add: attached_to_def)

lemma serving_init:
  assumes "serving meth t" "1 \<le> meth" "meth \<le> 4" "3 \<le> meth \<longrightarrow> (\<forall>k. 0 \<le> cpu_src t k)" "p \<noteq> 0"
  shows "\<exists>u. ufs_init os (load_image (t\<lparr>kpid := p\<rparr>)) = Inr u \<and> attached_to t u"
proof -
  let ?s = "load_image (t\<lparr>kpid := p\<rparr>)"
  have f: "mounted t" "minv t" "dbucket_steps (sysg t) = int TOTAL_STEPS_ALLOWED" "alloc_method (sysg t) = meth"
      "\<forall>q < live t. \<not> db_lock (dbs t q) \<and> (\<not> db_in_use (dbs t q) \<longrightarrow> db_next_ix (dbs t q) = - 1 \<and> db_bytes (dbs t q) = 0)"
      "\<forall>j < MAX_EXEC_HANGING. pi_pid (pid_meta t j) = 0 \<and> \<not> fds_backed_up (pid_meta t j) \<and> \<not> pi_lock (pid_meta t j)"
    and cores: "3 \<le> meth \<longrightarrow> cores_seg t \<and> 1 \<le> ncores (sysg t) \<and> ncores (sysg t) \<le> int tot_buckets"
    using assms(1) unfolding serving_def by blast+
  have k: "shared_kept (t\<lparr>kpid := p\<rparr>) ?s" "pid_meta ?s = pid_meta t" "\<not> ufs_init_called ?s" "backup_fds ?s = None"
      "kpid ?s = p" "sysg ?s = sysg t" "cpu_src ?s = cpu_src t" "disk ?s = disk t" "\<not> calling_shm_unlink ?s"
    by (simp_all add: load_image_def shared_kept_def)
  have m: "mounted ?s" using f(1) shared_kept_mounted [OF k(1)] by (simp add: mounted_def)
  have "0 < MAX_EXEC_HANGING" by (simp add: ufs_config)
  with f(6) have "has_slot ?s" unfolding has_slot_def k(2) by blast
  then obtain j u where u: "ufs_init_mem os ?s = Inr u" "attached j ?s u" "fdTable u = fdTable (init_fdTable ?s)"
      "pid_meta u = (pid_meta t)(j := (pid_meta t j)\<lparr>pi_pid := p\<rparr>)" "disk u = disk t"
    using ufs_init_mem_result [OF m, of os] k(2,5,8) by auto
  have j: "j < MAX_EXEC_HANGING" "pid_meta_ind u = j" "pid_meta_ind_set u" "backup_fds u = None"
      "data_steps u = (\<lambda>k. int k < dbucket_steps (sysg t))" "alloc_method_ind u = meth" "cpu_src u = cpu_src t"
      "meth = 3 \<or> meth = 4 \<longrightarrow> last_core_num u = - 1" "\<not> calling_shm_open u" "\<not> calling_shm_unlink u"
    using u(2) k(4,6,7,9) f(4) by (simp_all add: attached_def)
  have sk: "shared_kept (t\<lparr>kpid := p\<rparr>) u" using u(2) k(1) by (simp add: attached_def shared_kept_def)
  then have sh: "hash_table u = hash_table t" "mb_arr u = mb_arr t" "dbs u = dbs t" "sysg u = sysg t" "segs u = segs t"
      "cores_seg u = cores_seg t" "kpid u = p"
    by (simp_all add: shared_kept_def)
  have "ufs_init os ?s = Inr u" using u(1,4) j(1,2) f(6) k(3) by (simp add: ufs_init_def)
  moreover have "dinv u"
    using f(1,3,5) sh(3,4,5) j(5) by (simp add: dinv_def live_def mounted_def)
  then have "alloc_inv u"
    using assms(2-4) cores f(3) sh(4,6) j(6-8) by (auto simp: alloc_inv_def core_inv_def)
  moreover have "fd_inv u" using init_fdTable_inv [of ?s] fd_inv_cong [of u "init_fdTable ?s"] u(3) by simp
  moreover have free: "fd_empty (fdTable u (nat fd))" if "FIRST_USER_FD \<le> fd" "fd < MAX_NUM_FD" for fd
    using that unfolding u(3) by (auto simp: init_fdTable_def init_fd_def clear_cache_def ufs_config)
  moreover have "lowest_fd u FIRST_USER_FD"
    unfolding lowest_fd_def using free [of FIRST_USER_FD] by (auto simp: ufs_config)
  moreover have "pid_table (pid_meta u)" unfolding u(4) using f(6) assms(5) by (auto simp: pid_table_def)
  moreover have "has_slot u" unfolding has_slot_def u(4) sh(7) using j(1) by auto
  moreover have "mounted u" using f(1) shared_kept_mounted [OF sk] by (simp add: mounted_def)
  ultimately show ?thesis using assms(5) j(1-4,9,10) sh(1-4,7) u(5) by (auto simp: running_def attached_to_def live_def)
qed

text \<open>The same on an empty file system.\<close>

definition started :: "('d, 'z) pstate_scheme \<Rightarrow> bool" where
  "started u \<longleftrightarrow> minv u \<and> look u = Map.empty \<and> alloc_inv u \<and> fd_inv u \<and> lowest_fd u FIRST_USER_FD \<and> running u \<and>
     \<not> calling_shm_open u \<and> \<not> calling_shm_unlink u \<and> (\<forall>i < META_BUCKETS. \<not> mb_in_use (mb_arr u i)) \<and>
     (\<forall>fd. FIRST_USER_FD \<le> fd \<longrightarrow> fd < MAX_NUM_FD \<longrightarrow> fd_empty (fdTable u (nat fd)))"

lemma fresh_init:
  assumes "fresh meth t" "1 \<le> meth" "meth \<le> 4" "\<forall>k. 0 \<le> cpu_src t k" "p \<noteq> 0"
  shows "\<exists>u. ufs_init os (load_image (t\<lparr>kpid := p\<rparr>)) = Inr u \<and> started u \<and> disk u = disk t"
proof -
  obtain u where u: "ufs_init os (load_image (t\<lparr>kpid := p\<rparr>)) = Inr u" "attached_to t u"
    using serving_init [OF fresh_serving [OF assms(1)] assms(2,3) _ assms(5)] assms(4) by blast
  moreover have "rows_ok t (\<lambda>_. [])" "\<forall>i < META_BUCKETS. \<not> mb_in_use (mb_arr t i)" using assms(1) by (simp_all add: fresh_def)
  moreover note no_rows_look [OF this(1)] attached_names [OF u(2)]
  ultimately show ?thesis by (auto simp: started_def attached_to_def)
qed

text \<open>An empty directory has the entries for itself and for its parent.\<close>

definition empty_dir :: "'d readdir \<Rightarrow> string \<Rightarrow> bool" where
  "empty_dir rd name \<longleftrightarrow> length name + 3 < PATH_MAX \<and>
     (\<forall>d es. rd name d = Some es \<longrightarrow> set es \<subseteq> {(''.'', True), (''..'', True)})"

lemma upload_entries_dots:
  assumes "length name + 3 < PATH_MAX"
  shows "set es \<subseteq> {(''.'', True), (''..'', True)} \<Longrightarrow> upload_entries os rd name es s = Inr s"
  using assms by (induction es) (auto simp: Let_def)

lemma upload_dir_empty: "empty_dir rd name \<Longrightarrow> upload_dir os rd name s = Inr s"
  unfolding upload_dir_def empty_dir_def
  by (cases "rd name (disk s)") (metis option.case upload_entries_dots)+

lemma daemon_then_init:
  assumes "unmounted s" "select_alloc defined = Inr meth" "1 \<le> meth" "meth \<le> 4"
    "3 \<le> meth \<longrightarrow> length argv = 2 \<and> 1 \<le> atoi (argv ! 1) \<and> atoi (argv ! 1) \<le> int tot_buckets"
    "\<forall>k. 0 \<le> cpu_src s k" "parse_options getopts = (c, opt)" "0 \<le> c"
    "empty_dir rd (case dir_name opt of None \<Rightarrow> ''.'' | Some r \<Rightarrow> r)" "p \<noteq> 0"
  shows "\<exists>t u. daemon_main os rd defined argv getopts s = Inr t \<and> ufs_init os' (load_image (t\<lparr>kpid := p\<rparr>)) = Inr u \<and>
    started u \<and> disk u = disk s"
proof -
  let ?n = "if meth = 3 \<or> meth = 4 then atoi (argv ! 1) else 0" and ?s = "s\<lparr>alloc_method_ind := meth\<rparr>"
  have n: "3 \<le> meth \<longrightarrow> 1 \<le> ?n \<and> ?n \<le> int tot_buckets"
    using assms(4,5) by (cases "meth = 3 \<or> meth = 4") auto
  have "unmounted ?s" using assms(1) by (simp add: unmounted_def)
  then obtain t where t: "init_mount_mem ?n ?s = Inr t" "fresh meth t" "cpu_src t = cpu_src s" "disk t = disk s"
    using init_mount_mem_fresh [of ?s ?n] assms(3,4) n by auto
  have "daemon_main os rd defined argv getopts s = init_mount os rd ?n (dir_name opt) ?s"
    using assms(2,4,5,7,8) by (simp add: daemon_main_def)
  also have "\<dots> = Inr t" using t(1) upload_dir_empty [OF assms(9)] by (simp add: init_mount_def)
  finally show ?thesis using fresh_init [OF t(2) assms(3,4) _ assms(10), of os'] assms(6) t(3,4) by auto
qed

text \<open>
  (C11) The start of the whole system. A daemon compiled with one of the four allocators over the whole
  array, started when no segment of the user exists, returns from mounting an empty directory; and
  a process that starts then with the library gets through its constructor and finds all the
  invariants of the other components established: a well-formed name table with no file, an allocator
  ready to use with every bucket free, a descriptor table whose first free descriptor is 1024, and a
  slot of its own. With an allocator per core, the number of cores on the command line must be
  positive and not larger than the number of buckets.
\<close>

theorem mount_then_start:
  assumes "unmounted s" "select_alloc defined = Inr meth" "1 \<le> meth" "meth \<le> 4"
    "3 \<le> meth \<longrightarrow> length argv = 2 \<and> 1 \<le> atoi (argv ! 1) \<and> atoi (argv ! 1) \<le> int tot_buckets"
    "\<forall>k. 0 \<le> cpu_src s k" "parse_options getopts = (c, opt)" "0 \<le> c"
    "empty_dir rd (case dir_name opt of None \<Rightarrow> ''.'' | Some r \<Rightarrow> r)" "p \<noteq> 0"
  shows "\<exists>t u. daemon_main os rd defined argv getopts s = Inr t \<and> ufs_init os' (load_image (t\<lparr>kpid := p\<rparr>)) = Inr u \<and>
    minv u \<and> look u = Map.empty \<and> alloc_inv u \<and> fd_inv u \<and> lowest_fd u FIRST_USER_FD \<and> running u"
  using daemon_then_init [OF assms, of os os'] by (auto simp: started_def)

theorem mount_then_start_witness:
  "\<exists>t u. daemon_main null_os (\<lambda>_ _. Some [(''.'', True), (''..'', True)]) [False, False, False, False, True] [''daemon'', ''8''] []
      (boot_pstate\<lparr>mainm_seg := False, pid_seg := False, cores_seg := False, segs := (\<lambda>_. False)\<rparr>) = Inr t \<and>
     ufs_init exec_os (load_image (t\<lparr>kpid := 9\<rparr>)) = Inr u \<and> alloc_inv u"
proof -
  let ?s = "boot_pstate\<lparr>mainm_seg := False, pid_seg := False, cores_seg := False, segs := (\<lambda>_. False)\<rparr>"
  have "select_alloc [False, False, False, False, True] = Inr 4" by (simp add: select_alloc_def)
  moreover have "atoi ''8'' = 8" by (simp add: atoi_def is_space_def is_digit_def)
  moreover have "unmounted ?s" by (simp add: unmounted_def)
  moreover have "\<forall>k. 0 \<le> cpu_src ?s k" by (simp add: boot_pstate_def boot_mstate_def boot_dstate_def)
  moreover have "empty_dir (\<lambda>_ _. Some [(''.'', True), (''..'', True)]) ''.''" by (simp add: empty_dir_def ufs_config)
  ultimately show ?thesis
    using mount_then_start [of ?s "[False, False, False, False, True]" 4 "[''daemon'', ''8'']"
        "[]" 0 "\<lparr>dir_name = None, daemon_mode = False\<rparr>" "\<lambda>_ _. Some [(''.'', True), (''..'', True)]" 9 null_os exec_os]
    by (auto simp: tot_buckets_def parse_options_def ufs_config)
qed

section \<open>The end of the daemon\<close>

text \<open>
  What \<open>write_to_disk\<close> does to the disk for a file with the contents \<open>c\<close> (\<open>write_to_disk_block\<close> explains
  the block), and the files \<open>flush_write\<close> writes, in their order: those with a change that is not on
  disk yet.
\<close>

definition file_block :: "buffer \<Rightarrow> byte list \<Rightarrow> byte list" where
  "file_block junk c =
     (let off = length c mod DBUCKET_BUF_SIZE; n = length c - off in
      if off = 0 \<or> n = 0 then c else drop n c @ drop off (take n c) @ mem_read junk n off)"

definition save_file :: "('d, 'x) os_scheme \<Rightarrow> string \<Rightarrow> nat \<Rightarrow> byte list \<Rightarrow> 'd \<Rightarrow> 'd" where
  "save_file os path mode block d =
     (case os_open os path (O_RDWR OR O_CREAT OR O_TRUNC) mode d of ((fd, _), d) \<Rightarrow>
        snd (os_close os fd (snd (os_write os fd block d))))"

definition changed_from :: "nat \<Rightarrow> 'z mstate_scheme \<Rightarrow> nat list" where
  "changed_from k s = filter (\<lambda>m. mb_in_use (mb_arr s m) \<and> \<not> consisent (mb_arr s m)) [k ..< META_BUCKETS]"

definition save_files ::
  "('d, 'x) os_scheme \<Rightarrow> buffer \<Rightarrow> (nat \<Rightarrow> nat list) \<Rightarrow> nat list \<Rightarrow> 'z mstate_scheme \<Rightarrow> 'd \<Rightarrow> 'd" where
  "save_files os junk P ms s = fold (\<lambda>m. save_file os (mb_path (mb_arr s m)) (st_mode (mb_s (mb_arr s m)))
     (file_block junk (content s (P m)))) ms"

text \<open>Every file in use has its data: \<open>P m\<close> is the chain of the file of metadata bucket \<open>m\<close>.\<close>

definition files_ok :: "(nat \<Rightarrow> nat list) \<Rightarrow> 'z mstate_scheme \<Rightarrow> bool" where
  "files_ok P s \<longleftrightarrow> (\<forall>m < META_BUCKETS. mb_in_use (mb_arr s m) \<longrightarrow> file_ok s m (P m))"

lemma disk_fields:
  fixes s :: "('d, 'z) ustate_scheme"
  shows "same_data (s\<lparr>disk := d, errno := e\<rparr>) s" "files_ok P (s\<lparr>disk := d, errno := e\<rparr>) = files_ok P s"
    "save_files os junk P ms (s\<lparr>disk := d, errno := e\<rparr>) = save_files os junk P ms s"
    "changed_from k (s\<lparr>disk := d, errno := e\<rparr>) = changed_from k s"
proof -
  show sd: "same_data (s\<lparr>disk := d, errno := e\<rparr>) s" by (simp add: same_data_def dstate.defs)
  show "files_ok P (s\<lparr>disk := d, errno := e\<rparr>) = files_ok P s"
    using same_data_chain [OF sd] by (simp add: files_ok_def file_ok_def)
  show "save_files os junk P ms (s\<lparr>disk := d, errno := e\<rparr>) = save_files os junk P ms s"
    using same_data_chain [OF sd] by (simp add: save_files_def)
qed (simp add: changed_from_def)

lemma write_to_disk_saves:
  fixes s :: "('d, 'z) ustate_scheme"
  assumes "dinv s" "file_ok s m ps"
  shows "\<exists>e. write_to_disk os junk m s = Inr (s\<lparr>disk := save_file os (mb_path (mb_arr s m)) (st_mode (mb_s (mb_arr s m)))
    (file_block junk (content s ps)) (disk s), errno := e\<rparr>)"
proof -
  let ?block = "file_block junk (content s ps)"
  have img: "disk_image junk (st_size (mb_s (mb_arr s m))) (first_dbucket (mb_arr s m)) s = Inr (?block, s)"
    using disk_block [OF assms, of junk] by (simp add: file_block_def Let_def)
  obtain fd e1 d1 where o: "os_open os (mb_path (mb_arr s m)) 578 (st_mode (mb_s (mb_arr s m))) (disk s) = ((fd, e1), d1)"
    by (metis surj_pair)
  obtain r2 e2 d2 where w: "os_write os fd ?block d1 = ((r2, e2), d2)" by (metis surj_pair)
  obtain r3 e3 d3 where c: "os_close os fd d2 = ((r3, e3), d3)" by (metis surj_pair)
  have "save_file os (mb_path (mb_arr s m)) (st_mode (mb_s (mb_arr s m))) ?block (disk s) = d3"
    using o w c by (simp add: save_file_def O_RDWR_def O_CREAT_def O_TRUNC_def)
  moreover have "\<exists>e. write_to_disk os junk m s = Inr (s\<lparr>disk := d3, errno := e\<rparr>)"
    unfolding write_to_disk_def img by (simp add: os_call_def o w c) (rule exI, rule refl)
  ultimately show ?thesis by simp
qed

text \<open>The changed files from one bucket in use to the next.\<close>

lemma changed_from_next:
  assumes "traverse_from k s = Some m"
  shows "changed_from k s = (if consisent (mb_arr s m) then [] else [m]) @ changed_from (Suc m) s"
proof -
  from assms have m: "k \<le> m" "m < META_BUCKETS" "mb_in_use (mb_arr s m)"
      "\<forall>j. k \<le> j \<and> j < m \<longrightarrow> \<not> mb_in_use (mb_arr s j)"
    by (simp_all add: traverse_from_Some)
  then have "[k ..< META_BUCKETS] = [k ..< m] @ m # [Suc m ..< META_BUCKETS]"
    using upt_add_eq_append [of k m "META_BUCKETS - m"] by (simp add: upt_conv_Cons)
  moreover have "filter (\<lambda>m. mb_in_use (mb_arr s m) \<and> \<not> consisent (mb_arr s m)) [k ..< m] = []"
    using m(4) by (simp add: filter_empty_conv)
  ultimately show ?thesis using m(3) by (simp add: changed_from_def)
qed

lemma changed_from_none: "traverse_from k s = None \<Longrightarrow> changed_from k s = []"
proof -
  assume none: "traverse_from k s = None"
  have "\<not> mb_in_use (mb_arr s m)" if "k \<le> m" "m < META_BUCKETS" for m
  proof
    assume "mb_in_use (mb_arr s m)"
    with that obtain i where "i = (LEAST j. k \<le> j \<and> mb_in_use (mb_arr s j))" "k \<le> i" "i \<le> m" "mb_in_use (mb_arr s i)"
      by (metis (mono_tags, lifting) LeastI Least_le)
    then have "traverse_from k s = Some i"
      using that not_less_Least by (fastforce simp: traverse_from_Some)
    with none show False by simp
  qed
  then show ?thesis by (simp add: changed_from_def filter_empty_conv)
qed

lemma flush_loop_saves:
  fixes s :: "('d, 'z) ustate_scheme"
  defines "start \<equiv> \<lambda>mb. case mb of None \<Rightarrow> 0 | Some i \<Rightarrow> i + 1"
  shows "dinv s \<Longrightarrow> files_ok P s \<Longrightarrow>
    \<exists>e. flush_loop os junk mb s = Inr (s\<lparr>disk := save_files os junk P (changed_from (start mb) s) s (disk s), errno := e\<rparr>)"
proof (induction os junk mb s rule: flush_loop.induct)
  case (1 os junk mb s)
  let ?u = "\<lambda>d e. s\<lparr>disk := d, errno := e\<rparr>"
  let ?save = "\<lambda>m. save_file os (mb_path (mb_arr s m)) (st_mode (mb_s (mb_arr s m))) (file_block junk (content s (P m)))"
  show ?case
  proof (cases "traverse_next_bucket mb s")
    case None
    then have "flush_loop os junk mb s = Inr (?u (disk s) (errno s))" by (subst flush_loop.simps) simp
    moreover from None have "changed_from (start mb) s = []"
      by (intro changed_from_none) (simp add: traverse_next_bucket_def start_def)
    ultimately show ?thesis by (intro exI [of _ "errno s"]) (simp add: save_files_def)
  next
    case (Some m)
    then have m: "m < META_BUCKETS" "mb_in_use (mb_arr s m)" and next_m: "traverse_from (start mb) s = Some m"
      by (simp_all add: traverse_next_bucket_def traverse_from_Some start_def)
    then have "file_ok s m (P m)" using 1(3) by (simp add: files_ok_def)
    from write_to_disk_saves [OF 1(2) this, of os junk]
    obtain e where w: "write_to_disk os junk m s = Inr (?u (?save m (disk s)) e)" by blast
    let ?d = "if consisent (mb_arr s m) then disk s else ?save m (disk s)"
    obtain e' where x: "(if \<not> consisent (mb_arr s m) then write_to_disk os junk m s else Inr s) = Inr (?u ?d e')"
      using w by (cases "consisent (mb_arr s m)") (auto intro: that [of "errno s"])
    have "dinv (?u ?d e')" "files_ok P (?u ?d e')"
      using 1(2,3) same_dataD(7) [OF disk_fields(1)] disk_fields(2) by metis+
    from 1(1) [OF Some this] obtain e'' where "flush_loop os junk (Some m) (?u ?d e') =
        Inr (?u (save_files os junk P (changed_from (Suc m) s) s ?d) e'')"
      by (auto simp: disk_fields start_def)
    with Some x have "flush_loop os junk mb s = Inr (?u (save_files os junk P (changed_from (Suc m) s) s ?d) e'')"
      by (subst flush_loop.simps) simp
    moreover have "save_files os junk P (changed_from (start mb) s) s (disk s) =
        save_files os junk P (changed_from (Suc m) s) s ?d"
      by (simp add: changed_from_next [OF next_m] save_files_def)
    ultimately show ?thesis by auto
  qed
qed

lemma unlink_steps_result:
  "distinct js \<Longrightarrow> (\<forall>j \<in> set js. segs s j) \<Longrightarrow> unlink_steps js s = Inr (s\<lparr>segs := (\<lambda>k. segs s k \<and> k \<notin> set js)\<rparr>)"
proof (induction js arbitrary: s)
  case (Cons j js)
  let ?s = "s\<lparr>segs := (segs s)(j := False)\<rparr>"
  have "distinct js" "\<forall>i \<in> set js. segs ?s i" using Cons.prems by auto
  from Cons.IH [OF this] have "unlink_steps js ?s = Inr (s\<lparr>segs := (\<lambda>k. ((segs s)(j := False)) k \<and> k \<notin> set js)\<rparr>)"
    by (simp del: fun_upd_apply)
  moreover have "(\<lambda>k. ((segs s)(j := False)) k \<and> k \<notin> set js) = (\<lambda>k. segs s k \<and> k \<notin> set (j # js))" by auto
  ultimately show ?case using Cons.prems by simp
qed simp


text \<open>A disk that is the list of blocks written, and a daemon with the changed file \<open>/a\<close> of five bytes.\<close>

definition log_os :: "byte list list os" where
  "log_os = \<lparr>os_stat = (\<lambda>_ d. (((- 1, zero_stat), Some 2), d)), os_lstat = (\<lambda>_ d. (((- 1, zero_stat), Some 2), d)),
     os_fstat = (\<lambda>_ d. (((- 1, zero_stat), Some 9), d)), os_open = (\<lambda>_ _ _ d. ((3, None), d)),
     os_close = (\<lambda>_ d. ((0, None), d)), os_read = (\<lambda>_ _ d. (((- 1, []), Some 9), d)),
     os_write = (\<lambda>_ buf d. ((int (length buf), None), d @ [buf])), os_pread = (\<lambda>_ _ _ d. (((- 1, []), Some 9), d)),
     os_pwrite = (\<lambda>_ _ _ d. ((- 1, Some 9), d)), os_unlink = (\<lambda>_ d. ((- 1, Some 2), d)),
     os_rename = (\<lambda>_ _ d. ((- 1, Some 2), d)), os_getcwd = (\<lambda>_. Some ''/'')\<rparr>"

definition log_daemon :: "byte list list pstate" where
  "log_daemon =
     upd_mb 0 (\<lambda>mb. mb\<lparr>mb_in_use := True, mb_path := ''/a'', first_dbucket := 0, consisent := False,
                         mb_s := (mb_s mb)\<lparr>st_size := 5\<rparr>\<rparr>)
      (upd_db 0 (\<lambda>db. db\<lparr>db_in_use := True, db_bytes := 5, db_buf := (\<lambda>_. 7)\<rparr>)
        ((boot_mstate
           \<lparr>fdTable = (\<lambda>_. fd_slot), errno = 0, calling_shm_open = False, calling_shm_unlink = False,
            clock_src = (\<lambda>k. \<lparr>tv_sec = int k, tv_nsec = 0\<rparr>), clock_pos = 1, disk = [],
            mainm_seg = True, pid_seg = True, pid_meta = pid_meta boot_pstate, fd_shm = (\<lambda>_. None), kuid = 1000, kpid = 7,
            uid = 1000, pid = 7, pid_meta_ind = 0, pid_meta_ind_set = False, backup_fds = None,
            ufs_init_called = True, glob_umask = 2\<rparr>)\<lparr>cores_seg := False\<rparr>))"

lemma log_daemon_sel:
  "mb_arr log_daemon m = (if m = 0 then free_mb\<lparr>mb_in_use := True, mb_path := ''/a'', first_dbucket := 0, consisent := False,
     mb_s := (mb_s free_mb)\<lparr>st_size := 5\<rparr>\<rparr> else free_mb)"
  "dbs log_daemon p = (if p = 0 then free_db\<lparr>db_in_use := True, db_bytes := 5, db_buf := (\<lambda>_. 7)\<rparr> else free_db)"
  "dbucket_steps (sysg log_daemon) = 2" "segs log_daemon k = (k < 2)" "data_steps log_daemon k = (k < 2)" "\<not> cores_seg log_daemon"
  "mainm_seg log_daemon" "pid_seg log_daemon" "disk log_daemon = []" "alloc_method_ind log_daemon = 1"
  by (simp_all add: log_daemon_def upd_mb_def upd_db_def boot_mstate_def boot_dstate_def)


end
