(* ===== verification/Ufs_Refine.thy ===== *)
theory Ufs_Refine
  imports Ufs_Sim Ufs_Mount
begin

text \<open>
  The whole system against the abstract file system: from the daemon's mount over the start of a
  process to any program of calls within the contract.
\<close>

unbundle bit_operations_syntax

definition a_empty :: afs where
  "a_empty = \<lparr>a_files = Map.empty, a_fds = Map.empty\<rparr>"

lemma models_start:
  assumes "minv s" "look s = Map.empty" "alloc_inv s" "fd_inv s" "\<not> calling_shm_open s" "\<not> calling_shm_unlink s"
    "\<forall>i < META_BUCKETS. \<not> mb_in_use (mb_arr s i)"
    "\<forall>fd. FIRST_USER_FD \<le> fd \<longrightarrow> fd < MAX_NUM_FD \<longrightarrow> fd_empty (fdTable s (nat fd))" "no_files os (disk s)"
  shows "models os (os_getcwd os (disk s)) s a_empty"
  using assms by (intro modelsI [where P = "\<lambda>_. []"]) (auto simp: files_rel_def fds_rel_def fd_rel_def a_empty_def)

lemma boot_models: "models null_os (Some ''/'') boot_ustate a_empty"
proof -
  have "models null_os (os_getcwd null_os (disk boot_ustate)) boot_ustate a_empty"
  proof (rule models_start [OF boot_ustate_inv(2) boot_names(2) boot_ustate_inv(1) boot_fd(1)])
    show "\<forall>fd. FIRST_USER_FD \<le> fd \<longrightarrow> fd < MAX_NUM_FD \<longrightarrow> fd_empty (fdTable boot_ustate (nat fd))"
      by (simp add: boot_ustate_def boot_mstate_def boot_dstate_def fd_slot_def)
    show "no_files null_os (disk boot_ustate)" by (simp add: no_files_def null_os_def ENOENT_def)
  qed (use boot_fd(3) in \<open>simp_all add: boot_ustate_def boot_mstate_def boot_dstate_def\<close>)
  then show ?thesis by (simp add: null_os_def)
qed

text \<open>
  (C2) The library implements the abstract file system: in any state that stands for an abstract one,
  any program of \<open>open\<close>, \<open>close\<close>, \<open>read\<close>, \<open>write\<close>, \<open>pread\<close>, \<open>pwrite\<close>, \<open>unlink\<close>, \<open>rename\<close>, \<open>stat\<close>, \<open>lstat\<close>,
  \<open>fstat\<close> and \<open>fsync\<close> whose calls are within the contract gets from the library, call by call, the
  value, the bytes, the size and the \<open>errno\<close> that the abstract file system gives, and the states
  correspond again at its end. The only other outcome is that the process exits for want of a data
  bucket. The operating system is assumed to have no file and to say so.
\<close>

theorem calls_refine_file_system:
  assumes "models os cwd s a" "run_spec (a_call cwd) cs a = Some (xs, a')"
  shows "case run_calls (call_answer os) cs s of
      Inl e \<Rightarrow> e = Exit
    | Inr (ys, s') \<Rightarrow> ys = xs \<and> models os cwd s' a'"
  by (rule library.run [OF assms])

text \<open>A program with two descriptors on one file.\<close>

definition demo_calls :: "call list" where
  "demo_calls = [Open ''/a'' (O_CREAT OR O_RDWR) 0, Write 1024 [1, 2, 3], Open ''/a'' 0 0, Read 1025 2, Pwrite 1024 [9] 1,
     Pread 1025 5 0, Xstat ''/a'', Close 1024, Rename ''/a'' ''/b'', Fxstat 1025, Read 1024 1, Close 1025, Unlink ''/b'',
     Xstat ''/b'']"

definition demo_answers :: "answer list" where
  "demo_answers = [Answer 1024 [] 0 0, Answer 3 [] 0 0, Answer 1025 [] 0 0, Answer 2 [1, 2] 0 0, Answer 1 [] 0 0,
     Answer 3 [1, 9, 3] 0 0, Answer 0 [] 3 0, Answer 0 [] 0 0, Answer 0 [] 0 0, Answer 0 [] 3 0, Answer (- 1) [] 0 EBADF,
     Answer 0 [] 0 0, Answer 0 [] 0 0, Answer (- 1) [] 0 ENOENT]"

lemma demo_paths:
  "a_on_path (Some ''/'') ''/a'' a k = k ''/a''" "a_on_path (Some ''/'') ''/b'' a k = k ''/b''"
proof -
  have e: "\<not> exclusive_path ''/a''" "\<not> exclusive_path ''/b''" by (simp_all add: exclusive_path_def strstr.simps)
  then have "a_key (Some ''/'') ''/a'' = Some ''/a''" "a_key (Some ''/'') ''/b'' = Some ''/b''"
    by (simp_all add: a_key_def full_path_def build_abs_path_def char_at_def Let_def fits_path_def sample_paths ufs_config)
  with e show "a_on_path (Some ''/'') ''/a'' a k = k ''/a''" "a_on_path (Some ''/'') ''/b'' a k = k ''/b''"
    by (simp_all add: a_on_path_def ufs_config)
qed

lemma find_user_fd:
  "find Q user_fds = (if Q 1024 then Some 1024 else if Q 1025 then Some 1025 else find Q [1026..MAX_NUM_FD - 1])"
proof -
  have "[1024..MAX_NUM_FD - 1] = 1024 # 1025 # [1026..MAX_NUM_FD - 1]"
    by (subst upto_rec1, simp add: ufs_config, subst upto_rec1, simp_all add: ufs_config)
  then show ?thesis by (simp add: user_fds_def FIRST_USER_FD_def)
qed

lemma demo_run: "\<exists>a'. run_spec (a_call (Some ''/'')) demo_calls a_empty = Some (demo_answers, a')"
  by (simp add: demo_calls_def demo_answers_def demo_paths find_user_fd a_empty_def a_open_def a_done_def a_put_def a_on_fd_def
      a_stat_def a_fail_def rdwr_create has_flag_def O_CREAT_def O_APPEND_def O_RDWR_def O_EXCL_def O_TRUNC_CHECK_def O_TRUNC_def
      splice_def rows_differ_def sample_paths list_ex_iff ufs_config Let_def)

theorem calls_refine_file_system_witness:
  "case run_calls (call_answer null_os) demo_calls boot_ustate of
     Inl e \<Rightarrow> e = Exit
   | Inr (ys, s') \<Rightarrow> ys = demo_answers"
proof -
  obtain a' where "run_spec (a_call (Some ''/'')) demo_calls a_empty = Some (demo_answers, a')" using demo_run by blast
  from calls_refine_file_system [OF boot_models this] show ?thesis by (auto split: sum.splits)
qed

text \<open>
  (C1) The whole system, from nothing: when no segment of the user exists, the daemon mounts an empty
  directory with any of the four allocators over the whole array, and a process starts with the
  library; then any program of calls within the contract runs on it exactly as on an empty abstract
  file system, or the library ends the process on the way (the only outcome besides a return; when
  a write or a creation ends it is said with those calls).
\<close>

theorem system_implements_file_system:
  assumes "unmounted s" "select_alloc defined = Inr meth" "1 \<le> meth" "meth \<le> 4"
    "3 \<le> meth \<longrightarrow> length argv = 2 \<and> 1 \<le> atoi (argv ! 1) \<and> atoi (argv ! 1) \<le> int tot_buckets"
    "\<forall>k. 0 \<le> cpu_src s k" "parse_options getopts = (c, opt)" "0 \<le> c"
    "empty_dir rd (case dir_name opt of None \<Rightarrow> ''.'' | Some r \<Rightarrow> r)" "p \<noteq> 0" "no_files os' (disk s)"
    "run_spec (a_call (os_getcwd os' (disk s))) cs a_empty = Some (xs, a')"
  shows "\<exists>t u. daemon_main os rd defined argv getopts s = Inr t \<and> ufs_init os' (load_image (t\<lparr>kpid := p\<rparr>)) = Inr u \<and>
    (case run_calls (call_answer os') cs u of Inl e \<Rightarrow> e = Exit | Inr (ys, v) \<Rightarrow> ys = xs)"
proof -
  from daemon_then_init [OF assms(1-10), of os os'] obtain t u where
    t: "daemon_main os rd defined argv getopts s = Inr t" "ufs_init os' (load_image (t\<lparr>kpid := p\<rparr>)) = Inr u"
    and u: "started u" "disk u = disk s" by blast
  have "models os' (os_getcwd os' (disk s)) u a_empty"
    using models_start [of u os'] u assms(11) by (simp add: started_def)
  from library.run [OF this assms(12)] t show ?thesis by (auto split: sum.splits)
qed

theorem system_implements_file_system_witness:
  "\<exists>t u. daemon_main null_os (\<lambda>_ _. Some [(''.'', True), (''..'', True)]) [False, False, False, False, True] [''daemon'', ''8''] []
      (boot_pstate\<lparr>mainm_seg := False, pid_seg := False, cores_seg := False, segs := (\<lambda>_. False)\<rparr>) = Inr t \<and>
     ufs_init exec_os (load_image (t\<lparr>kpid := 9\<rparr>)) = Inr u \<and>
     (case run_calls (call_answer exec_os) demo_calls u of Inl e \<Rightarrow> e = Exit | Inr (ys, v) \<Rightarrow> ys = demo_answers)"
proof -
  let ?s = "boot_pstate\<lparr>mainm_seg := False, pid_seg := False, cores_seg := False, segs := (\<lambda>_. False)\<rparr>"
  have "select_alloc [False, False, False, False, True] = Inr 4" by (simp add: select_alloc_def)
  moreover have "atoi ''8'' = 8" by (simp add: atoi_def is_space_def is_digit_def)
  moreover have "unmounted ?s" by (simp add: unmounted_def)
  moreover have "\<forall>k. 0 \<le> cpu_src ?s k" by (simp add: boot_pstate_def boot_mstate_def boot_dstate_def)
  moreover have "empty_dir (\<lambda>_ _. Some [(''.'', True), (''..'', True)]) ''.''" by (simp add: empty_dir_def ufs_config)
  moreover have "no_files exec_os (disk ?s)" "os_getcwd exec_os (disk ?s) = Some ''/''"
    by (simp_all add: no_files_def exec_os_def null_os_def os.defs ENOENT_def)
  moreover obtain a' where "run_spec (a_call (Some ''/'')) demo_calls a_empty = Some (demo_answers, a')" using demo_run by blast
  ultimately show ?thesis
    using system_implements_file_system [of ?s "[False, False, False, False, True]" 4 "[''daemon'', ''8'']"
        "[]" 0 "\<lparr>dir_name = None, daemon_mode = False\<rparr>" "\<lambda>_ _. Some [(''.'', True), (''..'', True)]" 9 exec_os
        demo_calls demo_answers a' null_os]
    by (auto simp: tot_buckets_def parse_options_def ufs_config)
qed

section \<open>Two descriptors on one file\<close>

text \<open>
  (C18) Descriptors on one file share one position, which every \<open>open\<close> of the file sets back to its
  start. A process that has a file open for writing at any position loses it when the path is opened
  a second time, whatever the first has written until then: its next \<open>write\<close> goes over the start of
  the file. All three calls return: bytes that fit into the buckets the file has (or into one) need no
  new bucket. POSIX gives each \<open>open\<close> a position of its own.
\<close>

theorem second_open_rewinds_first:
  assumes "models os cwd s a" "a_fds a fd = Some p" "a_files a p = Some f" "a_key cwd path = Some p" "length path \<le> PATH_MAX"
    "find (\<lambda>fd. a_fds a fd = None) user_fds = Some fd2" "length buf \<le> max DBUCKET_BUF_SIZE (length (a_bytes f))"
  shows "\<exists>s'. run_calls (call_answer os) [Open path 0 mode, Write fd buf, Pread fd n 0] s =
    (let out = take n (buf @ drop (length buf) (a_bytes f)) in
     Inr ([Answer fd2 [] 0 0, Answer (int (length buf)) [] 0 0, Answer (int (length out)) out 0 0], s'))"
proof -
  have "\<not> exclusive_path path" using assms(4) by (auto simp: a_key_def split: if_splits)
  then have path: "a_on_path cwd path b k = k p" for b k using assms(4,5) by (simp add: a_on_path_def)
  have "dom (a_fds a) \<subseteq> {FIRST_USER_FD..<MAX_NUM_FD}" using assms(1) by (auto simp: models_def fds_rel_def)
  with assms(2) have fd: "\<not> fd < FIRST_USER_FD" "\<not> MAX_NUM_FD \<le> fd" by (auto simp: subset_iff)
  have "fd \<noteq> fd2" using assms(2,6) by (auto simp: find_Some_iff)
  let ?b = "splice (a_bytes f) 0 buf"
  let ?a1 = "(a_put p (f\<lparr>a_pos := 0\<rparr>) a)\<lparr>a_fds := (a_fds a)(fd2 \<mapsto> p)\<rparr>"
  let ?a2 = "a_put p \<lparr>a_bytes = ?b, a_pos = length buf\<rparr> ?a1"
  have fds: "a_fds ?a1 fd = Some p" "a_files ?a1 p = Some (f\<lparr>a_pos := 0\<rparr>)" "a_fds ?a2 fd = Some p"
      "a_files ?a2 p = Some \<lparr>a_bytes = ?b, a_pos = length buf\<rparr>"
    using assms(2) \<open>fd \<noteq> fd2\<close> by (simp_all add: a_put_def)
  have spec: "a_call cwd (Open path 0 mode) a = Some (Answer fd2 [] 0 0, ?a1)"
      "a_call cwd (Write fd buf) ?a1 = Some (Answer (int (length buf)) [] 0 0, ?a2)"
      "a_call cwd (Pread fd n 0) ?a2 = Some (Answer (int (length (take n ?b))) (take n ?b) 0 0, ?a2)"
    using assms(2,3,6) fd \<open>fd \<noteq> fd2\<close> buf_size_pos
    by (simp_all add: path has_flag_def a_open_def a_done_def a_put_def a_on_fd_def Let_def)
  obtain y1 where "call_answer os (Open path 0 mode) s = Inr y1" using open_returns [OF assms(1,4,5,3,6)] by blast
  from library.step_returns [OF assms(1) spec(1) this] obtain s1 where
    s1: "call_answer os (Open path 0 mode) s = Inr (Answer fd2 [] 0 0, s1)" "models os cwd s1 ?a1" .
  obtain y2 where "call_answer os (Write fd buf) s1 = Inr y2"
    using write_returns [OF s1(2) fds(1,2)] assms(7) by fastforce
  from library.step_returns [OF s1(2) spec(2) this] obtain s2 where
    s2: "call_answer os (Write fd buf) s1 = Inr (Answer (int (length buf)) [] 0 0, s2)" "models os cwd s2 ?a2" .
  obtain y3 where "call_answer os (Pread fd n 0) s2 = Inr y3"
    using pread_returns [OF s2(2) fds(3,4), of 0] buf_size_pos by fastforce
  from library.step_returns [OF s2(2) spec(3) this] obtain s3 where
    s3: "call_answer os (Pread fd n 0) s2 = Inr (Answer (int (length (take n ?b))) (take n ?b) 0 0, s3)" .
  have "?b = buf @ drop (length buf) (a_bytes f)" by (simp add: splice_def)
  with s1(1) s2(1) s3 show ?thesis by (simp del: call_answer.simps add: Let_def)
qed

lemma named_file_models:
  "models null_os (Some ''/'') (opened 0 1024 named_file)
     \<lparr>a_files = [''/a'' \<mapsto> \<lparr>a_bytes = [], a_pos = 0\<rparr>], a_fds = [1024 \<mapsto> ''/a'']\<rparr>"
proof -
  let ?s = "opened 0 1024 named_file"
  have tab: "hash_table named_file = hash_table (one_file ''/a'' 12469 (mstate.more boot_ustate))"
      "mb_arr named_file = (mb_arr (one_file ''/a'' 12469 (mstate.more boot_ustate)))
        (0 := (mb_arr (one_file ''/a'' 12469 (mstate.more boot_ustate)) 0)\<lparr>first_dbucket := 0\<rparr>)"
    by (simp_all add: named_file_def upd_db_def upd_mb_def)
  have "look named_file = look (one_file ''/a'' 12469 (mstate.more boot_ustate))" by (rule rows_fields; simp add: tab)
  then have look: "look ?s = [''/a'' \<mapsto> 0]" by (simp add: opened_tables sample_file)
  have use: "mb_in_use (mb_arr ?s i) = (i = 0)" for i
    by (simp add: opened_def tab)
      (simp add: one_file_def created_def relink_mb_arr last_opt_def boot_mstate_def boot_dstate_def free_mb_def)
  have "(0 :: nat) < META_BUCKETS" by (simp add: ufs_config)
  note o = opened_file [OF named_file_ok(4) this named_file_alloc(2,3)]
  have "content named_file [0] = []" by (simp add: used_def named_file_def one_file_ustate free_db_def)
  with o have v: "fview ?s 0 [0] \<lparr>a_bytes = [], a_pos = 0\<rparr>" by (simp add: fview_def)
  have env: "calling_shm_open ?s = False" "calling_shm_unlink ?s = False" "disk ?s = ()"
      "fdTable ?s = (fdTable boot_ustate)(1024 := (fd_slot)\<lparr>fd_empty := False, mindex := 0\<rparr>)"
    using more_env [OF named_file_more]
    by (simp_all add: opened_def upd_mb_def upd_fd_def boot_ustate_def boot_mstate_def boot_dstate_def)
  have slots: "fdTable boot_ustate j = fd_slot" for j by (simp add: boot_ustate_def boot_mstate_def boot_dstate_def)
  have "fd_inv ?s"
    using boot_fd(1) by (auto simp: fd_inv_def fd_ok_def env slots fd_slot_def ufs_config)
  moreover have "files_rel ?s (\<lambda>_. [0]) [''/a'' \<mapsto> \<lparr>a_bytes = [], a_pos = 0\<rparr>]"
    using v use by (auto simp: files_rel_def look)
  moreover have "fds_rel ?s (\<lambda>_. [0]) [1024 \<mapsto> ''/a'']"
    using o(1,5) by (auto simp: fds_rel_def fd_rel_def look env slots fd_slot_def ufs_config)
  ultimately show ?thesis
    using named_file_ok(1) named_file_alloc(1) opened_tables(3,5) [of 0 1024 named_file]
    by (intro modelsI [where P = "\<lambda>_. [0]"]) (simp_all add: env no_files_def null_os_def ENOENT_def)
qed

text \<open>The file has the bytes 1, 2, 3 and its position behind them.\<close>

lemma sample_written:
  "\<exists>s. call_answer null_os (Write 1024 [1, 2, 3]) (opened 0 1024 named_file) = Inr (Answer 3 [] 0 0, s) \<and>
     models null_os (Some ''/'') s \<lparr>a_files = [''/a'' \<mapsto> \<lparr>a_bytes = [1, 2, 3], a_pos = 3\<rparr>], a_fds = [1024 \<mapsto> ''/a'']\<rparr>"
proof -
  have w: "a_call (Some ''/'') (Write 1024 [1, 2, 3])
      \<lparr>a_files = [''/a'' \<mapsto> \<lparr>a_bytes = [], a_pos = 0\<rparr>], a_fds = [1024 \<mapsto> ''/a'']\<rparr> = Some (Answer 3 [] 0 0,
      \<lparr>a_files = [''/a'' \<mapsto> \<lparr>a_bytes = [1, 2, 3], a_pos = 3\<rparr>], a_fds = [1024 \<mapsto> ''/a'']\<rparr>)"
    by (simp add: a_on_fd_def a_done_def a_put_def splice_def ufs_config eval_nat_numeral)
  obtain y where "call_answer null_os (Write 1024 [1, 2, 3]) (opened 0 1024 named_file) = Inr y"
    using write_returns [OF named_file_models, of 1024 "''/a''" "\<lparr>a_bytes = [], a_pos = 0\<rparr>" "[1, 2, 3]"]
    by (auto simp: ufs_config)
  from library.step_returns [OF named_file_models w this] show ?thesis by blast
qed

theorem second_open_rewinds_first_witness:
  "\<exists>s'. run_calls (call_answer null_os) [Write 1024 [1, 2, 3], Open ''/a'' 0 0, Write 1024 [9], Pread 1024 4 0]
      (opened 0 1024 named_file) =
    Inr ([Answer 3 [] 0 0, Answer 1025 [] 0 0, Answer 1 [] 0 0, Answer 3 [9, 2, 3] 0 0], s')"
proof -
  have "\<not> exclusive_path ''/a''" by (simp add: exclusive_path_def strstr.simps)
  then have key: "a_key (Some ''/'') ''/a'' = Some ''/a''"
    by (simp add: a_key_def full_path_def build_abs_path_def char_at_def Let_def fits_path_def sample_paths ufs_config)
  obtain s where s: "call_answer null_os (Write 1024 [1, 2, 3]) (opened 0 1024 named_file) = Inr (Answer 3 [] 0 0, s)"
    "models null_os (Some ''/'') s \<lparr>a_files = [''/a'' \<mapsto> \<lparr>a_bytes = [1, 2, 3], a_pos = 3\<rparr>], a_fds = [1024 \<mapsto> ''/a'']\<rparr>"
    using sample_written by blast
  have "\<exists>s'. run_calls (call_answer null_os) [Open ''/a'' 0 0, Write 1024 [9], Pread 1024 4 0] s =
      Inr ([Answer 1025 [] 0 0, Answer 1 [] 0 0, Answer 3 [9, 2, 3] 0 0], s')"
    using second_open_rewinds_first [OF s(2), where fd = 1024 and p = "''/a''" and path = "''/a''" and ?fd2.0 = 1025
      and f = "\<lparr>a_bytes = [1, 2, 3], a_pos = 3\<rparr>" and mode = 0 and buf = "[9]" and n = 4] key
    by (simp add: find_user_fd ufs_config Let_def del: run_calls.simps call_answer.simps)
  then obtain s' where "run_calls (call_answer null_os) [Open ''/a'' 0 0, Write 1024 [9], Pread 1024 4 0] s =
      Inr ([Answer 1025 [] 0 0, Answer 1 [] 0 0, Answer 3 [9, 2, 3] 0 0], s')" by blast
  with s(1) show ?thesis
    by (simp only: run_calls.simps(2) [of _ "Write 1024 [1, 2, 3]"] andthen.simps prod.case) simp
qed

end
