(* ===== verification/Ufs_Preload.thy ===== *)
theory Ufs_Preload
  imports Ufs_Glibc Ufs_Refine
begin

text \<open>
  The library as a preloaded object: it calls the functions of the C library, whose names it defines
  itself, through the wrappers of \<open>glibccall.h\<close>, which are resolved in the link map behind it.
\<close>

section \<open>Exported symbols\<close>

definition give :: "int \<times> 's \<Rightarrow> (cval list \<times> 's) res" where
  "give x = (case x of (r, s) \<Rightarrow> Inr ([CInt r], s))"

definition give_stat :: "(int \<times> stat) \<times> 's \<Rightarrow> (cval list \<times> 's) res" where
  "give_stat x = (case x of ((r, st), s) \<Rightarrow> Inr ([CInt r, CStat st], s))"

definition give_bytes :: "(int \<times> byte list) \<times> 's \<Rightarrow> (cval list \<times> 's) res" where
  "give_bytes x = (case x of ((r, out), s) \<Rightarrow> Inr ([CInt r, CBytes out], s))"

text \<open>A successful \<open>exec\<close> does not return: the list of its results is empty.\<close>

definition give_exec :: "('d \<Rightarrow> bool \<times> 'd) \<Rightarrow> ('d, 'z) pstate_scheme \<Rightarrow> (cval list \<times> ('d, 'z) pstate_scheme) res" where
  "give_exec f s = (case f (disk s) of (ok, d) \<Rightarrow> Inr (if ok then [] else [CInt (- 1)], s\<lparr>disk := d\<rparr>))"

text \<open>The functions of the operating system under their names in the C library. The \<open>stat\<close> calls take
  the version of the structure, 1 on this architecture, and refuse any other. \<open>fork\<close>, \<open>fprintf\<close> of a
  format without arguments and \<open>fflush\<close>, of which the library's definitions make no use, are
  parameters of their own.\<close>

definition libc_xstat :: "('a \<Rightarrow> 'd \<Rightarrow> ((int \<times> stat) \<times> int option) \<times> 'd) \<Rightarrow> int \<Rightarrow> 'a \<Rightarrow> ('d, 'z) ustate_scheme \<Rightarrow>
    (cval list \<times> ('d, 'z) ustate_scheme) res" where
  "libc_xstat f ver x s =
     (if ver = 1 then give_stat (os_call (f x) s) else Inr ([CInt (- 1)], s\<lparr>errno := EINVAL\<rparr>))"

definition libc_exports ::
  "('d, 'x) pos_scheme \<Rightarrow> (('d, 'z) pstate_scheme \<Rightarrow> (cval list \<times> ('d, 'z) pstate_scheme) res) \<Rightarrow>
   (nat \<Rightarrow> string \<Rightarrow> ('d, 'z) pstate_scheme \<Rightarrow> (cval list \<times> ('d, 'z) pstate_scheme) res) \<Rightarrow>
   (nat \<Rightarrow> ('d, 'z) pstate_scheme \<Rightarrow> (cval list \<times> ('d, 'z) pstate_scheme) res) \<Rightarrow>
   (string \<times> ('d, 'z) pstate_scheme cfun) list" where
  "libc_exports os fork fprintf fflush = [
    (''__xstat'', \<lambda>args s. case args of [CInt v, CStr p, CPtr _] \<Rightarrow> libc_xstat (os_stat os) v p s | _ \<Rightarrow> Inl Fault),
    (''__lxstat'', \<lambda>args s. case args of [CInt v, CStr p, CPtr _] \<Rightarrow> libc_xstat (os_lstat os) v p s | _ \<Rightarrow> Inl Fault),
    (''__fxstat'', \<lambda>args s. case args of [CInt v, CInt fd, CPtr _] \<Rightarrow> libc_xstat (os_fstat os) v fd s | _ \<Rightarrow> Inl Fault),
    (''open'', \<lambda>args s. case args of
       [CStr p, CInt fl, CInt m] \<Rightarrow> give (os_call (os_open os p (word_of_int fl) (nat m)) s) | _ \<Rightarrow> Inl Fault),
    (''close'', \<lambda>args s. case args of [CInt fd] \<Rightarrow> give (os_call (os_close os fd) s) | _ \<Rightarrow> Inl Fault),
    (''read'', \<lambda>args s. case args of
       [CInt fd, CPtr _, CInt n] \<Rightarrow> give_bytes (os_call (os_read os fd (nat n)) s) | _ \<Rightarrow> Inl Fault),
    (''write'', \<lambda>args s. case args of
       [CInt fd, CBytes buf, CInt n] \<Rightarrow>
         (if nat n \<le> length buf then give (os_call (os_write os fd (take (nat n) buf)) s) else Inl Fault) | _ \<Rightarrow> Inl Fault),
    (''pread'', \<lambda>args s. case args of
       [CInt fd, CPtr _, CInt n, CInt off] \<Rightarrow> give_bytes (os_call (os_pread os fd (nat n) off) s) | _ \<Rightarrow> Inl Fault),
    (''pwrite'', \<lambda>args s. case args of
       [CInt fd, CBytes buf, CInt n, CInt off] \<Rightarrow>
         (if nat n \<le> length buf then give (os_call (os_pwrite os fd (take (nat n) buf) off) s) else Inl Fault) | _ \<Rightarrow> Inl Fault),
    (''unlink'', \<lambda>args s. case args of [CStr p] \<Rightarrow> give (os_call (os_unlink os p) s) | _ \<Rightarrow> Inl Fault),
    (''rename'', \<lambda>args s. case args of [CStr p, CStr q] \<Rightarrow> give (os_call (os_rename os p q) s) | _ \<Rightarrow> Inl Fault),
    (''execvp'', \<lambda>args s. case args of [CStr p, CStrs a] \<Rightarrow> give_exec (os_execvp os p a) s | _ \<Rightarrow> Inl Fault),
    (''execv'', \<lambda>args s. case args of [CStr p, CStrs a] \<Rightarrow> give_exec (os_execv os p a) s | _ \<Rightarrow> Inl Fault),
    (''execve'', \<lambda>args s. case args of [CStr p, CStrs a, CStrs e] \<Rightarrow> give_exec (os_execve os p a e) s | _ \<Rightarrow> Inl Fault),
    (''fork'', \<lambda>args s. case args of [] \<Rightarrow> fork s | _ \<Rightarrow> Inl Fault),
    (''fprintf'', \<lambda>args s. case args of [CPtr stream, CStr format] \<Rightarrow> fprintf stream format s | _ \<Rightarrow> Inl Fault),
    (''fflush'', \<lambda>args s. case args of [CPtr stream] \<Rightarrow> fflush stream s | _ \<Rightarrow> Inl Fault)]"

definition system_symbols :: "string list" where
  "system_symbols = [''__xstat'', ''__lxstat'', ''__fxstat'', ''open'', ''close'', ''read'', ''write'', ''pread'', ''pwrite'',
     ''unlink'', ''rename'', ''execvp'', ''execv'', ''execve'', ''fork'', ''fprintf'', ''fflush'']"

lemma export_names: "map fst (libc_exports os fork fprintf fflush) = system_symbols"
  by (simp add: libc_exports_def system_symbols_def)

lemma map_of_append_Some: "map_of xs k = Some v \<Longrightarrow> map_of (xs @ ys) k = Some v"
  by (simp add: map_add_Some_iff)

section \<open>From the library to the system\<close>

text \<open>
  (C32) Every wrapper of \<open>glibccall.h\<close> the sources call (the fourteen calls on files and programs,
  \<open>real_fork\<close>, and \<open>real_fprintf\<close> and \<open>real_fflush\<close> of the log macros) reaches the function of the C
  library of that name, which for the calls on files and programs is the one the library's
  definitions take from \<open>os\<close>: in a process in which the library stands in front of the C library and
  no object between them defines one of the names, the wrapper skips the library's own definition of
  the same name, passes the arguments in the order and with the version of the \<open>stat\<close> structure that
  the system expects, and returns its result, its data and its \<open>errno\<close>. \<open>real_open\<close> without a mode, as
  \<open>upload_file\<close> calls it, passes on as the mode what happens to be in the argument register. An \<open>exec\<close>
  whose result is tested with \<open>EHANDLE\<close> replaces the image or ends the process.
\<close>

theorem wrappers_reach_system:
  assumes "link_map l = pre @ lib # mid @ libc # post" "self_ix l = length pre"
    "exports libc = libc_exports os fork fprintf fflush @ others"
    "\<forall>ob \<in> set mid. \<forall>name \<in> set system_symbols. map_of (exports ob) name = None"
  shows "real_stat l path b s = give_stat (os_call (os_stat os path) s) \<and>
    real_lstat l path b s = give_stat (os_call (os_lstat os path) s) \<and>
    real_fstat l fd b s = give_stat (os_call (os_fstat os fd) s) \<and>
    real_open l path flags [CInt (int mode)] junk s = give (os_call (os_open os path flags mode) s) \<and>
    real_open l path flags [] (CInt (int reg)) s = give (os_call (os_open os path flags reg) s) \<and>
    real_close l fd s = give (os_call (os_close os fd) s) \<and>
    real_read l fd b n s = give_bytes (os_call (os_read os fd n) s) \<and>
    real_write l fd buf (length buf) s = give (os_call (os_write os fd buf) s) \<and>
    real_pread l fd b n off s = give_bytes (os_call (os_pread os fd n off) s) \<and>
    real_pwrite l fd buf (length buf) off s = give (os_call (os_pwrite os fd buf off) s) \<and>
    real_unlink l path s = give (os_call (os_unlink os path) s) \<and>
    real_rename l path path2 s = give (os_call (os_rename os path path2) s) \<and>
    real_fork l s = fork s \<and> real_fflush l stream s = fflush stream s \<and>
    real_fprintf l stream format ap s =
      (case vformat format ap of None \<Rightarrow> Inl Fault | Some str \<Rightarrow> fprintf stream str s) \<and>
    (\<forall>m \<in> {(real_execvp l path args s, os_execvp os path args), (real_execv l path args s, os_execv os path args),
            (real_execve l path args envp s, os_execve os path args envp)}.
       andthen (fst m) (\<lambda>(ret, s). if ret = [CInt (- 1)] then Inl Exit else Inr s) = real_exec (snd m) s)"
proof -
  have "real_call l name args s = f args s"
    if "map_of (libc_exports os fork fprintf fflush) name = Some f" for name args s f
  proof (rule real_call_next [OF assms(1,2)])
    from map_of_SomeD [OF that] have "name \<in> set system_symbols"
      by (metis export_names image_eqI fst_conv list.set_map)
    with assms(4) show "\<forall>x \<in> set mid. map_of (exports x) name = None" by blast
    show "map_of (exports libc) name = Some f" by (simp only: assms(3) map_of_append_Some [OF that])
  qed
  note c = this [unfolded libc_exports_def, simplified]
  show ?thesis
    by (simp add: real_stat_def real_lstat_def real_fstat_def real_open_def real_close_def real_read_def
        real_write_def real_pread_def real_pwrite_def real_unlink_def real_rename_def real_execvp_def
        real_execv_def real_execve_def real_fork_def real_fflush_def real_fprintf_def c first_va_def libc_xstat_def
        give_exec_def real_exec_def split: prod.split option.split)
qed

text \<open>A process with an application, a library that defines every one of the names itself, and a C
  library; the system has no file and \<open>exec\<close> succeeds.\<close>

definition shadowing :: "'s dso" where
  "shadowing = \<lparr>exports = map (\<lambda>name. (name, \<lambda>args s. Inl Fault)) system_symbols\<rparr>"

definition preload_linkage :: "('d, 'x) pos_scheme \<Rightarrow> ('d, 'z) pstate_scheme linkage" where
  "preload_linkage os = \<lparr>link_map = [\<lparr>exports = []\<rparr>, shadowing,
     \<lparr>exports = libc_exports os (\<lambda>s. Inr ([CInt 8], s)) (\<lambda>_ str s. Inr ([CInt (int (length str))], s)) (\<lambda>_ s. Inr ([CInt 0], s))\<rparr>],
     self_ix = 1\<rparr>"

theorem wrappers_reach_system_witness:
  "real_unlink (preload_linkage exec_os) ''/a'' boot_pstate = give (os_call (os_unlink exec_os ''/a'') boot_pstate) \<and>
   real_fork (preload_linkage exec_os) boot_pstate = Inr ([CInt 8], boot_pstate)"
  using wrappers_reach_system [of "preload_linkage exec_os" "[\<lparr>exports = []\<rparr>]" shadowing "[]"
      "\<lparr>exports = libc_exports exec_os (\<lambda>s. Inr ([CInt 8], s)) (\<lambda>_ str s. Inr ([CInt (int (length str))], s)) (\<lambda>_ s. Inr ([CInt 0], s))\<rparr>"
      "[]" exec_os "\<lambda>s. Inr ([CInt 8], s)" "\<lambda>_ str s. Inr ([CInt (int (length str))], s)" "\<lambda>_ s. Inr ([CInt 0], s)" "[]"
      "''/a''" 0 boot_pstate]
  by (simp add: preload_linkage_def)

section \<open>From an application past the library\<close>

text \<open>A call the library does not define goes past it: the process runs as without the library.\<close>

lemma other_symbols_bypass_library:
  assumes "link_map l = pre @ lib # post" "map_of (exports lib) name = None"
  shows "call_symbol l name = call_symbol (l\<lparr>link_map := pre @ post\<rparr>) name"
  using assms by (intro ext) (auto simp: call_symbol_def scope_lookup_append split: option.split)

end
