(* ===== verification/Ufs_Load.thy ===== *)
theory Ufs_Load
  imports Ufs_Mount
begin

text \<open>
  Mounting a directory with files: the daemon loads every regular file of the tree below its
  directory, and a process that starts afterwards finds each of them under its absolute path with the
  contents it has on disk.
\<close>

section \<open>The directory\<close>

text \<open>The paths of the regular files below a directory, in the order in which \<open>upload_dir\<close> meets them.
  \<open>tree\<close> gives the entries of a directory.\<close>

function dir_files :: "(string \<Rightarrow> (string \<times> bool) list option) \<Rightarrow> string \<Rightarrow> (string \<times> bool) list \<Rightarrow> string list" where
  "dir_files tree name [] = []"
| "dir_files tree name ((d_name, is_dir) # es) =
     (let path = name @ ''/'' @ d_name in
      (if \<not> is_dir then [path]
       else if d_name = ''.'' \<or> d_name = ''..'' \<or> PATH_MAX \<le> length path then []
       else case tree path of None \<Rightarrow> [] | Some es' \<Rightarrow> dir_files tree path es') @ dir_files tree name es)"
  by pat_completeness auto
termination
  by (relation "measures [\<lambda>(tree, name, es). PATH_MAX - length name, \<lambda>(tree, name, es). length es]") auto

text \<open>No path of the tree comes near the size of the buffer.\<close>

function short_paths :: "(string \<Rightarrow> (string \<times> bool) list option) \<Rightarrow> string \<Rightarrow> (string \<times> bool) list \<Rightarrow> bool" where
  "short_paths tree name [] \<longleftrightarrow> True"
| "short_paths tree name ((d_name, is_dir) # es) \<longleftrightarrow>
     (let path = name @ ''/'' @ d_name in
      length path + 2 \<le> PATH_MAX \<and>
      (is_dir \<longrightarrow> d_name \<noteq> ''.'' \<longrightarrow> d_name \<noteq> ''..'' \<longrightarrow> length path + 2 \<le> PATH_MAX \<longrightarrow>
         (case tree path of None \<Rightarrow> True | Some es' \<Rightarrow> short_paths tree path es')) \<and>
      short_paths tree name es)"
  by pat_completeness auto
termination
  by (relation "measures [\<lambda>(tree, name, es). PATH_MAX - length name, \<lambda>(tree, name, es). length es]") auto

text \<open>What the disk is assumed to do, in the states \<open>D\<close> in which the daemon finds it between two files:
  it reports the file \<open>p\<close>, opens it, delivers all its bytes in one \<open>read\<close>, and is in one of these states
  again when the file is closed.\<close>

definition delivers :: "('d, 'x) os_scheme \<Rightarrow> 'd set \<Rightarrow> string \<Rightarrow> byte list \<Rightarrow> bool" where
  "delivers os D p buf \<longleftrightarrow> (\<forall>d \<in> D. \<exists>st e1 d1 fd e2 d2 e3 d3.
     os_stat os p d = (((0, st), e1), d1) \<and> os_open os p 0 0 d1 = ((fd, e2), d2) \<and> 0 \<le> fd \<and> st_size st = length buf \<and>
     os_read os fd (length buf) d2 = (((int (length buf), buf), e3), d3) \<and> snd (os_close os fd d3) \<in> D)"

section \<open>A sequence of files loaded\<close>

abbreviation free_mbs :: "'z mstate_scheme \<Rightarrow> nat set" where
  "free_mbs s \<equiv> {i. i < META_BUCKETS \<and> \<not> mb_in_use (mb_arr s i)}"

text \<open>Every file that had a name keeps it and its contents.\<close>

definition files_stay :: "'y mstate_scheme \<Rightarrow> 'z mstate_scheme \<Rightarrow> bool" where
  "files_stay s s' \<longleftrightarrow> (\<forall>p m. look s p = Some m \<longrightarrow> look s' p = Some m \<and>
     (\<forall>ps. file_ok s m ps \<longrightarrow> file_ok s' m ps \<and> content s' ps = content s ps))"

lemma files_stay_trans: "files_stay s t \<Longrightarrow> files_stay t u \<Longrightarrow> files_stay s u"
  unfolding files_stay_def by (metis (no_types))

text \<open>\<open>fs\<close> lists the absolute paths of the files loaded with their contents.\<close>

definition all_loaded ::
  "'d set \<Rightarrow> (string \<times> byte list) list \<Rightarrow> ('d, 'z) ustate_scheme \<Rightarrow> ('d, 'z) ustate_scheme \<Rightarrow> bool" where
  "all_loaded D fs s s' \<longleftrightarrow>
     minv s' \<and> alloc_inv s' \<and> disk s' \<in> D \<and> ustate.more s' = ustate.more s \<and> alloc_method (sysg s') = alloc_method (sysg s) \<and>
     dom (look s') = dom (look s) \<union> fst ` set fs \<and> card (free_mbs s') + length fs = card (free_mbs s) \<and>
     files_stay s s' \<and>
     (\<forall>(p, buf) \<in> set fs. \<exists>m ps. look s' p = Some m \<and> file_ok s' m ps \<and> content s' ps = buf)"

lemma all_loaded_Nil: "minv s \<Longrightarrow> alloc_inv s \<Longrightarrow> disk s \<in> D \<Longrightarrow> all_loaded D [] s s"
  by (simp add: all_loaded_def files_stay_def)

lemma all_loaded_trans:
  assumes "all_loaded D fs s t" "all_loaded D gs t u"
  shows "all_loaded D (fs @ gs) s u"
  unfolding all_loaded_def
proof (intro conjI)
  have st: "files_stay s t" "files_stay t u" using assms by (simp_all add: all_loaded_def)
  show "files_stay s u" by (rule files_stay_trans [OF st])
  show "\<forall>(p, buf) \<in> set (fs @ gs). \<exists>m ps. look u p = Some m \<and> file_ok u m ps \<and> content u ps = buf"
  proof clarify
    fix p buf assume "(p, buf) \<in> set (fs @ gs)"
    then consider "(p, buf) \<in> set fs" | "(p, buf) \<in> set gs" by auto
    then show "\<exists>m ps. look u p = Some m \<and> file_ok u m ps \<and> content u ps = buf"
    proof cases
      case 1
      with assms(1) obtain m ps where "look t p = Some m" "file_ok t m ps" "content t ps = buf"
        unfolding all_loaded_def by fast
      with st(2) show ?thesis unfolding files_stay_def by blast
    next
      case 2
      with assms(2) show ?thesis unfolding all_loaded_def by fast
    qed
  qed
qed (use assms in \<open>auto simp: all_loaded_def\<close>)

lemma has_loaded_all:
  assumes "minv s" "has_loaded p m st buf s s'" "disk s' \<in> D" "look s p = None"
  shows "all_loaded D [(p, buf)] s s'"
proof -
  have "free_mbs s = insert m (free_mbs s')" "m \<notin> free_mbs s'" using assms(2) by (auto simp: has_loaded_def)
  then have "card (free_mbs s') + 1 = card (free_mbs s)" by simp
  moreover have "m' \<noteq> m" if "look s q = Some m'" for q m'
    using look_in_use(1) [OF assms(1) that] assms(2) by (auto simp: has_loaded_def)
  ultimately show ?thesis
    using assms(2-4) by (auto simp: all_loaded_def has_loaded_def files_kept_def files_stay_def)
qed

section \<open>Loading the directory\<close>

text \<open>A result that is one satisfies \<open>P\<close>; otherwise the process has exited.\<close>

definition or_exit :: "('a \<Rightarrow> bool) \<Rightarrow> 'a res \<Rightarrow> bool" where
  "or_exit P r \<longleftrightarrow> (case r of Inl e \<Rightarrow> e = Exit | Inr x \<Rightarrow> P x)"

lemma or_exit_simps [simp]: "or_exit P (Inl e) = (e = Exit)" "or_exit P (Inr x) = P x"
  by (simp_all add: or_exit_def)

lemma or_exit_andthen: "or_exit P m \<Longrightarrow> (\<And>x. P x \<Longrightarrow> or_exit Q (k x)) \<Longrightarrow> or_exit Q (andthen m k)"
  by (cases m) auto

text \<open>The absolute path of a file, and the file with its contents.\<close>

definition key :: "string option \<Rightarrow> string \<Rightarrow> string" where
  "key cwd f = (case full_path cwd f of Inl e \<Rightarrow> [] | Inr k \<Rightarrow> k)"

abbreviation entries :: "string option \<Rightarrow> (string \<Rightarrow> byte list) \<Rightarrow> string list \<Rightarrow> (string \<times> byte list) list" where
  "entries cwd bytes \<equiv> map (\<lambda>f. (key cwd f, bytes (key cwd f)))"

definition loadable ::
  "('d, 'x) os_scheme \<Rightarrow> 'd set \<Rightarrow> string option \<Rightarrow> (string \<Rightarrow> byte list) \<Rightarrow> string list \<Rightarrow> ('d, 'z) ustate_scheme \<Rightarrow> bool" where
  "loadable os D cwd bytes files s \<longleftrightarrow>
     (\<forall>f \<in> set files. full_path cwd f = Inr (key cwd f) \<and> ok_path (key cwd f) \<and> fits_path (key cwd f) \<and>
        look s (key cwd f) = None \<and> delivers os D (key cwd f) (bytes (key cwd f))) \<and>
     distinct (map (key cwd) files) \<and> length files \<le> card (free_mbs s)"

lemma loadable_rest:
  assumes "loadable os D cwd bytes (fs @ gs) s" "all_loaded D (entries cwd bytes fs) s t"
  shows "loadable os D cwd bytes gs t"
proof -
  have d: "dom (look t) = dom (look s) \<union> key cwd ` set fs" "card (free_mbs t) + length fs = card (free_mbs s)"
    using assms(2) by (auto simp: all_loaded_def image_image)
  have "look t (key cwd f) = None" if "f \<in> set gs" for f
  proof -
    have "key cwd f \<notin> key cwd ` set fs" "look s (key cwd f) = None"
      using assms(1) that by (auto simp: loadable_def)
    with d(1) show ?thesis by (auto simp: domIff)
  qed
  with assms(1) d(2) show ?thesis by (auto simp: loadable_def)
qed

lemma loadable_first: "loadable os D cwd bytes (fs @ gs) s \<Longrightarrow> loadable os D cwd bytes fs s"
  by (auto simp: loadable_def)

lemma upload_one:
  assumes "minv s" "alloc_inv s" "disk s \<in> D" "loadable os D cwd bytes [f] s"
  shows "or_exit (all_loaded D (entries cwd bytes [f]) s)
    (andthen (full_path cwd f) (\<lambda>fpath. andthen (upload_file os fpath s) (\<lambda>(_, s). Inr s)))"
proof -
  let ?k = "key cwd f" and ?b = "bytes (key cwd f)"
  have k: "full_path cwd f = Inr ?k" "ok_path ?k" "fits_path ?k" "look s ?k = None" "delivers os D ?k ?b"
    and "1 \<le> card (free_mbs s)"
    using assms(4) by (auto simp: loadable_def)
  then have n: "free_mbs s \<noteq> {}" by (metis card.empty not_one_le_zero)
  from k(5) assms(3) obtain st e1 d1 fd e2 d2 e3 d3 where d:
      "os_stat os ?k (disk s) = (((0, st), e1), d1)" "os_open os ?k 0 0 d1 = ((fd, e2), d2)" "0 \<le> fd" "st_size st = length ?b"
      "os_read os fd (length ?b) d2 = (((int (length ?b), ?b), e3), d3)" "snd (os_close os fd d3) \<in> D"
    unfolding delivers_def by blast
  from upload_file_result [OF assms(1,2) k(2-4) d(1-3), unfolded d(4), OF d(5) refl] n
  have "or_exit (\<lambda>(r, s'). all_loaded D [(?k, ?b)] s s') (upload_file os ?k s)"
    using has_loaded_all [OF assms(1) _ _ k(4)] d(6)
    by (auto simp: or_exit_def split: sum.splits option.splits)
  then show ?thesis using k(1) by (auto intro!: or_exit_andthen)
qed

text \<open>The daemon's calls see one directory and one working directory in all states of the disk.\<close>

definition static_dir ::
  "('d, 'x) os_scheme \<Rightarrow> 'd readdir \<Rightarrow> 'd set \<Rightarrow> string option \<Rightarrow> (string \<Rightarrow> (string \<times> bool) list option) \<Rightarrow> bool" where
  "static_dir os rd D cwd tree \<longleftrightarrow> (\<forall>d \<in> D. os_getcwd os d = cwd \<and> (\<forall>name. rd name d = tree name))"

lemma upload_entries_loads:
  assumes "static_dir os rd D cwd tree"
  shows "minv s \<Longrightarrow> alloc_inv s \<Longrightarrow> disk s \<in> D \<Longrightarrow> short_paths tree name es \<Longrightarrow>
    loadable os D cwd bytes (dir_files tree name es) s \<Longrightarrow>
    or_exit (all_loaded D (entries cwd bytes (dir_files tree name es)) s) (upload_entries os rd name es s)"
  using assms
proof (induction tree name es arbitrary: s rule: dir_files.induct)
  case (1 tree name)
  then show ?case by (simp add: all_loaded_Nil)
next
  case (2 tree name d_name is_dir es)
  let ?path = "name @ CHR ''/'' # d_name"
  let ?fs = "if \<not> is_dir then [?path] else if d_name = ''.'' \<or> d_name = ''..'' then []
      else case tree ?path of None \<Rightarrow> [] | Some es' \<Rightarrow> dir_files tree ?path es'"
  let ?gs = "dir_files tree name es"
  let ?first = "if is_dir then
       (if d_name = ''.'' \<or> d_name = ''..'' then Inr s
        else case rd ?path (disk s) of None \<Rightarrow> Inr s | Some es' \<Rightarrow> upload_entries os rd ?path es' s)
     else andthen (full_path (os_getcwd os (disk s)) ?path) (\<lambda>fpath. andthen (upload_file os fpath s) (\<lambda>(_, s). Inr s))"
  have len: "length ?path + 2 \<le> PATH_MAX" "short_paths tree name es" using "2.prems"(4) by (simp_all add: Let_def)
  then have files: "dir_files tree name ((d_name, is_dir) # es) = ?fs @ ?gs"
    and run: "upload_entries os rd name ((d_name, is_dir) # es) s = andthen ?first (upload_entries os rd name es)"
    by (simp_all add: Let_def cong: option.case_cong)
  have static: "rd n (disk s) = tree n" "os_getcwd os (disk s) = cwd" for n
    using "2.prems"(3,6) by (simp_all add: static_dir_def)
  note ld = "2.prems"(5) [unfolded files]
  have "or_exit (all_loaded D (entries cwd bytes ?fs) s) ?first"
  proof (cases "is_dir \<and> d_name \<noteq> ''.'' \<and> d_name \<noteq> ''..''")
    case True
    show ?thesis
    proof (cases "tree ?path")
      case None
      with True "2.prems"(1-3) show ?thesis by (simp add: static all_loaded_Nil)
    next
      case (Some es')
      have "short_paths tree ?path es'" using "2.prems"(4) True Some by (simp add: Let_def)
      moreover have "loadable os D cwd bytes (dir_files tree ?path es') s"
        using loadable_first [OF ld] True Some by simp
      ultimately show ?thesis
        using "2.IH"(1) [of ?path, OF _ _ _ Some "2.prems"(1-3) _ _ "2.prems"(6)] True Some len(1) by (simp add: static)
    qed
  next
    case False
    then consider "\<not> is_dir" | "is_dir" "d_name = ''.'' \<or> d_name = ''..''" by auto
    then show ?thesis
    proof cases
      case 1
      with upload_one [OF "2.prems"(1-3)] loadable_first [OF ld] show ?thesis by (simp add: static)
    next
      case 2
      with "2.prems"(1-3) show ?thesis by (simp add: all_loaded_Nil)
    qed
  qed
  then show ?case unfolding run files map_append
  proof (rule or_exit_andthen)
    fix t assume t: "all_loaded D (entries cwd bytes ?fs) s t"
    then have "minv t" "alloc_inv t" "disk t \<in> D" by (simp_all add: all_loaded_def)
    note IH = "2.IH"(2) [OF refl this len(2) loadable_rest [OF ld t] "2.prems"(6)]
    show "or_exit (all_loaded D (entries cwd bytes ?fs @ entries cwd bytes ?gs) s) (upload_entries os rd name es t)"
      using IH all_loaded_trans [OF t] by (auto simp: or_exit_def split: sum.splits)
  qed
qed

section \<open>From the mount to a process that reads\<close>

lemma ustate_more_pstate:
  "ustate.more s' = ustate.more s \<Longrightarrow>
     mainm_seg s' = mainm_seg s \<and> pid_seg s' = pid_seg s \<and> pid_meta s' = pid_meta (s :: ('d, 'z) pstate_scheme)"
  by (cases s, cases s') simp

lemma loaded_serving:
  assumes "fresh meth t" "meth \<le> 2" "all_loaded D fs t t'"
  shows "serving meth t'"
proof -
  have l: "minv t'" "alloc_inv t'" "alloc_method (sysg t') = meth" "ustate.more t' = ustate.more t"
    using assms(1,3) by (simp_all add: all_loaded_def fresh_def)
  then have "dinv t'" "dbucket_steps (sysg t') = int TOTAL_STEPS_ALLOWED" by (simp_all add: alloc_inv_def)
  moreover have "mounted t'"
    using assms(1) ustate_more_pstate [OF l(4)] \<open>dinv t'\<close> by (simp add: fresh_def mounted_def dinv_def)
  ultimately show ?thesis
    using assms(1,2) l ustate_more_pstate [OF l(4)] by (simp add: serving_def fresh_def dinv_def)
qed

lemma fresh_alloc_inv:
  assumes "fresh meth t" "1 \<le> meth" "meth \<le> 2" "alloc_method_ind t = meth"
    "\<forall>k. int k < dbucket_steps (sysg t) \<longrightarrow> data_steps t k"
  shows "alloc_inv t"
  using assms by (auto simp: alloc_inv_def dinv_def fresh_def mounted_def)

text \<open>The mount of a directory whose files the disk delivers.\<close>

lemma daemon_loads:
  assumes "unmounted s" "select_alloc defined = Inr meth" "1 \<le> meth" "meth \<le> 2" "parse_options getopts = (c, opt)" "0 \<le> c"
    "name = (case dir_name opt of None \<Rightarrow> ''.'' | Some r \<Rightarrow> r)" "tree name = Some es" "short_paths tree name es"
    "static_dir os rd D cwd tree" "disk s \<in> D" "files = dir_files tree name es"
    "\<forall>f \<in> set files. full_path cwd f = Inr (key cwd f) \<and> ok_path (key cwd f) \<and> fits_path (key cwd f) \<and>
       delivers os D (key cwd f) (bytes (key cwd f))"
    "distinct (map (key cwd) files)" "length files \<le> META_BUCKETS"
  shows "or_exit (\<lambda>t'. serving meth t' \<and> dom (look t') = key cwd ` set files \<and>
      (\<forall>f \<in> set files. \<exists>m ps. look t' (key cwd f) = Some m \<and> file_ok t' m ps \<and> content t' ps = bytes (key cwd f)))
    (daemon_main os rd defined argv getopts s)"
proof -
  let ?s = "s\<lparr>alloc_method_ind := meth\<rparr>"
  have "unmounted ?s" using assms(1) by (simp add: unmounted_def)
  then obtain t where t: "init_mount_mem 0 ?s = Inr t" "fresh meth t" "disk t = disk s" "alloc_method_ind t = meth"
      "\<forall>k. int k < dbucket_steps (sysg t) \<longrightarrow> data_steps t k"
    using init_mount_mem_fresh [of ?s 0] assms(3,4) by auto
  note al = fresh_alloc_inv [OF t(2) assms(3,4) t(4,5)]
  have rows: "rows_ok t (\<lambda>_. [])" "free_mbs t = {..<META_BUCKETS}" using t(2) by (auto simp: fresh_def)
  note names = no_rows_look [OF rows(1)]
  have "loadable os D cwd bytes files t"
    using assms(13-15) by (simp add: loadable_def names rows(2))
  then have "or_exit (all_loaded D (entries cwd bytes files) t) (upload_entries os rd name es t)"
    using upload_entries_loads [OF assms(10) names(1) al _ assms(9)] assms(11,12) t(3) by simp
  moreover have "rd name (disk t) = Some es" using assms(8,10,11) t(3) by (simp add: static_dir_def)
  then have "daemon_main os rd defined argv getopts s = upload_entries os rd name es t"
    using assms(2,4-7) t(1) by (simp add: daemon_main_def init_mount_def upload_dir_def)
  moreover have "serving meth t' \<and> dom (look t') = key cwd ` set files \<and>
      (\<forall>f \<in> set files. \<exists>m ps. look t' (key cwd f) = Some m \<and> file_ok t' m ps \<and> content t' ps = bytes (key cwd f))"
    if "all_loaded D (entries cwd bytes files) t t'" for t'
    using that loaded_serving [OF t(2) assms(4) that] names(2) by (auto simp: all_loaded_def image_image)
  ultimately show ?thesis by (auto simp: or_exit_def split: sum.splits)
qed

text \<open>A process that opens a file by any spelling of its path reads its bytes.\<close>

definition readable :: "('d, 'x) os_scheme \<Rightarrow> ('d, 'z) ustate_scheme \<Rightarrow> string \<Rightarrow> byte list \<Rightarrow> bool" where
  "readable os u fpath buf \<longleftrightarrow>
     (\<forall>path n. \<not> exclusive_path path \<longrightarrow> length path \<le> PATH_MAX \<longrightarrow> full_path (os_getcwd os (disk u)) path = Inr fpath \<longrightarrow>
        (\<exists>w. andthen (ufs_open os path 0 0 u) (\<lambda>(fd, v). ufs_read os fd n v) =
           Inr ((int (length (take n buf)), take n buf), w)))"

lemma attached_readable:
  assumes "serving meth t" "attached_to t u" "look t k = Some m" "file_ok t m ps" "fits_path k"
  shows "readable os u k (content t ps)"
  unfolding readable_def
proof (intro allI impI)
  fix path n
  assume p: "\<not> exclusive_path path" "length path \<le> PATH_MAX" "full_path (os_getcwd os (disk u)) path = Inr k"
  have u: "mb_arr u = mb_arr t" "dbs u = dbs t" "live u = live t" "alloc_inv u" "fd_inv u" "lowest_fd u FIRST_USER_FD"
      "\<not> calling_shm_open u" "minv u" "look u = look t"
    using assms(1,2) attached_names [OF assms(2)] by (simp_all add: attached_to_def serving_def)
  have "ok_path k" using assms(3) look_not_ok [of k t] by auto
  then have nf: "names_file os path k u" using p u(7) assms(5) by (simp add: names_file_def)
  note fr = dchain_frame [of ps u t, OF _ u(3), unfolded u(2), OF refl]
  have "file_ok u m ps" "content u ps = content t ps" using assms(4) fr by (simp_all add: file_ok_def u(1))
  with reopen_read [OF u(8,4,5) nf, of m ps FIRST_USER_FD n] assms(3) u(6,9) look_in_use(2) [OF u(8)]
  show "\<exists>w. andthen (ufs_open os path 0 0 u) (\<lambda>(fd, v). ufs_read os fd n v) =
      Inr ((int (length (take n (content t ps))), take n (content t ps)), w)" by auto
qed

text \<open>
  (C3) The purpose of the whole system. The daemon mounts a directory with subdirectories and files: the
  name table then has an entry for every regular file of the tree, under its absolute path, and no other;
  and a process that starts with the library and opens one of them, by any spelling of its path, reads
  the bytes that the file has on disk. The daemon may exit for want of
  data buckets. The disk is assumed to deliver each file in one \<open>read\<close>; the paths must be of 7-bit
  characters, shorter than the buffers and different from each other, and there must be no more files
  than metadata buckets.
\<close>

theorem mounted_directory_is_served:
  assumes "unmounted s" "select_alloc defined = Inr meth" "1 \<le> meth" "meth \<le> 2" "parse_options getopts = (c, opt)" "0 \<le> c"
    "name = (case dir_name opt of None \<Rightarrow> ''.'' | Some r \<Rightarrow> r)" "tree name = Some es" "short_paths tree name es"
    "static_dir os rd D cwd tree" "disk s \<in> D" "files = dir_files tree name es"
    "\<forall>f \<in> set files. full_path cwd f = Inr (key cwd f) \<and> ok_path (key cwd f) \<and> fits_path (key cwd f) \<and>
       delivers os D (key cwd f) (bytes (key cwd f))"
    "distinct (map (key cwd) files)" "length files \<le> META_BUCKETS" "p \<noteq> 0"
  shows "case daemon_main os rd defined argv getopts s of
      Inl e \<Rightarrow> e = Exit
    | Inr t \<Rightarrow> \<exists>u. ufs_init os' (load_image (t\<lparr>kpid := p\<rparr>)) = Inr u \<and> dom (look u) = key cwd ` set files \<and>
        (\<forall>f \<in> set files. readable os' u (key cwd f) (bytes (key cwd f)))"
proof -
  have "\<exists>u. ufs_init os' (load_image (t\<lparr>kpid := p\<rparr>)) = Inr u \<and> dom (look u) = key cwd ` set files \<and>
      (\<forall>f \<in> set files. readable os' u (key cwd f) (bytes (key cwd f)))"
    if t: "serving meth t" "dom (look t) = key cwd ` set files"
      "\<forall>f \<in> set files. \<exists>m ps. look t (key cwd f) = Some m \<and> file_ok t m ps \<and> content t ps = bytes (key cwd f)" for t
  proof -
    obtain u where u: "ufs_init os' (load_image (t\<lparr>kpid := p\<rparr>)) = Inr u" "attached_to t u"
      using serving_init [OF t(1) assms(3) _ _ assms(16), of os'] assms(4) by auto
    moreover have "readable os' u (key cwd f) (bytes (key cwd f))" if "f \<in> set files" for f
      using attached_readable [OF t(1) u(2)] t(3) assms(13) that by metis
    ultimately show ?thesis using t(2) attached_names [OF u(2)] by auto
  qed
  with daemon_loads [OF assms(1-15), of argv] show ?thesis by (auto simp: or_exit_def split: sum.splits)
qed

text \<open>A directory with a file and a subdirectory with another file.\<close>

definition demo_tree :: "string \<Rightarrow> (string \<times> bool) list option" where
  "demo_tree name =
     (if name = ''/d'' then Some [(''.'', True), (''a'', False), (''e'', True)]
      else if name = ''/d/e'' then Some [(''..'', True), (''b'', False)] else None)"

definition demo_bytes :: "string \<Rightarrow> byte list" where
  "demo_bytes p = (if p = ''/d/a'' then [1, 2, 3] else [4])"

definition demo_disk :: "unit os" where
  "demo_disk = null_os\<lparr>os_stat := (\<lambda>p d. (((0, zero_stat\<lparr>st_size := length (demo_bytes p)\<rparr>), None), d)),
     os_open := (\<lambda>p _ _ d. ((if p = ''/d/a'' then 5 else 6, None), d)),
     os_read := (\<lambda>fd n d. (((int n, if fd = 5 then [1, 2, 3] else [4]), None), d))\<rparr>"

lemma demo_dir:
  "dir_files demo_tree ''/d'' [(''.'', True), (''a'', False), (''e'', True)] = [''/d/a'', ''/d/e/b'']"
  "short_paths demo_tree ''/d'' [(''.'', True), (''a'', False), (''e'', True)]"
  by (simp_all add: demo_tree_def Let_def ufs_config)

lemma demo_dir_paths:
  assumes "f \<in> {''/d/a'', ''/d/e/b''}"
  shows "full_path (Some ''/'') f = Inr f" "ok_path f" "fits_path f" "delivers demo_disk UNIV f (demo_bytes f)"
  using assms
  by (auto simp: full_path_def build_abs_path_def char_at_def Let_def fits_path_def ok_path_def ascii_def ufs_config
      delivers_def demo_disk_def demo_bytes_def)

theorem mounted_directory_is_served_witness:
  "case daemon_main demo_disk (\<lambda>name _. demo_tree name) [False, True, False, False, False] [''daemon''] [(Some CHR ''p'', ''/d'')]
      (boot_pstate\<lparr>mainm_seg := False, pid_seg := False, cores_seg := False, segs := (\<lambda>_. False)\<rparr>) of
     Inl e \<Rightarrow> e = Exit
   | Inr t \<Rightarrow> \<exists>u. ufs_init exec_os (load_image (t\<lparr>kpid := 9\<rparr>)) = Inr u \<and> dom (look u) = {''/d/a'', ''/d/e/b''} \<and>
       readable exec_os u ''/d/a'' [1, 2, 3] \<and> readable exec_os u ''/d/e/b'' [4]"
proof -
  let ?s = "boot_pstate\<lparr>mainm_seg := False, pid_seg := False, cores_seg := False, segs := (\<lambda>_. False)\<rparr>"
  let ?fs = "[''/d/a'', ''/d/e/b'']" and ?es = "[(''.'', True), (''a'', False), (''e'', True)]"
  let ?o = "[(Some CHR ''p'', ''/d'')]"
  have k: "key (Some ''/'') f = f" if "f \<in> set ?fs" for f using demo_dir_paths(1) [of f] that by (simp add: key_def)
  have "unmounted ?s" by (simp add: unmounted_def)
  moreover have "select_alloc [False, True, False, False, False] = Inr 1" by (simp add: select_alloc_def)
  moreover have "parse_options ?o = (1, \<lparr>dir_name = Some ''/d'', daemon_mode = False\<rparr>)" by (simp add: parse_options_def)
  moreover have "demo_tree ''/d'' = Some ?es" by (simp add: demo_tree_def)
  moreover have "static_dir demo_disk (\<lambda>name _. demo_tree name) UNIV (Some ''/'') demo_tree"
    by (simp add: static_dir_def demo_disk_def null_os_def)
  moreover have "\<forall>f \<in> set ?fs. full_path (Some ''/'') f = Inr (key (Some ''/'') f) \<and> ok_path (key (Some ''/'') f) \<and>
      fits_path (key (Some ''/'') f) \<and> delivers demo_disk UNIV (key (Some ''/'') f) (demo_bytes (key (Some ''/'') f))"
    using demo_dir_paths k by simp
  moreover have "distinct (map (key (Some ''/'')) ?fs)" "key (Some ''/'') ` set ?fs = set ?fs" using k by simp_all
  ultimately show ?thesis
    using mounted_directory_is_served [of ?s "[False, True, False, False, False]" 1 ?o 1
        "\<lparr>dir_name = Some ''/d'', daemon_mode = False\<rparr>" "''/d''" demo_tree ?es demo_disk "\<lambda>name _. demo_tree name" UNIV
        "Some ''/''" ?fs demo_bytes 9 exec_os "[''daemon'']"] k demo_dir
    by (auto simp: demo_bytes_def ufs_config split: sum.splits)
qed

end
