(* ===== verification/Ufs_Log.thy ===== *)
theory Ufs_Log
  imports Ufs_Glibc "HOL-Library.Multiset"
begin

text \<open>
  The macros of \<open>system/include/dlog.h\<close> and \<open>fdlog.h\<close>, with which the program prints messages and ends
  on errors, and the counters of \<open>system/include/profile.h\<close>. Output is a call of \<open>fprintf\<close>: by name in
  the daemon, through the wrapper of \<open>glibccall.h\<close> in the library.
\<close>

section \<open>Messages\<close>

text \<open>The compile-time settings; \<open>None\<close> when \<open>UFS_DEBUG\<close> is not defined.\<close>

record dlog_cfg =
  UFS_DEBUG :: "int option"
  UFS_DEBUG_SHOW_LOCATION :: int
  UFS_DEBUG_SHOW_PID :: int

text \<open>Where a macro is used: the linkage of the process, its \<open>stderr\<close>, \<open>getpid()\<close>, \<open>__FILE__\<close>,
  \<open>__LINE__\<close> and \<open>__FUNCTION__\<close>.\<close>

record 's site =
  at_link :: "'s linkage"
  at_stderr :: nat
  at_pid :: int
  at_file :: string
  at_line :: int
  at_function :: string

definition say :: "'s site \<Rightarrow> string \<Rightarrow> cval list \<Rightarrow> 's \<Rightarrow> 's res" where
  "say x format ap s = after (call_symbol (at_link x) ''fprintf'' (CPtr (at_stderr x) # CStr format # ap) s)"

definition real_say :: "'s site \<Rightarrow> string \<Rightarrow> cval list \<Rightarrow> 's \<Rightarrow> 's res" where
  "real_say x format ap s = after (real_fprintf (at_link x) (at_stderr x) format ap s)"

definition server_dlog :: "dlog_cfg \<Rightarrow> int \<Rightarrow> 's site \<Rightarrow> int \<Rightarrow> string \<Rightarrow> cval list \<Rightarrow> 's \<Rightarrow> 's res" where
  "server_dlog cfg debug x level format ap s =
     (if debug > level then
        andthen (if UFS_DEBUG_SHOW_PID cfg > 0 then say x ''(%ld)'' [CInt (at_pid x)] s else Inr s) (\<lambda>s.
        andthen (if UFS_DEBUG_SHOW_LOCATION cfg > 0 then say x ''(%s:%d)'' [CStr (at_file x), CInt (at_line x)] s else Inr s) (\<lambda>s.
        andthen (say x format ap s) (\<lambda>s.
          after (call_symbol (at_link x) ''fflush'' [CPtr (at_stderr x)] s))))
      else Inr s)"

definition client_dlog :: "dlog_cfg \<Rightarrow> int \<Rightarrow> 's site \<Rightarrow> int \<Rightarrow> string \<Rightarrow> cval list \<Rightarrow> 's \<Rightarrow> 's res" where
  "client_dlog cfg debug x level format ap s =
     (if debug > level then
        andthen (if UFS_DEBUG_SHOW_PID cfg > 0 then real_say x ''(%ld)'' [CInt (at_pid x)] s else Inr s) (\<lambda>s.
        andthen (if UFS_DEBUG_SHOW_LOCATION cfg > 0 then real_say x ''(%s:%d)'' [CStr (at_file x), CInt (at_line x)] s
                 else Inr s) (\<lambda>s.
          real_say x format ap s))
      else Inr s)"

text \<open>\<open>init_called\<close>: the variable \<open>ufs_init_called\<close>, which only the library's constructor sets.\<close>

definition dlog :: "dlog_cfg \<Rightarrow> 's site \<Rightarrow> bool \<Rightarrow> int \<Rightarrow> string \<Rightarrow> cval list \<Rightarrow> 's \<Rightarrow> 's res" where
  "dlog cfg x init_called level format ap s =
     (case UFS_DEBUG cfg of None \<Rightarrow> Inr s
      | Some debug \<Rightarrow>
          if init_called then client_dlog cfg debug x level format ap s else server_dlog cfg debug x level format ap s)"

definition fdlog :: "int \<Rightarrow> 's site \<Rightarrow> nat option \<Rightarrow> int \<Rightarrow> string \<Rightarrow> cval list \<Rightarrow> 's \<Rightarrow> 's res" where
  "fdlog debug x fdlog_out level format ap s =
     (if debug > 0 \<and> debug > level then
        (case fdlog_out of
           Some out \<Rightarrow>
             (let y = x\<lparr>at_stderr := out\<rparr> in
              andthen (real_say y ''(%ld)'' [CInt (at_pid x)] s) (\<lambda>s.
              andthen (real_say y format ap s) (\<lambda>s. after (real_fflush (at_link x) out s))))
         | None \<Rightarrow>
             andthen (real_say x (''Warning!!! FILE pointer invalid, use stderr instead'' @ [char_of (10 :: nat)] @ ''!'') [] s) (\<lambda>s.
             andthen (real_say x ''(%ld)'' [CInt (at_pid x)] s) (\<lambda>s. real_say x format ap s)))
      else Inr s)"

section \<open>Errors\<close>

text \<open>The state behind the macro and whether \<open>exit(EXIT_FAILURE)\<close> has been called.\<close>

definition server_EHANDLE :: "'s site \<Rightarrow> string \<Rightarrow> 'v \<Rightarrow> 'v \<Rightarrow> 's \<Rightarrow> (bool \<times> 's) res" where
  "server_EHANDLE x fname retval errval s =
     (if retval = errval then
        andthen (after (call_symbol (at_link x) ''perror'' [CStr fname] s)) (\<lambda>s.
        andthen (say x ''(%s:%d)'' [CStr (at_file x), CInt (at_line x)] s) (\<lambda>s. Inr (True, s)))
      else Inr (False, s))"

definition client_EHANDLE :: "'s site \<Rightarrow> string \<Rightarrow> 'v \<Rightarrow> 'v \<Rightarrow> 's \<Rightarrow> (bool \<times> 's) res" where
  "client_EHANDLE x fname retval errval s =
     (if retval = errval then
        andthen (after (call_symbol (at_link x) ''perror'' [CStr fname] s)) (\<lambda>s.
        andthen (real_say x ''(%s:%d)'' [CStr (at_file x), CInt (at_line x)] s) (\<lambda>s. Inr (True, s)))
      else Inr (False, s))"

definition EHANDLE :: "'s site \<Rightarrow> bool \<Rightarrow> string \<Rightarrow> 'v \<Rightarrow> 'v \<Rightarrow> 's \<Rightarrow> (bool \<times> 's) res" where
  "EHANDLE x init_called fname retval errval s =
     (if init_called then client_EHANDLE x fname retval errval s else server_EHANDLE x fname retval errval s)"

text \<open>The state when \<open>UEHANDLE\<close> calls \<open>exit(EXIT_FAILURE)\<close>.\<close>

definition UEHANDLE :: "'s site \<Rightarrow> string \<Rightarrow> cval list \<Rightarrow> 's \<Rightarrow> 's res" where
  "UEHANDLE x format ap s =
     andthen (real_say x ''(%ld)'' [CInt (at_pid x)] s) (\<lambda>s.
     andthen (real_say x ''[ufs: %s] Error: '' [CStr (at_function x)] s) (\<lambda>s.
     andthen (real_say x format ap s) (\<lambda>s.
       real_say x (''(%s:%d)'' @ [char_of (10 :: nat)]) [CStr (at_file x), CInt (at_line x)] s)))"

section \<open>Profile\<close>

datatype profile_calls =
    CLOSE | READ | WRITE | OPEN | STAT | LSTAT | FSTAT | DUP | DUP2 | DUP3 | LSEEK | MMAP
  | ACCESS | UNLINK | EXECVP | EXECV | EXECVE | PIPE | RENAME | CHMOD | REALPATH

definition profile_order :: "profile_calls list" where
  "profile_order = [CLOSE, READ, WRITE, OPEN, STAT, LSTAT, FSTAT, DUP, DUP2, DUP3, LSEEK, MMAP,
     ACCESS, UNLINK, EXECVP, EXECV, EXECVE, PIPE, RENAME, CHMOD, REALPATH]"

definition NUM_OF_CALLS :: nat where "NUM_OF_CALLS = 21"

fun profile_index :: "profile_calls \<Rightarrow> nat" where
  "profile_index CLOSE = 0" | "profile_index READ = 1" | "profile_index WRITE = 2" | "profile_index OPEN = 3"
| "profile_index STAT = 4" | "profile_index LSTAT = 5" | "profile_index FSTAT = 6" | "profile_index DUP = 7"
| "profile_index DUP2 = 8" | "profile_index DUP3 = 9" | "profile_index LSEEK = 10" | "profile_index MMAP = 11"
| "profile_index ACCESS = 12" | "profile_index UNLINK = 13" | "profile_index EXECVP = 14" | "profile_index EXECV = 15"
| "profile_index EXECVE = 16" | "profile_index PIPE = 17" | "profile_index RENAME = 18" | "profile_index CHMOD = 19"
| "profile_index REALPATH = 20"

definition profile_name :: "string list" where
  "profile_name = [''close'', ''read'', ''write'', ''open'', ''stat'', ''lstat'', ''fstat'', ''dup'', ''dup2'', ''dup3'',
     ''lseek'', ''mmap'', ''access'', ''unlink'', ''execvp'', ''execv'', ''execve'', ''pipe'', ''rename'', ''chmod'', ''realpath'']"

text \<open>The counters are 64-bit integers in shared memory; \<open>profile_end\<close> adds to one of them in one atomic
  step the time since \<open>profile_begin\<close>.\<close>

type_synonym profile_mem = "nat \<Rightarrow> u64"

definition init_profile :: "profile_mem \<Rightarrow> profile_mem" where
  "init_profile m = (\<lambda>i. if i < NUM_OF_CALLS then 0 else m i)"

definition profile_end :: "profile_calls \<Rightarrow> u64 \<Rightarrow> u64 \<Rightarrow> profile_mem \<Rightarrow> profile_mem" where
  "profile_end name profile_b profile_e m =
     m(profile_index name := m (profile_index name) + (profile_e - profile_b))"

text \<open>The lines of the report: name, ticks, and seconds as \<open>secs\<close> prints them.\<close>

fun output_loop :: "(u64 \<Rightarrow> 'f) \<Rightarrow> profile_mem \<Rightarrow> nat list \<Rightarrow> u64 \<Rightarrow> (string \<times> u64 \<times> 'f) list" where
  "output_loop secs m [] tot = [(''Total'', tot, secs tot)]"
| "output_loop secs m (i # is) tot =
     (profile_name ! i, m i, secs (m i)) # output_loop secs m is (tot + m i)"

definition output_profile :: "(u64 \<Rightarrow> 'f) \<Rightarrow> profile_mem \<Rightarrow> (string \<times> u64 \<times> 'f) list" where
  "output_profile secs m = output_loop secs m [0 ..< NUM_OF_CALLS] 0"

section \<open>Properties\<close>

text \<open>As the Makefile builds it, with \<open>UFS_DEBUG\<close> 0, only messages of a negative level are printed.\<close>

lemma dlog_quiet:
  "UFS_DEBUG cfg = Some 0 \<Longrightarrow> 0 \<le> level \<Longrightarrow> dlog cfg x init_called level format ap s = Inr s"
  by (simp add: dlog_def client_dlog_def server_dlog_def)

text \<open>A process whose \<open>fprintf\<close>, by name and behind the library, appends a text to a list, and whose
  \<open>perror\<close> returns.\<close>

definition prints :: "'s site \<Rightarrow> ('s \<Rightarrow> string \<Rightarrow> 's) \<Rightarrow> bool" where
  "prints x out \<longleftrightarrow>
     (let f = libc_fprintf (\<lambda>stream t s. Inr ([CInt (int (length t))], if stream = at_stderr x then out s t else s))
      in scope_lookup (link_map (at_link x)) ''fprintf'' = Some f \<and> dlsym_next (at_link x) ''fprintf'' = Some f \<and>
         (\<forall>fname s. \<exists>vs s'. call_symbol (at_link x) ''perror'' [CStr fname] s = Inr (vs, s')))"

lemma say_prints:
  assumes "prints x out" "vformat format ap = Some t"
  shows "say x format ap s = Inr (out s t)"
  using assms by (simp add: say_def prints_def Let_def call_symbol_def libc_fprintf_def after_def)

lemma real_say_prints:
  assumes "prints x out" "vformat format ap = Some t" "CHR ''%'' \<notin> set t"
  shows "real_say x format ap s = Inr (out s t)"
  using assms vformat_plain [OF assms(3)]
  by (simp add: real_say_def real_fprintf_def prints_def Let_def real_call_def dlfun_def libc_fprintf_def after_def)

lemma digits_no_percent: "2 \<le> b \<Longrightarrow> b \<le> 10 \<Longrightarrow> CHR ''%'' \<notin> set (digits b n)"
proof (induction b n rule: digits.induct)
  case (1 b n)
  have no: "CHR ''%'' \<noteq> char_of (48 + k)" if "k < 10" for k :: nat
  proof
    assume "CHR ''%'' = char_of (48 + k)"
    then have "of_char CHR ''%'' = (of_char (char_of (48 + k) :: char) :: nat)" by simp
    with that show False by (simp add: of_char_of)
  qed
  show ?case
  proof (cases "n < b")
    case True
    with 1 no [of n] show ?thesis by (subst digits.simps) auto
  next
    case False
    with 1 have "CHR ''%'' \<notin> set (digits b (n div b))" by simp
    moreover have "n mod b < 10" using 1 by (intro less_le_trans [OF mod_less_divisor]) auto
    ultimately show ?thesis using False "1.prems" no [of "n mod b"] by (subst digits.simps) auto
  qed
qed

definition decimal :: "int \<Rightarrow> string" where
  "decimal n = (if n < 0 then CHR ''-'' # digits 10 (nat (- n)) else digits 10 (nat n))"

lemma decimal_no_percent [simp]: "CHR ''%'' \<notin> set (decimal n)"
  by (simp add: decimal_def digits_no_percent)

text \<open>The formats of the macros.\<close>

lemma macro_formats:
  "vformat ''(%ld)'' [CInt n] = Some (''('' @ decimal n @ '')'')"
  "vformat ''(%s:%d)'' [CStr f, CInt n] = Some (''('' @ f @ '':'' @ decimal n @ '')'')"
  "vformat (''(%s:%d)'' @ [c]) [CStr f, CInt n] =
     (if c = CHR ''%'' then None else Some (''('' @ f @ '':'' @ decimal n @ '')'' @ [c]))"
  "vformat ''[ufs: %s] Error: '' [CStr f] = Some (''[ufs: '' @ f @ ''] Error: '')"
  by (simp_all add: vformat.simps(2) directive_def is_digit_def is_length_mod_def pad_def decimal_def)

text \<open>\<open>EHANDLE\<close> ends the process exactly when the value is the error value and changes nothing
  otherwise: what the definitions of the other theories write as \<open>Exit\<close>.\<close>

lemma EHANDLE_exits:
  assumes "prints x out" "CHR ''%'' \<notin> set (at_file x)"
  shows "andthen (EHANDLE x init_called fname retval errval s) (\<lambda>(stop, s). if stop then Inl Exit else Inr s) =
    (if retval = errval then Inl Exit else Inr s)"
proof -
  from assms(1) obtain vs s' where "call_symbol (at_link x) ''perror'' [CStr fname] s = Inr (vs, s')"
    unfolding prints_def Let_def by blast
  then show ?thesis
    using say_prints [OF assms(1) macro_formats(2)] real_say_prints [OF assms(1) macro_formats(2)] assms(2)
    by (simp add: EHANDLE_def client_EHANDLE_def server_EHANDLE_def after_def)
qed

text \<open>\<open>UEHANDLE\<close> prints the process, the function, the message and the place, in this order.\<close>

lemma UEHANDLE_prints:
  assumes "prints x out" "vformat format ap = Some t"
    "CHR ''%'' \<notin> set t \<union> set (at_file x) \<union> set (at_function x)"
  shows "UEHANDLE x format ap s = Inr (out (out (out (out s
      (''('' @ decimal (at_pid x) @ '')'')) (''[ufs: '' @ at_function x @ ''] Error: '')) t)
      (''('' @ at_file x @ '':'' @ decimal (at_line x) @ '')'' @ [char_of (10 :: nat)]))"
proof -
  have nl: "char_of (10 :: nat) \<noteq> CHR ''%''" by (simp add: char_of_def)
  note say = real_say_prints [OF assms(1)]
  from assms(3) nl show ?thesis
    by (simp add: UEHANDLE_def say [OF macro_formats(1)] say [OF macro_formats(4)] say [OF assms(2)]
        say [OF macro_formats(3) [of "char_of (10 :: nat)", unfolded if_not_P [OF nl]]] del: append_Cons)
qed

text \<open>The counters hold the sums of the times of their calls, in whatever order the processes add
  them, and the last line of the report is the sum over all calls.\<close>

type_synonym span = "profile_calls \<times> u64 \<times> u64"

abbreviation add_spans :: "span list \<Rightarrow> profile_mem \<Rightarrow> profile_mem" where
  "add_spans \<equiv> fold (\<lambda>(name, b, e). profile_end name b e)"

lemma profile_index_less: "profile_index c < NUM_OF_CALLS"
  by (cases c) (simp_all add: NUM_OF_CALLS_def)

lemma profile_tables: "map profile_index profile_order = [0 ..< NUM_OF_CALLS]" "length profile_name = NUM_OF_CALLS"
  by (simp_all add: profile_order_def profile_name_def NUM_OF_CALLS_def upt_rec)

lemma add_spans_counter:
  "add_spans evs m i = m i + (\<Sum>(name, b, e) \<leftarrow> evs. if profile_index name = i then e - b else 0)"
  by (induction evs arbitrary: m) (auto simp: profile_end_def algebra_simps)

lemma add_spans_order:
  assumes "mset evs = mset evs'"
  shows "add_spans evs m = add_spans evs' m"
proof
  fix i
  show "add_spans evs m i = add_spans evs' m i"
    unfolding add_spans_counter using assms by (simp flip: sum_mset_sum_list)
qed

lemma output_loop_not_Nil [simp]: "output_loop secs m is tot \<noteq> []"
  by (cases "is") simp_all

lemma output_loop_last: "last (output_loop secs m is tot) = (''Total'', tot + sum_list (map m is), secs (tot + sum_list (map m is)))"
  by (induction "is" arbitrary: tot) (simp_all add: algebra_simps)

lemma profile_total:
  "last (output_profile secs (add_spans evs (init_profile m))) =
     (let all = (\<Sum>(name, b, e) \<leftarrow> evs. e - b) in (''Total'', all, secs all))"
proof -
  have "sum_list (map (add_spans evs (init_profile m)) [0 ..< NUM_OF_CALLS]) = (\<Sum>(name, b, e) \<leftarrow> evs. e - b)"
  proof (induction evs rule: rev_induct)
    case Nil
    show ?case by (simp add: interv_sum_list_conv_sum_set_nat init_profile_def)
  next
    case (snoc ev evs)
    obtain name b e where ev: "ev = (name, b, e)" by (cases ev)
    let ?m = "add_spans evs (init_profile m)"
    have "sum_list (map (profile_end name b e ?m) [0 ..< NUM_OF_CALLS]) = (\<Sum>i < NUM_OF_CALLS. profile_end name b e ?m i)"
      by (simp add: interv_sum_list_conv_sum_set_nat atLeast0LessThan)
    also have "\<dots> = (\<Sum>i < NUM_OF_CALLS. ?m i + (if i = profile_index name then e - b else 0))"
      by (intro sum.cong) (simp_all add: profile_end_def)
    also have "\<dots> = (\<Sum>i < NUM_OF_CALLS. ?m i) + (e - b)"
      using profile_index_less by (simp add: sum.distrib)
    finally show ?case using snoc ev by (simp add: interv_sum_list_conv_sum_set_nat atLeast0LessThan)
  qed
  then show ?thesis by (simp add: output_profile_def output_loop_last Let_def)
qed

end
