(* ===== verification/Ufs_Background.thy ===== *)
theory Ufs_Background
  imports Ufs_Log Ufs_Mount
begin

text \<open>
  The end of \<open>main\<close> in \<open>system/daemon.c\<close>: with \<open>--enabledaemon\<close> the daemon, once it has mounted, forks;
  the parent prints the number of the child and exits, the child gives up its descriptors and waits for
  a signal. The mapped segments are shared by both and stay when the parent exits: \<open>main\<close> registers
  nothing that would remove them.
\<close>

section \<open>Going to the background\<close>

text \<open>What has become of the process: it waits for a signal with these descriptors open, or it has
  printed a text and called \<open>exit(0)\<close>.\<close>

datatype phase = Waiting "nat \<Rightarrow> bool" | Exited string

text \<open>The loop of \<open>close\<close>; its bound is inclusive.\<close>

function close_fds :: "nat \<Rightarrow> nat \<Rightarrow> (nat \<Rightarrow> bool) \<Rightarrow> nat \<Rightarrow> bool" where
  "close_fds fl num_fds open_fds =
     (if fl \<le> num_fds then close_fds (Suc fl) num_fds (if fl \<noteq> 2 then open_fds(fl := False) else open_fds) else open_fds)"
  by pat_completeness auto
termination
  by (relation "measure (\<lambda>(fl, num_fds, _). Suc num_fds - fl)") auto

declare close_fds.simps [simp del]

text \<open>\<open>forked\<close> is what \<open>fork\<close> returns to this process; \<open>num_fds\<close> is \<open>getdtablesize()\<close>.\<close>

definition background :: "bool \<Rightarrow> int \<Rightarrow> nat \<Rightarrow> (nat \<Rightarrow> bool) \<Rightarrow> phase" where
  "background dmode forked num_fds open_fds =
     (if dmode then
        (if forked = 0 then Waiting (close_fds 0 num_fds open_fds)
         else Exited (the (vformat (''%i'' @ [char_of (10 :: nat)]) [CInt forked])))
      else Waiting open_fds)"

definition daemon_process ::
  "('d, 'x) os_scheme \<Rightarrow> 'd readdir \<Rightarrow> bool list \<Rightarrow> string list \<Rightarrow> (char option \<times> string) list \<Rightarrow> int \<Rightarrow> nat \<Rightarrow>
   (nat \<Rightarrow> bool) \<Rightarrow> ('d, 'z) pstate_scheme \<Rightarrow> (phase \<times> ('d, 'z) pstate_scheme) res" where
  "daemon_process os rd defined argv getopts forked num_fds open_fds s =
     andthen (daemon_main os rd defined argv getopts s) (\<lambda>s.
       Inr (background (daemon_mode (snd (parse_options getopts))) forked num_fds open_fds, s))"

text \<open>The text for an option that is not known.\<close>

definition usage :: "string \<Rightarrow> string list" where
  "usage dname =
     [the (vformat (''usage: %s'' @ [char_of (10 :: nat)]) [CStr dname]),
      ''  --path          = path for mounting / loading data'' @ [char_of (10 :: nat)],
      ''  --enabledaemon  = enable daemon mode'' @ [char_of (10 :: nat)]]"

section \<open>Properties\<close>

lemma close_fds_result: "close_fds fl n fds k \<longleftrightarrow> fds k \<and> (fl \<le> k \<and> k \<le> n \<longrightarrow> k = 2)"
proof (induction fl n fds rule: close_fds.induct)
  case (1 fl n fds)
  show ?case
  proof (cases "fl \<le> n")
    case True
    let ?fds = "if fl \<noteq> 2 then fds(fl := False) else fds"
    have "close_fds fl n fds k \<longleftrightarrow> close_fds (Suc fl) n ?fds k" using True by (subst close_fds.simps) simp
    also have "\<dots> \<longleftrightarrow> ?fds k \<and> (Suc fl \<le> k \<and> k \<le> n \<longrightarrow> k = 2)" by (rule 1 [OF True])
    finally show ?thesis using True by (cases "k = fl") auto
  next
    case False
    then show ?thesis by (subst close_fds.simps) auto
  qed
qed

text \<open>Of the descriptors below the size of the table the child keeps \<open>stderr\<close> only.\<close>

lemma child_keeps_stderr:
  assumes "\<forall>k. fds k \<longrightarrow> k < num_fds"
  shows "background True 0 num_fds fds = Waiting (\<lambda>k. k = 2 \<and> fds 2)"
  using assms by (auto simp: background_def close_fds_result fun_eq_iff)

lemma format_pid: "vformat (''%i'' @ [char_of (10 :: nat)]) [CInt n] = Some (decimal n @ [char_of (10 :: nat)])"
  by (simp add: vformat.simps(2) directive_def is_digit_def is_length_mod_def pad_def decimal_def char_of_def)

lemma second_daemon_exits:
  assumes "mainm_seg s"
  shows "daemon_main os rd defined argv getopts s = Inl Exit"
  using assms
  by (auto simp: daemon_main_def select_alloc_def init_mount_def init_mount_mem_def split: prod.split)

text \<open>The parent does not look whether \<open>fork\<close> failed: it prints -1 and exits with status 0, there is no
  daemon, and the segments it leaves keep every later one from starting.\<close>

lemma failed_fork_blocks_daemon:
  assumes "unmounted s" "select_alloc defined = Inr meth" "1 \<le> meth" "meth \<le> 2" "parse_options getopts = (c, opt)" "0 \<le> c"
    "daemon_mode opt" "empty_dir rd (case dir_name opt of None \<Rightarrow> ''.'' | Some r \<Rightarrow> r)"
  shows "\<exists>t. daemon_process os rd defined argv getopts (- 1) num_fds fds s = Inr (Exited (decimal (- 1) @ [char_of (10 :: nat)]), t) \<and>
    (\<forall>os' rd' defined' argv' getopts'. daemon_main os' rd' defined' argv' getopts' t = Inl Exit)"
proof -
  let ?s = "s\<lparr>alloc_method_ind := meth\<rparr>"
  have "unmounted ?s" using assms(1) by (simp add: unmounted_def)
  then obtain t where t: "init_mount_mem 0 ?s = Inr t" "fresh meth t"
    using init_mount_mem_fresh [of ?s 0] assms(3,4) by auto
  have "daemon_main os rd defined argv getopts s = Inr t"
    using assms(2-6) upload_dir_empty [OF assms(8), of os t] t(1)
    by (simp add: daemon_main_def init_mount_def)
  then have "daemon_process os rd defined argv getopts (- 1) num_fds fds s = Inr (Exited (decimal (- 1) @ [char_of (10 :: nat)]), t)"
    using assms(5,7) by (simp add: daemon_process_def background_def format_pid [simplified])
  moreover have "mainm_seg t" using t(2) by (simp add: fresh_def mounted_def)
  ultimately show ?thesis using second_daemon_exits by blast
qed

end
