(* ===== verification/Ufs_Metro.thy ===== *)
theory Ufs_Metro
  imports Ufs_Hash
begin

text \<open>
  The other hash function of \<open>system/util/util.c\<close>, compiled with \<open>USE_METROHASH\<close>: it reads the string
  through a moving pointer in units of 8, 4, 2 and 1 bytes. A pointer is the offset from the start of
  the string; a read that reaches beyond the last character is \<open>Fault\<close>. The byte order is that of
  the machines the library is built for, least significant byte first.

  The reference definition works on the list of characters instead: it cuts off one unit after the
  other. The two agree on every string, so the pointer never leaves the string and no character is
  skipped or used twice.
\<close>

unbundle bit_operations_syntax

section \<open>Reading\<close>

fun le_word :: "string \<Rightarrow> u64" where
  "le_word [] = 0"
| "le_word (c # cs) = of_nat (of_char c) + 256 * le_word cs"

definition read_le :: "nat \<Rightarrow> string \<Rightarrow> nat \<Rightarrow> u64 res" where
  "read_le n str ptr = (if ptr + n \<le> length str then Inr (le_word (take n (drop ptr str))) else Inl Fault)"

definition read_u64 :: "string \<Rightarrow> nat \<Rightarrow> u64 res" where
  "read_u64 = read_le 8"

definition read_u32 :: "string \<Rightarrow> nat \<Rightarrow> u64 res" where
  "read_u32 = read_le 4"

definition read_u16 :: "string \<Rightarrow> nat \<Rightarrow> u64 res" where
  "read_u16 = read_le 2"

definition read_u8 :: "string \<Rightarrow> nat \<Rightarrow> u64 res" where
  "read_u8 = read_le 1"

definition rotate_right :: "u64 \<Rightarrow> nat \<Rightarrow> u64" where
  "rotate_right v k = drop_bit k v OR push_bit (64 - k) v"

section \<open>The hash\<close>

definition k0 :: u64 where "k0 = 0xD6D018F5"
definition k1 :: u64 where "k1 = 0xA2AA033B"
definition k2 :: u64 where "k2 = 0x62992FC1"
definition k3 :: u64 where "k3 = 0x30BC5B29"
definition seed :: u64 where "seed = 0x29328a2"

record metro_v =
  v0 :: u64
  v1 :: u64
  v2 :: u64
  v3 :: u64

text \<open>What one round of the loop does with the four words it reads, and the mixing behind the loop.\<close>

definition mix32 :: "u64 \<Rightarrow> u64 \<Rightarrow> u64 \<Rightarrow> u64 \<Rightarrow> metro_v \<Rightarrow> metro_v" where
  "mix32 a b c d v =
     (let v = v\<lparr>v0 := rotate_right (v0 v + a * k0) 29 + v2 v\<rparr>;
          v = v\<lparr>v1 := rotate_right (v1 v + b * k1) 29 + v3 v\<rparr>;
          v = v\<lparr>v2 := rotate_right (v2 v + c * k2) 29 + v0 v\<rparr>
      in v\<lparr>v3 := rotate_right (v3 v + d * k3) 29 + v1 v\<rparr>)"

definition finish32 :: "u64 \<Rightarrow> metro_v \<Rightarrow> u64" where
  "finish32 h v =
     (let v = v\<lparr>v2 := v2 v XOR rotate_right ((v0 v + v3 v) * k0 + v1 v) 37 * k1\<rparr>;
          v = v\<lparr>v3 := v3 v XOR rotate_right ((v1 v + v2 v) * k1 + v0 v) 37 * k0\<rparr>;
          v = v\<lparr>v0 := v0 v XOR rotate_right ((v0 v + v2 v) * k0 + v3 v) 37 * k1\<rparr>;
          v = v\<lparr>v1 := v1 v XOR rotate_right ((v1 v + v3 v) * k1 + v2 v) 37 * k0\<rparr>
      in h + (v0 v XOR v1 v))"

definition mix16 :: "u64 \<Rightarrow> u64 \<Rightarrow> u64 \<Rightarrow> u64" where
  "mix16 a b h =
     (let w0 = rotate_right (h + a * k2) 29 * k3;
          w1 = rotate_right (h + b * k2) 29 * k3;
          w0 = w0 XOR (rotate_right (w0 * k0) 21 + w1);
          w1 = w1 XOR (rotate_right (w1 * k3) 21 + w0)
      in h + w1)"

definition mix_one :: "nat \<Rightarrow> u64 \<Rightarrow> u64 \<Rightarrow> u64" where
  "mix_one rot a h = (let h = h + a * k3 in h XOR rotate_right h rot * k1)"

definition metro_round :: "string \<Rightarrow> nat \<Rightarrow> metro_v \<Rightarrow> metro_v res" where
  "metro_round str ptr v =
     andthen (read_u64 str ptr) (\<lambda>a.
     andthen (read_u64 str (ptr + 8)) (\<lambda>b.
     andthen (read_u64 str (ptr + 16)) (\<lambda>c.
     andthen (read_u64 str (ptr + 24)) (\<lambda>d. Inr (mix32 a b c d v)))))"

text \<open>The \<open>do\<close> loop, entered when there are 32 characters.\<close>

function metro_loop :: "string \<Rightarrow> nat \<Rightarrow> metro_v \<Rightarrow> (nat \<times> metro_v) res" where
  "metro_loop str ptr v =
     andthen (metro_round str ptr v) (\<lambda>v.
       if ptr + 32 \<le> length str - 32 then metro_loop str (ptr + 32) v else Inr (ptr + 32, v))"
  by pat_completeness auto
termination
  by (relation "measure (\<lambda>(str, ptr, v). length str - ptr)") auto

declare metro_loop.simps [simp del]

definition metro_blocks :: "string \<Rightarrow> u64 \<Rightarrow> (nat \<times> u64) res" where
  "metro_blocks str h =
     (if length str \<ge> 32 then
        andthen (metro_loop str 0 \<lparr>v0 = h, v1 = h, v2 = h, v3 = h\<rparr>) (\<lambda>(ptr, v). Inr (ptr, finish32 h v))
      else Inr (0, h))"

definition metro_16 :: "string \<Rightarrow> nat \<times> u64 \<Rightarrow> (nat \<times> u64) res" where
  "metro_16 str = (\<lambda>(ptr, h).
     if length str - ptr \<ge> 16 then
       andthen (read_u64 str ptr) (\<lambda>a. andthen (read_u64 str (ptr + 8)) (\<lambda>b. Inr (ptr + 16, mix16 a b h)))
     else Inr (ptr, h))"

text \<open>The four blocks for 8, 4, 2 and 1 characters; the last leaves the pointer where it is, and nothing
  reads it afterwards.\<close>

definition metro_unit ::
  "(string \<Rightarrow> nat \<Rightarrow> u64 res) \<Rightarrow> nat \<Rightarrow> nat \<Rightarrow> string \<Rightarrow> nat \<times> u64 \<Rightarrow> (nat \<times> u64) res" where
  "metro_unit rd n rot str = (\<lambda>(ptr, h).
     if length str - ptr \<ge> n then andthen (rd str ptr) (\<lambda>a. Inr (ptr + n, mix_one rot a h)) else Inr (ptr, h))"

definition finish :: "u64 \<Rightarrow> u64" where
  "finish h = (let h = h XOR rotate_right h 28; h = h * k0 in h XOR rotate_right h 29)"

definition metro_hash :: "string \<Rightarrow> u64 res" where
  "metro_hash str =
     andthen (metro_blocks str ((seed + k2) * k0)) (\<lambda>p.
     andthen (metro_16 str p) (\<lambda>p.
     andthen (metro_unit read_u64 8 55 str p) (\<lambda>p.
     andthen (metro_unit read_u32 4 26 str p) (\<lambda>p.
     andthen (metro_unit read_u16 2 48 str p) (\<lambda>p.
     andthen (metro_unit read_u8 1 37 str p) (\<lambda>(ptr, h). Inr (finish h)))))))"

definition hash_metro :: "string \<Rightarrow> nat res" where
  "hash_metro str = andthen (metro_hash str) (\<lambda>h. Inr (unat h mod HASH_TABLE_SIZE))"

section \<open>Reference\<close>

function ref_loop :: "metro_v \<Rightarrow> string \<Rightarrow> metro_v \<times> string" where
  "ref_loop v xs =
     (if length xs \<ge> 32 then
        ref_loop (mix32 (le_word (take 8 xs)) (le_word (take 8 (drop 8 xs))) (le_word (take 8 (drop 16 xs)))
          (le_word (take 8 (drop 24 xs))) v) (drop 32 xs)
      else (v, xs))"
  by pat_completeness auto
termination
  by (relation "measure (\<lambda>(v, xs). length xs)") auto

declare ref_loop.simps [simp del]

definition ref_blocks :: "u64 \<Rightarrow> string \<Rightarrow> u64 \<times> string" where
  "ref_blocks h xs =
     (if length xs \<ge> 32 then (case ref_loop \<lparr>v0 = h, v1 = h, v2 = h, v3 = h\<rparr> xs of (v, ys) \<Rightarrow> (finish32 h v, ys))
      else (h, xs))"

definition ref_16 :: "u64 \<times> string \<Rightarrow> u64 \<times> string" where
  "ref_16 = (\<lambda>(h, xs). if length xs \<ge> 16 then (mix16 (le_word (take 8 xs)) (le_word (take 8 (drop 8 xs))) h, drop 16 xs) else (h, xs))"

definition ref_unit :: "nat \<Rightarrow> nat \<Rightarrow> u64 \<times> string \<Rightarrow> u64 \<times> string" where
  "ref_unit n rot = (\<lambda>(h, xs). if length xs \<ge> n then (mix_one rot (le_word (take n xs)) h, drop n xs) else (h, xs))"

definition metro_ref :: "string \<Rightarrow> u64" where
  "metro_ref str =
     finish (fst (ref_unit 1 37 (ref_unit 2 48 (ref_unit 4 26 (ref_unit 8 55 (ref_16 (ref_blocks ((seed + k2) * k0) str)))))))"

section \<open>Equivalence\<close>

text \<open>A pointer with what is left of the string behind it.\<close>

definition at :: "string \<Rightarrow> (nat \<times> u64) res \<Rightarrow> u64 \<times> string \<Rightarrow> bool" where
  "at str r q \<longleftrightarrow> (\<exists>ptr. r = Inr (ptr, fst q) \<and> ptr \<le> length str \<and> snd q = drop ptr str)"

lemma read_le_drop: "n \<le> length (drop ptr str) \<Longrightarrow> ptr \<le> length str \<Longrightarrow> read_le n str ptr = Inr (le_word (take n (drop ptr str)))"
  by (simp add: read_le_def)

lemma metro_unit_at:
  assumes "at str r q" "rd = read_le n"
  shows "at str (andthen r (metro_unit rd n rot str)) (ref_unit n rot q)"
  using assms by (cases q) (auto simp: at_def metro_unit_def ref_unit_def read_le_def drop_drop add.commute)

lemma metro_16_at:
  assumes "at str r q"
  shows "at str (andthen r (metro_16 str)) (ref_16 q)"
  using assms by (cases q) (auto simp: at_def metro_16_def ref_16_def read_u64_def read_le_def drop_drop add.commute)

lemma metro_round_result:
  assumes "ptr + 32 \<le> length str"
  shows "metro_round str ptr v = Inr (mix32 (le_word (take 8 (drop ptr str))) (le_word (take 8 (drop (ptr + 8) str)))
    (le_word (take 8 (drop (ptr + 16) str))) (le_word (take 8 (drop (ptr + 24) str))) v)"
  using assms by (simp add: metro_round_def read_u64_def read_le_def)

lemma metro_loop_ref:
  assumes "ptr + 32 \<le> length str"
  shows "\<exists>p. metro_loop str ptr v = Inr (p, fst (ref_loop v (drop ptr str))) \<and> p \<le> length str \<and>
    snd (ref_loop v (drop ptr str)) = drop p str"
  using assms
proof (induction str ptr v rule: metro_loop.induct)
  case (1 str ptr v)
  let ?v = "mix32 (le_word (take 8 (drop ptr str))) (le_word (take 8 (drop (ptr + 8) str)))
    (le_word (take 8 (drop (ptr + 16) str))) (le_word (take 8 (drop (ptr + 24) str))) v"
  have "32 \<le> length str - ptr" using 1(2) by simp
  then have r: "ref_loop v (drop ptr str) = ref_loop ?v (drop (ptr + 32) str)"
    by (subst ref_loop.simps) (simp add: drop_drop add.commute)
  have iff: "ptr + 32 \<le> length str - 32 \<longleftrightarrow> ptr + 64 \<le> length str" using 1(2) by auto
  show ?case
  proof (cases "ptr + 64 \<le> length str")
    case True
    then have "metro_loop str ptr v = metro_loop str (ptr + 32) ?v"
      using 1(2) by (subst metro_loop.simps) (simp add: metro_round_result iff)
    with True 1(1) [of ?v] iff r show ?thesis by auto
  next
    case False
    then have "metro_loop str ptr v = Inr (ptr + 32, ?v)"
      using 1(2) by (subst metro_loop.simps) (simp add: metro_round_result iff)
    moreover have "\<not> 32 \<le> length str - (ptr + 32)" using False by simp
    then have "ref_loop ?v (drop (ptr + 32) str) = (?v, drop (ptr + 32) str)" by (subst ref_loop.simps) simp
    ultimately show ?thesis using r 1(2) by auto
  qed
qed

lemma metro_blocks_at: "at str (metro_blocks str h) (ref_blocks h str)"
proof (cases "32 \<le> length str")
  case True
  then show ?thesis
    using metro_loop_ref [of 0 str "\<lparr>v0 = h, v1 = h, v2 = h, v3 = h\<rparr>"]
    by (auto simp: at_def metro_blocks_def ref_blocks_def split: prod.splits)
qed (simp add: at_def metro_blocks_def ref_blocks_def)

lemma metro_hash_ref: "metro_hash str = Inr (metro_ref str)"
proof -
  note a = metro_16_at [OF metro_blocks_at [of str "(seed + k2) * k0"]]
  note b = metro_unit_at [OF metro_unit_at [OF a read_u64_def, of 55] read_u32_def, of 26]
  note c = metro_unit_at [OF metro_unit_at [OF b read_u16_def, of 48] read_u8_def, of 37]
  from c show ?thesis
    by (simp add: metro_hash_def metro_ref_def at_def andthen_assoc) (auto simp: andthen_eq_Inr)
qed

text \<open>
  (C31) The pointer version of the hash is the reference on every string, and it always returns: no read
  leaves the string, the loop ends, and the units it reads are the consecutive pieces of the string.
  Compiled with it, \<open>hash\<close> gives a row for every path, also one with characters the other hash
  function ends the process for.
\<close>

theorem metro_hash_is_reference:
  "hash_metro str = Inr (unat (metro_ref str) mod HASH_TABLE_SIZE) \<and> metro_hash str = Inr (metro_ref str)"
  by (simp add: hash_metro_def metro_hash_ref)

end
