(* ===== verification/Ufs_Vfork.thy ===== *)
theory Ufs_Vfork
  imports Ufs_Process
begin

text \<open>
  \<open>vfork\<close> of \<open>system/lib/file_proc.c\<close> with the signal handlers of \<open>system/util/process.c\<close>, as compiled
  with \<open>VFORK_SIGNALING\<close>: a parent that forks waits until its child executes a program or exits, and the
  child does not start before the parent has entered it into \<open>pid_meta\<close>. Parent and child run
  interleaved; a step is one access to the slot of the child or one system call. A signal is pending
  until it is delivered, which runs the handler and ends a \<open>pause\<close> that has begun, but no later one;
  with \<open>ext\<close> any other signal that has a handler may end a \<open>pause\<close> too.

  The child has one slot, the one its parent chose (\<open>get_new_pid_meta_ind\<close> under interleaving is in
  \<open>Ufs_Claim\<close>). It ends in one of two ways: with an \<open>exec\<close> call of the library, which calls
  \<open>maybe_signal_parent\<close> and only then writes the program to disk and replaces the image; or with
  \<open>exit\<close>, whose handler \<open>exit_intercept\<close> calls \<open>maybe_signal_parent\<close> and then clears the slot. An \<open>exec\<close>
  that fails exits; the second \<open>maybe_signal_parent\<close> then finds the flag set and does nothing, so this
  is the exit too.
\<close>

section \<open>Steps\<close>

datatype parent_pc = P_Pid | P_First | P_Vforked | P_Kill | P_Pause | P_Wait | P_Return

datatype child_pc =
    C_Test | C_Pause | C_Wait                   \<comment> \<open>in \<open>vfork\<close>\<close>
  | C_Run                                       \<comment> \<open>back in the program\<close>
  | C_Read | C_Check | C_Kill | C_Store         \<comment> \<open>in \<open>maybe_signal_parent\<close>\<close>
  | C_Call                                      \<comment> \<open>behind it, still in the old image\<close>
  | C_Done                                      \<comment> \<open>in the new image, or gone\<close>
  | C_None                                      \<comment> \<open>\<open>fork\<close> failed: there is no child\<close>

text \<open>\<open>usr1\<close>: \<open>SIGUSR1\<close> is pending at the parent, \<open>usr2\<close>: \<open>SIGUSR2\<close> at the child. \<open>slot\<close> is the slot of
  the child in \<open>pid_meta\<close>; \<open>this_vforked\<close> and \<open>this_signaled_by_parent\<close> are the child's variables.\<close>

record vfork_sys =
  p_at :: parent_pc
  c_at :: child_pc
  usr1 :: bool
  usr2 :: bool
  slot :: pid_info
  this_vforked :: bool
  this_signaled_by_parent :: bool

definition init_vfork_signaling :: "vfork_sys \<Rightarrow> vfork_sys" where
  "init_vfork_signaling s = s\<lparr>this_vforked := False, this_signaled_by_parent := False\<rparr>"

definition wake1 :: "vfork_sys \<Rightarrow> vfork_sys" where
  "wake1 s = s"

definition wake2 :: "vfork_sys \<Rightarrow> vfork_sys" where
  "wake2 s = s\<lparr>this_signaled_by_parent := True\<rparr>"

text \<open>The child's steps through \<open>maybe_signal_parent\<close>: the flag of the slot into the variable, the test,
  the signal, and after it the store of \<open>first_parent_signaled\<close>.\<close>

inductive maybe_signal_parent :: "vfork_sys \<Rightarrow> vfork_sys \<Rightarrow> bool" where
  msp_read: "c_at s = C_Read \<Longrightarrow> maybe_signal_parent s (s\<lparr>this_vforked := vforked (slot s), c_at := C_Check\<rparr>)"
| msp_check: "c_at s = C_Check \<Longrightarrow> maybe_signal_parent s
    (s\<lparr>c_at := (if this_vforked s \<and> \<not> first_parent_signaled (slot s) then C_Kill else C_Call)\<rparr>)"
| msp_kill: "c_at s = C_Kill \<Longrightarrow> maybe_signal_parent s (s\<lparr>usr1 := True, c_at := C_Store\<rparr>)"
| msp_store: "c_at s = C_Store \<Longrightarrow>
    maybe_signal_parent s (s\<lparr>slot := (slot s)\<lparr>first_parent_signaled := True\<rparr>, c_at := C_Call\<rparr>)"

inductive vfork_step :: "bool \<Rightarrow> int \<Rightarrow> vfork_sys \<Rightarrow> vfork_sys \<Rightarrow> bool" for ext fpid where
  p_pid: "p_at s = P_Pid \<Longrightarrow> vfork_step ext fpid s (s\<lparr>slot := (slot s)\<lparr>pi_pid := fpid\<rparr>, p_at := P_First\<rparr>)"
| p_first: "p_at s = P_First \<Longrightarrow>
    vfork_step ext fpid s (s\<lparr>slot := (slot s)\<lparr>first_parent_signaled := False\<rparr>, p_at := P_Vforked\<rparr>)"
| p_vforked: "p_at s = P_Vforked \<Longrightarrow> vfork_step ext fpid s (s\<lparr>slot := (slot s)\<lparr>vforked := True\<rparr>, p_at := P_Kill\<rparr>)"
| p_kill: "p_at s = P_Kill \<Longrightarrow> vfork_step ext fpid s (s\<lparr>usr2 := (c_at s \<noteq> C_None), p_at := P_Pause\<rparr>)"
| p_pause: "p_at s = P_Pause \<Longrightarrow> vfork_step ext fpid s (s\<lparr>p_at := P_Wait\<rparr>)"
| p_usr1: "usr1 s \<Longrightarrow>
    vfork_step ext fpid s ((wake1 s)\<lparr>usr1 := False, p_at := (if p_at s = P_Wait then P_Return else p_at s)\<rparr>)"
| p_other: "ext \<Longrightarrow> p_at s = P_Wait \<Longrightarrow> vfork_step ext fpid s (s\<lparr>p_at := P_Return\<rparr>)"
| c_test: "c_at s = C_Test \<Longrightarrow>
    vfork_step ext fpid s (s\<lparr>c_at := (if this_signaled_by_parent s then C_Run else C_Pause)\<rparr>)"
| c_pause: "c_at s = C_Pause \<Longrightarrow> vfork_step ext fpid s (s\<lparr>c_at := C_Wait\<rparr>)"
| c_usr2: "usr2 s \<Longrightarrow>
    vfork_step ext fpid s ((wake2 s)\<lparr>usr2 := False, c_at := (if c_at s = C_Wait then C_Test else c_at s)\<rparr>)"
| c_other: "ext \<Longrightarrow> c_at s = C_Wait \<Longrightarrow> vfork_step ext fpid s (s\<lparr>c_at := C_Test\<rparr>)"
| c_ends: "c_at s = C_Run \<Longrightarrow> vfork_step ext fpid s (s\<lparr>c_at := C_Read\<rparr>)"
| c_signal: "maybe_signal_parent s s' \<Longrightarrow> vfork_step ext fpid s s'"
| c_exec: "c_at s = C_Call \<Longrightarrow> vfork_step ext fpid s (s\<lparr>c_at := C_Done\<rparr>)"
| c_exit: "c_at s = C_Call \<Longrightarrow> vfork_step ext fpid s (s\<lparr>slot := (slot s)\<lparr>pi_pid := 0, fds_backed_up := False,
    first_parent_signaled := False, vforked := False\<rparr>, c_at := C_Done\<rparr>)"

inductive_cases maybe_signal_parentE: "maybe_signal_parent s s'"
inductive_cases vfork_stepE: "vfork_step ext fpid s s'"

text \<open>After \<open>fork\<close>: the child has the parent's variables. \<open>inherited\<close> is the parent's
  \<open>this_signaled_by_parent\<close>, unset by \<open>init_vfork_signaling\<close> when its program started and set if it is itself
  a child that was waited for. A failed \<open>fork\<close> returns -1, which the code takes for the pid of a child.\<close>

definition vfork_init :: "bool \<Rightarrow> pid_info \<Rightarrow> vfork_sys" where
  "vfork_init inherited sl =
     (let s = init_vfork_signaling \<lparr>p_at = P_Pid, c_at = C_Test, usr1 = False, usr2 = False, slot = sl,
                this_vforked = False, this_signaled_by_parent = False\<rparr>
      in if inherited then wake2 s else s)"

definition vfork_failed :: "bool \<Rightarrow> pid_info \<Rightarrow> vfork_sys" where
  "vfork_failed inherited sl = (vfork_init inherited sl)\<lparr>c_at := C_None\<rparr>"

section \<open>Schedules\<close>

text \<open>The effect of one named step, for schedules written down as lists.\<close>

datatype vfork_act =
    A_Pid | A_First | A_Vforked | A_Kill | A_PPause | A_Usr1 | A_Test | A_CPause | A_Usr2 | A_Ends
  | A_Read | A_Check | A_Signal | A_Store | A_Exec | A_Exit

fun vfork_do :: "int \<Rightarrow> vfork_act \<Rightarrow> vfork_sys \<Rightarrow> vfork_sys option" where
  "vfork_do fpid A_Pid s =
     (if p_at s = P_Pid then Some (s\<lparr>slot := (slot s)\<lparr>pi_pid := fpid\<rparr>, p_at := P_First\<rparr>) else None)"
| "vfork_do fpid A_First s =
     (if p_at s = P_First then Some (s\<lparr>slot := (slot s)\<lparr>first_parent_signaled := False\<rparr>, p_at := P_Vforked\<rparr>) else None)"
| "vfork_do fpid A_Vforked s =
     (if p_at s = P_Vforked then Some (s\<lparr>slot := (slot s)\<lparr>vforked := True\<rparr>, p_at := P_Kill\<rparr>) else None)"
| "vfork_do fpid A_Kill s =
     (if p_at s = P_Kill then Some (s\<lparr>usr2 := (c_at s \<noteq> C_None), p_at := P_Pause\<rparr>) else None)"
| "vfork_do fpid A_PPause s = (if p_at s = P_Pause then Some (s\<lparr>p_at := P_Wait\<rparr>) else None)"
| "vfork_do fpid A_Usr1 s = (if usr1 s then Some
     ((wake1 s)\<lparr>usr1 := False, p_at := (if p_at s = P_Wait then P_Return else p_at s)\<rparr>) else None)"
| "vfork_do fpid A_Test s = (if c_at s = C_Test then Some
     (s\<lparr>c_at := (if this_signaled_by_parent s then C_Run else C_Pause)\<rparr>) else None)"
| "vfork_do fpid A_CPause s = (if c_at s = C_Pause then Some (s\<lparr>c_at := C_Wait\<rparr>) else None)"
| "vfork_do fpid A_Usr2 s = (if usr2 s then Some
     ((wake2 s)\<lparr>usr2 := False, c_at := (if c_at s = C_Wait then C_Test else c_at s)\<rparr>) else None)"
| "vfork_do fpid A_Ends s = (if c_at s = C_Run then Some (s\<lparr>c_at := C_Read\<rparr>) else None)"
| "vfork_do fpid A_Read s =
     (if c_at s = C_Read then Some (s\<lparr>this_vforked := vforked (slot s), c_at := C_Check\<rparr>) else None)"
| "vfork_do fpid A_Check s = (if c_at s = C_Check then Some
     (s\<lparr>c_at := (if this_vforked s \<and> \<not> first_parent_signaled (slot s) then C_Kill else C_Call)\<rparr>) else None)"
| "vfork_do fpid A_Signal s = (if c_at s = C_Kill then Some (s\<lparr>usr1 := True, c_at := C_Store\<rparr>) else None)"
| "vfork_do fpid A_Store s = (if c_at s = C_Store then Some
     (s\<lparr>slot := (slot s)\<lparr>first_parent_signaled := True\<rparr>, c_at := C_Call\<rparr>) else None)"
| "vfork_do fpid A_Exec s = (if c_at s = C_Call then Some (s\<lparr>c_at := C_Done\<rparr>) else None)"
| "vfork_do fpid A_Exit s = (if c_at s = C_Call then Some (s\<lparr>slot := (slot s)\<lparr>pi_pid := 0, fds_backed_up := False,
     first_parent_signaled := False, vforked := False\<rparr>, c_at := C_Done\<rparr>) else None)"

fun vfork_run :: "int \<Rightarrow> vfork_act list \<Rightarrow> vfork_sys \<Rightarrow> vfork_sys option" where
  "vfork_run fpid [] s = Some s"
| "vfork_run fpid (a # as) s = (case vfork_do fpid a s of None \<Rightarrow> None | Some s' \<Rightarrow> vfork_run fpid as s')"

lemma guard_Some: "(if b then Some x else None) = Some y \<longleftrightarrow> b \<and> x = y"
  by simp

lemma vfork_do_step: "vfork_do fpid a s = Some s' \<Longrightarrow> vfork_step ext fpid s s'"
  by (cases a) (auto simp only: vfork_do.simps guard_Some intro: vfork_step.intros maybe_signal_parent.intros)

text \<open>Without other signals these are all the steps.\<close>

lemma vfork_step_do: "vfork_step False fpid s s' \<Longrightarrow> \<exists>a. vfork_do fpid a s = Some s'"
proof (erule vfork_step.cases)
  fix t t'
  assume "s = t" "s' = t'" "maybe_signal_parent t t'"
  then show ?thesis by (elim maybe_signal_parentE) (metis vfork_do.simps)+
qed (metis vfork_do.simps)+

lemma vfork_run_reach: "vfork_run fpid as s = Some s' \<Longrightarrow> (vfork_step ext fpid)\<^sup>*\<^sup>* s s'"
  by (induction as arbitrary: s)
    (auto split: option.splits dest!: vfork_do_step [where ext = ext] intro: converse_rtranclp_into_rtranclp)

definition vfork_stuck :: "vfork_sys \<Rightarrow> bool" where
  "vfork_stuck s \<longleftrightarrow> \<not> usr1 s \<and> \<not> usr2 s \<and> (p_at s = P_Wait \<or> p_at s = P_Return) \<and>
     (c_at s = C_Wait \<or> c_at s = C_Done \<or> c_at s = C_None)"

lemma vfork_stuck_no_step: "vfork_stuck s \<Longrightarrow> \<not> vfork_step False fpid s s'"
  by (auto simp: vfork_stuck_def elim!: vfork_stepE maybe_signal_parentE)

definition no_slot :: pid_info where
  "no_slot = \<lparr>pi_pid = 0, fds_backed_up = False, first_parent_signaled = False, vforked = False, pi_lock = False\<rparr>"

lemmas vfork_eval = vfork_init_def vfork_failed_def init_vfork_signaling_def wake1_def wake2_def vfork_stuck_def no_slot_def Let_def

section \<open>What the signals achieve\<close>

text \<open>The child waits for the parent's signal, which the parent sends when the slot is filled in; and
  \<open>SIGUSR1\<close> comes from a child that is behind its \<open>kill\<close>.\<close>

definition in_vfork :: "child_pc set" where
  "in_vfork = {C_Test, C_Pause, C_Wait}"

definition registering :: "parent_pc set" where
  "registering = {P_Pid, P_First, P_Vforked, P_Kill}"

definition vfork_inv :: "int \<Rightarrow> vfork_sys \<Rightarrow> bool" where
  "vfork_inv fpid s \<longleftrightarrow> c_at s \<noteq> C_None \<and>
     (usr1 s \<or> p_at s = P_Return \<longrightarrow> c_at s = C_Store \<or> c_at s = C_Call \<or> c_at s = C_Done) \<and>
     (c_at s \<notin> in_vfork \<longrightarrow> this_signaled_by_parent s) \<and>
     (this_signaled_by_parent s \<or> usr2 s \<longrightarrow> p_at s \<notin> registering) \<and>
     (p_at s \<noteq> P_Pid \<and> c_at s \<noteq> C_Done \<longrightarrow> pi_pid (slot s) = fpid) \<and>
     (p_at s \<notin> {P_Pid, P_First, P_Vforked} \<and> c_at s \<noteq> C_Done \<longrightarrow> vforked (slot s))"

lemma vfork_inv_init: "vfork_inv fpid (vfork_init False sl)"
  by (simp add: vfork_inv_def vfork_eval in_vfork_def)

lemma vfork_inv_do: "vfork_do fpid a s = Some s' \<Longrightarrow> vfork_inv fpid s \<Longrightarrow> vfork_inv fpid s'"
  by (cases a; simp only: vfork_do.simps guard_Some; elim conjE; hypsubst;
      simp add: vfork_inv_def wake1_def wake2_def in_vfork_def registering_def; force)

lemma vfork_inv_reach:
  assumes "(vfork_step False fpid)\<^sup>*\<^sup>* (vfork_init False sl) s"
  shows "vfork_inv fpid s"
  using assms by (induction rule: rtranclp_induct) (auto intro: vfork_inv_init dest: vfork_step_do vfork_inv_do)

text \<open>A schedule up to the child's signal, with the parent waiting for it.\<close>

abbreviation to_signal :: "vfork_act list" where
  "to_signal \<equiv> [A_Pid, A_First, A_Vforked, A_Kill, A_PPause, A_Test, A_CPause, A_Usr2, A_Test, A_Ends, A_Read, A_Check, A_Signal]"

lemma returns_at:
  assumes "c \<in> {C_Store, C_Call, C_Done}"
  shows "\<exists>s. (vfork_step False fpid)\<^sup>*\<^sup>* (vfork_init False sl) s \<and> p_at s = P_Return \<and> c_at s = c"
proof -
  have "\<exists>as s. vfork_run fpid as (vfork_init False sl) = Some s \<and> p_at s = P_Return \<and> c_at s = c"
    using assms
  proof (elim insertE emptyE)
    assume "c = C_Store"
    then show ?thesis by (intro exI [of _ "to_signal @ [A_Usr1]"]) (simp add: vfork_eval)
  next
    assume "c = C_Call"
    then show ?thesis by (intro exI [of _ "to_signal @ [A_Usr1, A_Store]"]) (simp add: vfork_eval)
  next
    assume "c = C_Done"
    then show ?thesis by (intro exI [of _ "to_signal @ [A_Usr1, A_Store, A_Exec]"]) (simp add: vfork_eval)
  qed
  then show ?thesis using vfork_run_reach by blast
qed

text \<open>
  (C33) What the emulation of \<open>vfork\<close> gives, as long as no other signal ends a \<open>pause\<close> and the parent is not
  itself a child that was waited for. In every interleaving the child is back in its program only
  when the parent has entered its pid and the flag \<open>vforked\<close> in its slot and has sent its signal. And
  when the parent has returned, the child has sent its own from within an \<open>exec\<close> or \<open>exit\<close>, but no
  more than that: it is behind the \<open>kill\<close> of \<open>maybe_signal_parent\<close>, before the store of
  \<open>first_parent_signaled\<close>, or before the program is written to disk and the image replaced, or through;
  each of the three happens. The comment in \<open>vfork\<close> says that the child completes before the parent can
  start. (Whether the parent returns at all is another matter.)
\<close>

theorem vfork_parent_waits:
  "{c_at s | s. (vfork_step False fpid)\<^sup>*\<^sup>* (vfork_init False sl) s \<and> p_at s = P_Return} = {C_Store, C_Call, C_Done} \<and>
   (\<forall>s. (vfork_step False fpid)\<^sup>*\<^sup>* (vfork_init False sl) s \<and> c_at s \<notin> in_vfork \<longrightarrow>
      p_at s \<notin> registering \<and> (c_at s \<noteq> C_Done \<longrightarrow> pi_pid (slot s) = fpid \<and> vforked (slot s)))"
proof
  show "{c_at s | s. (vfork_step False fpid)\<^sup>*\<^sup>* (vfork_init False sl) s \<and> p_at s = P_Return} = {C_Store, C_Call, C_Done}"
  proof (intro equalityI subsetI)
    fix c
    assume "c \<in> {c_at s | s. (vfork_step False fpid)\<^sup>*\<^sup>* (vfork_init False sl) s \<and> p_at s = P_Return}"
    then obtain s where "(vfork_step False fpid)\<^sup>*\<^sup>* (vfork_init False sl) s" "p_at s = P_Return" "c = c_at s" by blast
    with vfork_inv_reach [of fpid sl s] show "c \<in> {C_Store, C_Call, C_Done}" by (simp add: vfork_inv_def)
  next
    fix c
    assume "c \<in> {C_Store, C_Call, C_Done}"
    then show "c \<in> {c_at s | s. (vfork_step False fpid)\<^sup>*\<^sup>* (vfork_init False sl) s \<and> p_at s = P_Return}"
      using returns_at [of c fpid sl] by auto
  qed
  show "\<forall>s. (vfork_step False fpid)\<^sup>*\<^sup>* (vfork_init False sl) s \<and> c_at s \<notin> in_vfork \<longrightarrow>
      p_at s \<notin> registering \<and> (c_at s \<noteq> C_Done \<longrightarrow> pi_pid (slot s) = fpid \<and> vforked (slot s))"
  proof (intro allI impI, elim conjE)
    fix s
    assume "(vfork_step False fpid)\<^sup>*\<^sup>* (vfork_init False sl) s" "c_at s \<notin> in_vfork"
    with vfork_inv_reach [of fpid sl s]
    show "p_at s \<notin> registering \<and> (c_at s \<noteq> C_Done \<longrightarrow> pi_pid (slot s) = fpid \<and> vforked (slot s))"
      by (auto simp: vfork_inv_def registering_def)
  qed
qed

theorem vfork_parent_waits_witness:
  "\<exists>s. (vfork_step False 7)\<^sup>*\<^sup>* (vfork_init False no_slot) s \<and> p_at s = P_Return \<and> c_at s = C_Store \<and>
     pi_pid (slot s) = 7 \<and> vforked (slot s) \<and> \<not> first_parent_signaled (slot s)"
proof -
  obtain s where s: "vfork_run 7 (to_signal @ [A_Usr1]) (vfork_init False no_slot) = Some s" "c_at s = C_Store"
      "p_at s = P_Return" "\<not> first_parent_signaled (slot s)"
    by (simp add: vfork_eval)
  from vfork_parent_waits [of 7 no_slot] vfork_run_reach [OF s(1)] s(2-4) show ?thesis
    by (auto simp: in_vfork_def)
qed

text \<open>
  (C36) Both waits lose wake-ups. A signal that arrives between the child's test and its \<open>pause\<close> leaves the
  child waiting forever, and with it the parent; and a child that is through before its parent calls
  \<open>pause\<close> leaves the parent waiting forever. Each of the two deadlocks is reached by some schedule, and
  only an unrelated signal can end it.
\<close>

theorem vfork_loses_wakeups:
  "(\<exists>s. (vfork_step False fpid)\<^sup>*\<^sup>* (vfork_init False sl) s \<and> c_at s = C_Wait \<and> p_at s = P_Wait \<and>
      {s'. vfork_step False fpid s s'} = {}) \<and>
   (\<exists>s. (vfork_step False fpid)\<^sup>*\<^sup>* (vfork_init False sl) s \<and> c_at s = C_Done \<and> p_at s = P_Wait \<and>
      {s'. vfork_step False fpid s s'} = {})"
proof
  obtain s where "vfork_run fpid [A_Pid, A_First, A_Vforked, A_Kill, A_Test, A_Usr2, A_CPause, A_PPause] (vfork_init False sl) = Some s"
      "c_at s = C_Wait" "p_at s = P_Wait" "vfork_stuck s"
    by (simp add: vfork_eval)
  then show "\<exists>s. (vfork_step False fpid)\<^sup>*\<^sup>* (vfork_init False sl) s \<and> c_at s = C_Wait \<and> p_at s = P_Wait \<and>
      {s'. vfork_step False fpid s s'} = {}"
    using vfork_run_reach vfork_stuck_no_step by blast
next
  obtain s where "vfork_run fpid [A_Pid, A_First, A_Vforked, A_Kill, A_Usr2, A_Test, A_Ends, A_Read, A_Check, A_Signal, A_Store,
        A_Exec, A_Usr1, A_PPause] (vfork_init False sl) = Some s"
      "c_at s = C_Done" "p_at s = P_Wait" "vfork_stuck s"
    by (simp add: vfork_eval)
  then show "\<exists>s. (vfork_step False fpid)\<^sup>*\<^sup>* (vfork_init False sl) s \<and> c_at s = C_Done \<and> p_at s = P_Wait \<and>
      {s'. vfork_step False fpid s s'} = {}"
    using vfork_run_reach vfork_stuck_no_step by blast
qed

section \<open>Outside these conditions\<close>

text \<open>When \<open>fork\<close> fails, \<open>if (fpid)\<close> takes the branch of the parent: it enters -1 as the pid of a child, sends
  \<open>SIGUSR2\<close> to the pid -1, which is every process of the user, and waits for a signal of a child it does
  not have.\<close>

lemma vfork_failed_waits:
  assumes "(vfork_step False (- 1))\<^sup>*\<^sup>* (vfork_failed inherited sl) s"
  shows "p_at s \<noteq> P_Return"
proof -
  have "c_at s = C_None \<and> \<not> usr1 s \<and> \<not> usr2 s \<and> p_at s \<noteq> P_Return"
    using assms
    by (induction rule: rtranclp_induct)
      (auto simp: vfork_eval elim!: vfork_stepE maybe_signal_parentE)
  then show ?thesis by simp
qed

text \<open>A child forked by a process that was itself waited for in \<open>vfork\<close> has its variable, and runs before
  the parent has stored its pid.\<close>

lemma vfork_inherited_runs_early:
  "\<exists>s. (vfork_step False fpid)\<^sup>*\<^sup>* (vfork_init True sl) s \<and> c_at s = C_Run \<and> p_at s = P_Pid \<and> slot s = sl"
proof -
  obtain s where "vfork_run fpid [A_Test] (vfork_init True sl) = Some s" "c_at s = C_Run" "p_at s = P_Pid" "slot s = sl"
    by (simp add: vfork_eval)
  then show ?thesis using vfork_run_reach by blast
qed

text \<open>Any other signal with a handler ends the parent's wait.\<close>

lemma vfork_other_signal_returns:
  "\<exists>s. (vfork_step True fpid)\<^sup>*\<^sup>* (vfork_init False sl) s \<and> p_at s = P_Return \<and> c_at s = C_Test"
proof -
  obtain s where s: "vfork_run fpid [A_Pid, A_First, A_Vforked, A_Kill, A_PPause] (vfork_init False sl) = Some s"
      "c_at s = C_Test" "p_at s = P_Wait"
    by (simp add: vfork_eval)
  then have "vfork_step True fpid s (s\<lparr>p_at := P_Return\<rparr>)" by (intro p_other) simp_all
  with vfork_run_reach [OF s(1), of True] s(2) show ?thesis
    by (intro exI [of _ "s\<lparr>p_at := P_Return\<rparr>"]) auto
qed

end
