(* ===== verification/Ufs_Claim.thy ===== *)
theory Ufs_Claim
  imports Ufs_Exec
begin

text \<open>
  Claims under interleaving. The allocators of data buckets, of metadata buckets and of core slots all
  take an object of a shared array in the same way: look at its \<open>in_use\<close> flag, try its spin lock,
  look again, set the flag, unlock. Here any number of processes run that code at once, one step per
  access to the shared memory; an object is given back by clearing the flag without the lock, as
  \<open>release_dbucket\<close> does, and that can be done by anyone. The one release that is left out is that of an
  object some process has just marked and not yet returned, which nobody can know: it takes a caller
  that releases the same object twice. (The build never calls \<open>release_dbucket\<close>.) The protocol is one step relation over the accesses to the object; the locale
  \<open>claim_protocol\<close> proves it correct for any object with a flag and a lock, and is interpreted on the
  three kinds of objects the code has.

  The slots of \<open>pid_meta\<close> are taken differently: the second half shows what goes wrong there.
\<close>

section \<open>The protocol\<close>

datatype claim_pc =
    Idle
  | Seen nat    \<comment> \<open>the flag was clear\<close>
  | Held nat    \<comment> \<open>the lock is taken\<close>
  | Clear nat   \<comment> \<open>the flag was clear under the lock\<close>
  | Marked nat  \<comment> \<open>the flag is set, the lock still held\<close>

text \<open>\<open>owned p\<close>: the objects process \<open>p\<close> was given and that have not been given back.\<close>

record 'b claim_sys =
  objs :: "nat \<Rightarrow> 'b"
  pcs :: "nat \<Rightarrow> claim_pc"
  owned :: "nat \<Rightarrow> nat set"

definition at_pc :: "nat \<Rightarrow> claim_pc \<Rightarrow> 'b claim_sys \<Rightarrow> 'b claim_sys" where
  "at_pc p c s = s\<lparr>pcs := (pcs s)(p := c)\<rparr>"

definition upd_obj :: "nat \<Rightarrow> ('b \<Rightarrow> 'b) \<Rightarrow> 'b claim_sys \<Rightarrow> 'b claim_sys" where
  "upd_obj j f s = s\<lparr>objs := (objs s)(j := f (objs s j))\<rparr>"

definition own :: "nat \<Rightarrow> nat \<Rightarrow> 'b claim_sys \<Rightarrow> 'b claim_sys" where
  "own p j s = s\<lparr>owned := (owned s)(p := insert j (owned s p))\<rparr>"

definition disown :: "nat \<Rightarrow> 'b claim_sys \<Rightarrow> 'b claim_sys" where
  "disown j s = s\<lparr>owned := (\<lambda>p. owned s p - {j})\<rparr>"

inductive claim_step ::
  "('b \<Rightarrow> bool) \<Rightarrow> ('b \<Rightarrow> bool) \<Rightarrow> (bool \<Rightarrow> 'b \<Rightarrow> 'b) \<Rightarrow> (bool \<Rightarrow> 'b \<Rightarrow> 'b) \<Rightarrow> 'b claim_sys \<Rightarrow> 'b claim_sys \<Rightarrow> bool"
  for in_use lock put_use put_lock where
  look: "pcs s p = Idle \<Longrightarrow> \<not> in_use (objs s j) \<Longrightarrow>
    claim_step in_use lock put_use put_lock s (at_pc p (Seen j) s)"
| take: "pcs s p = Seen j \<Longrightarrow> \<not> lock (objs s j) \<Longrightarrow>
    claim_step in_use lock put_use put_lock s (at_pc p (Held j) (upd_obj j (put_lock True) s))"
| busy: "pcs s p = Seen j \<Longrightarrow> lock (objs s j) \<Longrightarrow>
    claim_step in_use lock put_use put_lock s (at_pc p Idle s)"
| late: "pcs s p = Held j \<Longrightarrow> in_use (objs s j) \<Longrightarrow>
    claim_step in_use lock put_use put_lock s (at_pc p Idle (upd_obj j (put_lock False) s))"
| check: "pcs s p = Held j \<Longrightarrow> \<not> in_use (objs s j) \<Longrightarrow>
    claim_step in_use lock put_use put_lock s (at_pc p (Clear j) s)"
| mark: "pcs s p = Clear j \<Longrightarrow>
    claim_step in_use lock put_use put_lock s (at_pc p (Marked j) (upd_obj j (put_use True) s))"
| unlock: "pcs s p = Marked j \<Longrightarrow>
    claim_step in_use lock put_use put_lock s (own p j (at_pc p Idle (upd_obj j (put_lock False) s)))"
| release: "\<forall>p. pcs s p \<noteq> Marked j \<Longrightarrow>
    claim_step in_use lock put_use put_lock s (disown j (upd_obj j (put_use False) s))"

inductive_cases claim_stepE: "claim_step in_use lock put_use put_lock s s'"

definition claim_init :: "(nat \<Rightarrow> 'b) \<Rightarrow> 'b claim_sys" where
  "claim_init m = \<lparr>objs = m, pcs = (\<lambda>_. Idle), owned = (\<lambda>_. {})\<rparr>"

definition holds :: "'b claim_sys \<Rightarrow> nat \<Rightarrow> nat \<Rightarrow> bool" where
  "holds s p j \<longleftrightarrow> pcs s p = Held j \<or> pcs s p = Clear j \<or> pcs s p = Marked j"

text \<open>A lock is held by one process; the holder's view of the flag is right; objects in the hands of
  different processes are different and marked.\<close>

definition claim_inv :: "('b \<Rightarrow> bool) \<Rightarrow> ('b \<Rightarrow> bool) \<Rightarrow> 'b claim_sys \<Rightarrow> bool" where
  "claim_inv in_use lock s \<longleftrightarrow>
     (\<forall>p j. holds s p j \<longrightarrow> lock (objs s j)) \<and>
     (\<forall>p q j. p \<noteq> q \<longrightarrow> holds s p j \<longrightarrow> \<not> holds s q j) \<and>
     (\<forall>p j. pcs s p = Clear j \<longrightarrow> \<not> in_use (objs s j)) \<and>
     (\<forall>p j. pcs s p = Marked j \<or> j \<in> owned s p \<longrightarrow> in_use (objs s j)) \<and>
     (\<forall>p q j. pcs s p = Marked j \<longrightarrow> j \<notin> owned s q) \<and>
     (\<forall>p q j. p \<noteq> q \<longrightarrow> j \<in> owned s p \<longrightarrow> j \<notin> owned s q)"

lemma claim_sel [simp]:
  "objs (at_pc p c s) = objs s" "pcs (at_pc p c s) = (pcs s)(p := c)" "owned (at_pc p c s) = owned s"
  "objs (upd_obj j f s) = (objs s)(j := f (objs s j))" "pcs (upd_obj j f s) = pcs s" "owned (upd_obj j f s) = owned s"
  "objs (own p j s) = objs s" "pcs (own p j s) = pcs s" "owned (own p j s) = (owned s)(p := insert j (owned s p))"
  "objs (disown j s) = objs s" "pcs (disown j s) = pcs s" "owned (disown j s) = (\<lambda>p. owned s p - {j})"
  by (simp_all add: at_pc_def upd_obj_def own_def disown_def)

locale claim_protocol =
  fixes in_use lock :: "'b \<Rightarrow> bool" and put_use put_lock :: "bool \<Rightarrow> 'b \<Rightarrow> 'b"
  assumes in_use_put [simp]: "in_use (put_use b x) = b" "in_use (put_lock b x) = in_use x"
    and lock_put [simp]: "lock (put_lock b x) = b" "lock (put_use b x) = lock x"
    and put_lock_same: "lock x = b \<Longrightarrow> put_lock b x = x"
    and put_lock_use: "put_lock a (put_use b (put_lock c x)) = put_lock a (put_use b x)"
begin

abbreviation "step \<equiv> claim_step in_use lock put_use put_lock"

lemma inv_init: "\<forall>j. \<not> lock (m j) \<Longrightarrow> claim_inv in_use lock (claim_init m)"
  by (simp add: claim_inv_def claim_init_def holds_def)

lemma inv_step: "step s s' \<Longrightarrow> claim_inv in_use lock s \<Longrightarrow> claim_inv in_use lock s'"
proof (erule claim_stepE, goal_cases)
  case (1 p j)
  then show ?case by (auto simp: claim_inv_def holds_def)
next
  case (2 p j)
  then have n: "\<not> holds s q j" for q by (auto simp: claim_inv_def)
  have h: "holds s' q i = (if q = p then i = j else holds s q i)" for q i
    using 2 by (auto simp: holds_def)
  show ?case using 2 n unfolding claim_inv_def h by (auto split: if_splits)
next
  case (3 p j)
  then show ?case by (auto simp: claim_inv_def holds_def split: if_splits)
next
  case (4 p j)
  have h: "holds s' q i = (q \<noteq> p \<and> holds s q i)" for q i
    using 4 by (simp add: holds_def)
  have "\<not> holds s q j" if "q \<noteq> p" for q using 4 that by (auto simp: claim_inv_def holds_def)
  then show ?case using 4 unfolding claim_inv_def h by (auto split: if_splits)
next
  case (5 p j)
  have h: "holds s' q i = holds s q i" for q i using 5 by (auto simp: holds_def)
  show ?case using 5 unfolding claim_inv_def h by (auto split: if_splits)
next
  case (6 p j)
  have h: "holds s' q i = holds s q i" for q i using 6 by (auto simp: holds_def)
  have "\<not> holds s q j" if "q \<noteq> p" for q using 6 that by (auto simp: claim_inv_def holds_def)
  moreover have "j \<notin> owned s q" for q using 6(1,3) unfolding claim_inv_def by blast
  ultimately show ?case using 6 unfolding claim_inv_def h by (auto simp: holds_def split: if_splits)
next
  case (7 p j)
  have h: "holds s' q i = (q \<noteq> p \<and> holds s q i)" for q i
    using 7 by (simp add: holds_def)
  have "\<not> holds s q j" if "q \<noteq> p" for q using 7 that by (auto simp: claim_inv_def holds_def)
  then show ?case using 7 unfolding claim_inv_def h by (auto simp: holds_def split: if_splits)
next
  case (8 j)
  have h: "holds s' q i = holds s q i" for q i using 8 by (auto simp: holds_def)
  show ?case using 8 unfolding claim_inv_def h by (auto split: if_splits)
qed

lemma inv_reach:
  assumes "step\<^sup>*\<^sup>* (claim_init m) s" "\<forall>j. \<not> lock (m j)"
  shows "claim_inv in_use lock s"
  using assms(1) by (induction rule: rtranclp_induct) (auto intro: inv_init [OF assms(2)] inv_step)

lemma owners_differ:
  assumes "step\<^sup>*\<^sup>* (claim_init m) s" "\<forall>j. \<not> lock (m j)" "p \<noteq> q"
  shows "owned s p \<inter> owned s q = {}" "\<forall>j \<in> owned s p. in_use (objs s j)"
  using inv_reach [OF assms(1,2)] assms(3) unfolding claim_inv_def by blast+

text \<open>A process that is not disturbed gets through in one go.\<close>

lemma claim_alone:
  assumes "pcs s p = Idle" "\<not> in_use (objs s j)" "\<not> lock (objs s j)"
  shows "step\<^sup>*\<^sup>* s (own p j (upd_obj j (put_lock False \<circ> put_use True) s))"
proof -
  let ?a = "at_pc p (Seen j) s"
  let ?b = "at_pc p (Held j) (upd_obj j (put_lock True) ?a)"
  let ?c = "at_pc p (Clear j) ?b"
  let ?d = "at_pc p (Marked j) (upd_obj j (put_use True) ?c)"
  let ?e = "own p j (at_pc p Idle (upd_obj j (put_lock False) ?d))"
  have "step s ?a" "step ?a ?b" "step ?b ?c" "step ?c ?d" "step ?d ?e"
    using assms by (intro claim_step.intros; simp)+
  then have "step\<^sup>*\<^sup>* s ?e" by (meson rtranclp.rtrancl_into_rtrancl rtranclp.rtrancl_refl)
  moreover have "?e = own p j (upd_obj j (put_lock False \<circ> put_use True) s)"
    using assms(1) by (simp add: own_def at_pc_def upd_obj_def put_lock_use fun_upd_idem)
  ultimately show ?thesis by simp
qed

end

section \<open>The three kinds of objects\<close>

interpretation db: claim_protocol db_in_use db_lock "\<lambda>b d. d\<lparr>db_in_use := b\<rparr>" "\<lambda>b d. d\<lparr>db_lock := b\<rparr>"
  by unfold_locales simp_all

interpretation mb: claim_protocol mb_in_use mb_lock "\<lambda>b m. m\<lparr>mb_in_use := b\<rparr>" "\<lambda>b m. m\<lparr>mb_lock := b\<rparr>"
  by unfold_locales simp_all

interpretation cs: claim_protocol cs_in_use cs_lock "\<lambda>b c. c\<lparr>cs_in_use := b\<rparr>" "\<lambda>b c. c\<lparr>cs_lock := b\<rparr>"
  by unfold_locales simp_all

definition db_claim_step :: "data_bucket claim_sys \<Rightarrow> data_bucket claim_sys \<Rightarrow> bool" where
  "db_claim_step = claim_step db_in_use db_lock (\<lambda>b d. d\<lparr>db_in_use := b\<rparr>) (\<lambda>b d. d\<lparr>db_lock := b\<rparr>)"

definition mb_claim_step :: "meta_bucket claim_sys \<Rightarrow> meta_bucket claim_sys \<Rightarrow> bool" where
  "mb_claim_step = claim_step mb_in_use mb_lock (\<lambda>b m. m\<lparr>mb_in_use := b\<rparr>) (\<lambda>b m. m\<lparr>mb_lock := b\<rparr>)"

definition cs_claim_step :: "core_st claim_sys \<Rightarrow> core_st claim_sys \<Rightarrow> bool" where
  "cs_claim_step = claim_step cs_in_use cs_lock (\<lambda>b c. c\<lparr>cs_in_use := b\<rparr>) (\<lambda>b c. c\<lparr>cs_lock := b\<rparr>)"

text \<open>The steps of a process that is not disturbed are the sequential claim of \<open>Ufs_Data\<close>, and a claim
  that fails changes nothing.\<close>

lemma claim_dbucket_steps:
  assumes "pcs s p = Idle" "claim_dbucket (objs s j) = (ok, d)"
  shows "if ok then db_claim_step\<^sup>*\<^sup>* s (own p j (s\<lparr>objs := (objs s)(j := d)\<rparr>)) else d = objs s j"
  using assms db.claim_alone [OF assms(1), of j]
  by (auto simp: claim_dbucket_def db_claim_step_def upd_obj_def split: if_splits)

lemma metadata_claims_differ:
  assumes "mb_claim_step\<^sup>*\<^sup>* (claim_init m) s" "\<forall>j. \<not> mb_lock (m j)" "p \<noteq> q"
  shows "owned s p \<inter> owned s q = {}" "\<forall>j \<in> owned s p. mb_in_use (objs s j)"
  using mb.owners_differ [OF assms(1)[unfolded mb_claim_step_def] assms(2,3)] by simp_all

lemma core_claims_differ:
  assumes "cs_claim_step\<^sup>*\<^sup>* (claim_init m) s" "\<forall>j. \<not> cs_lock (m j)" "p \<noteq> q"
  shows "owned s p \<inter> owned s q = {}" "\<forall>j \<in> owned s p. cs_in_use (objs s j)"
  using cs.owners_differ [OF assms(1)[unfolded cs_claim_step_def] assms(2,3)] by simp_all

text \<open>
  (C24) No interleaving of allocations and releases by any number of processes hands a bucket out twice.
  From any array of data buckets that are unlocked, the buckets two processes own are different at
  every moment, and each of them is marked in use. And the steps are those of the sequential model: a
  process at rest that finds a bucket it can claim, and runs undisturbed, does what \<open>claim_dbucket\<close>
  does.
\<close>

theorem concurrent_claims_differ:
  assumes "db_claim_step\<^sup>*\<^sup>* (claim_init m) s" "\<forall>j. \<not> db_lock (m j)" "p \<noteq> q"
  shows "owned s p \<inter> owned s q = {} \<and> (\<forall>j \<in> owned s p. db_in_use (objs s j)) \<and>
    (\<forall>j d. pcs s p = Idle \<and> claim_dbucket (objs s j) = (True, d) \<longrightarrow>
       db_claim_step\<^sup>*\<^sup>* s (own p j (s\<lparr>objs := (objs s)(j := d)\<rparr>)))"
  using db.owners_differ [OF assms(1)[unfolded db_claim_step_def] assms(2,3)] claim_dbucket_steps [of s p] by auto

theorem concurrent_claims_differ_witness:
  "db_claim_step\<^sup>*\<^sup>* (claim_init (\<lambda>_. free_db)) (own 1 5 ((claim_init (\<lambda>_. free_db))\<lparr>objs := (\<lambda>_. free_db)(5 := free_db\<lparr>db_in_use := True\<rparr>)\<rparr>))"
proof -
  have "claim_dbucket free_db = (True, free_db\<lparr>db_in_use := True\<rparr>)" "\<not> db_lock free_db"
    by (simp_all add: claim_dbucket_def free_db_def)
  with concurrent_claims_differ [of "\<lambda>_. free_db" "claim_init (\<lambda>_. free_db)" 1 2] show ?thesis
    by (simp add: claim_init_def)
qed

section \<open>The slots of \<open>pid_meta\<close>\<close>

text \<open>
  \<open>get_pid_meta_ind\<close> run by any number of processes at once, one step per access to the table: the slot
  remembered from before, if it still carries the pid; the search for the own pid from the first slot
  on; then \<open>get_new_pid_meta_ind\<close>, which goes through the slots in ascending order, tries the lock of one
  without pid (and goes on when it is taken), notes the index and unlocks; and the store of the pid
  after that. A process that finds no slot exits. \<open>ind p\<close> is \<open>pid_meta_ind\<close> of process \<open>p\<close>, when it is set.
\<close>

datatype pid_pc =
    Enter
  | Own nat         \<comment> \<open>looking for the own pid\<close>
  | New nat         \<comment> \<open>looking for a slot without pid\<close>
  | Try nat         \<comment> \<open>the slot had none\<close>
  | Locked nat
  | Chosen nat      \<comment> \<open>unlocked again\<close>
  | Registered nat
  | Exited

record pid_sys =
  tab :: "nat \<Rightarrow> pid_info"
  ppc :: "int \<Rightarrow> pid_pc"
  ind :: "int \<Rightarrow> nat option"

definition put_pc :: "int \<Rightarrow> pid_pc \<Rightarrow> pid_sys \<Rightarrow> pid_sys" where
  "put_pc p c s = s\<lparr>ppc := (ppc s)(p := c)\<rparr>"

definition put_ind :: "int \<Rightarrow> nat \<Rightarrow> pid_sys \<Rightarrow> pid_sys" where
  "put_ind p i s = s\<lparr>ind := (ind s)(p := Some i)\<rparr>"

definition upd_slot :: "nat \<Rightarrow> (pid_info \<Rightarrow> pid_info) \<Rightarrow> pid_sys \<Rightarrow> pid_sys" where
  "upd_slot i f s = s\<lparr>tab := (tab s)(i := f (tab s i))\<rparr>"

inductive pid_step :: "pid_sys \<Rightarrow> pid_sys \<Rightarrow> bool" where
  pid_known: "ppc s p = Enter \<Longrightarrow> ind s p = Some i \<Longrightarrow> pi_pid (tab s i) = p \<Longrightarrow>
    pid_step s (put_pc p (Registered i) s)"
| pid_search: "ppc s p = Enter \<Longrightarrow> \<forall>i. ind s p = Some i \<longrightarrow> pi_pid (tab s i) \<noteq> p \<Longrightarrow> pid_step s (put_pc p (Own 0) s)"
| pid_own: "ppc s p = Own j \<Longrightarrow> j < MAX_EXEC_HANGING \<Longrightarrow> pi_pid (tab s j) = p \<Longrightarrow>
    pid_step s (put_pc p (Registered j) (put_ind p j s))"
| pid_other: "ppc s p = Own j \<Longrightarrow> j < MAX_EXEC_HANGING \<Longrightarrow> pi_pid (tab s j) \<noteq> p \<Longrightarrow> pid_step s (put_pc p (Own (Suc j)) s)"
| pid_absent: "ppc s p = Own j \<Longrightarrow> \<not> j < MAX_EXEC_HANGING \<Longrightarrow> pid_step s (put_pc p (New 0) s)"
| pid_free: "ppc s p = New i \<Longrightarrow> i < MAX_EXEC_HANGING \<Longrightarrow> pi_pid (tab s i) = 0 \<Longrightarrow> pid_step s (put_pc p (Try i) s)"
| pid_taken: "ppc s p = New i \<Longrightarrow> i < MAX_EXEC_HANGING \<Longrightarrow> pi_pid (tab s i) \<noteq> 0 \<Longrightarrow> pid_step s (put_pc p (New (Suc i)) s)"
| pid_full: "ppc s p = New i \<Longrightarrow> \<not> i < MAX_EXEC_HANGING \<Longrightarrow> pid_step s (put_pc p Exited s)"
| pid_busy: "ppc s p = Try i \<Longrightarrow> pi_lock (tab s i) \<Longrightarrow> pid_step s (put_pc p (New (Suc i)) s)"
| pid_lock: "ppc s p = Try i \<Longrightarrow> \<not> pi_lock (tab s i) \<Longrightarrow>
    pid_step s (put_pc p (Locked i) (upd_slot i (\<lambda>x. x\<lparr>pi_lock := True\<rparr>) s))"
| pid_unlock: "ppc s p = Locked i \<Longrightarrow>
    pid_step s (put_pc p (Chosen i) (put_ind p i (upd_slot i (\<lambda>x. x\<lparr>pi_lock := False\<rparr>) s)))"
| pid_store: "ppc s p = Chosen i \<Longrightarrow> pid_step s (put_pc p (Registered i) (upd_slot i (\<lambda>x. x\<lparr>pi_pid := p\<rparr>) s))"

definition pid_init :: "(nat \<Rightarrow> pid_info) \<Rightarrow> pid_sys" where
  "pid_init m = \<lparr>tab = m, ppc = (\<lambda>_. Enter), ind = (\<lambda>_. None)\<rparr>"

lemma pid_sel [simp]:
  "tab (put_pc p c s) = tab s" "ppc (put_pc p c s) = (ppc s)(p := c)" "ind (put_pc p c s) = ind s"
  "tab (put_ind p i s) = tab s" "ppc (put_ind p i s) = ppc s" "ind (put_ind p i s) = (ind s)(p \<mapsto> i)"
  "tab (upd_slot i f s) = (tab s)(i := f (tab s i))" "ppc (upd_slot i f s) = ppc s" "ind (upd_slot i f s) = ind s"
  by (simp_all add: put_pc_def put_ind_def upd_slot_def)

lemma put_pc_idem [simp]: "put_pc p c (put_pc p c' s) = put_pc p c s"
  by (simp add: put_pc_def)

lemma put_pc_ind: "put_ind p i (put_pc p c s) = put_pc p c (put_ind p i s)"
  by (simp add: put_pc_def put_ind_def)

lemma find_pid_none_iff: "find_pid p j m = None \<longleftrightarrow> (\<forall>i. j \<le> i \<longrightarrow> i < MAX_EXEC_HANGING \<longrightarrow> pi_pid (m i) \<noteq> p)"
proof
  show "find_pid p j m = None \<Longrightarrow> \<forall>i. j \<le> i \<longrightarrow> i < MAX_EXEC_HANGING \<longrightarrow> pi_pid (m i) \<noteq> p"
    using find_pid_None by blast
  show "\<forall>i. j \<le> i \<longrightarrow> i < MAX_EXEC_HANGING \<longrightarrow> pi_pid (m i) \<noteq> p \<Longrightarrow> find_pid p j m = None"
    using find_pid_Some [of p j m] by (cases "find_pid p j m") auto
qed

text \<open>The steps of one process follow the functions of \<open>Ufs_Process\<close>: a process without slot goes over the
  whole table, and then takes the slot \<open>get_new_pid_meta_ind\<close> gives.\<close>

lemma own_path:
  "find_pid p j (tab t) = None \<Longrightarrow> ppc t p = Own j \<Longrightarrow> pid_step\<^sup>*\<^sup>* t (put_pc p (New 0) t)"
proof (induction p j "tab t" arbitrary: t rule: find_pid.induct)
  case (1 p j)
  show ?case
  proof (cases "j < MAX_EXEC_HANGING")
    case True
    with "1.prems" have n: "pi_pid (tab t j) \<noteq> p" "find_pid p (Suc j) (tab t) = None"
      by (auto simp: find_pid_none_iff)
    have "pid_step t (put_pc p (Own (Suc j)) t)" by (rule pid_other [OF "1.prems"(2) True n(1)])
    moreover have "pid_step\<^sup>*\<^sup>* (put_pc p (Own (Suc j)) t) (put_pc p (New 0) t)"
      using "1.hyps" [OF True n(1), of "put_pc p (Own (Suc j)) t"] n(2) by simp
    ultimately show ?thesis by (rule converse_rtranclp_into_rtranclp)
  next
    case False
    then show ?thesis using pid_absent [OF "1.prems"(2)] by blast
  qed
qed

lemma new_path:
  "new_pid_loop i s = Inr (k, s') \<Longrightarrow> tab t = pid_meta s \<Longrightarrow> ppc t p = New i \<Longrightarrow>
     pid_step\<^sup>*\<^sup>* t (put_pc p (Chosen k) (put_ind p k t)) \<and> k < MAX_EXEC_HANGING \<and> pi_pid (pid_meta s k) = 0"
proof (induction i s arbitrary: t rule: new_pid_loop.induct)
  case (1 i s)
  have i: "i < MAX_EXEC_HANGING" using "1.prems"(1) by (subst (asm) new_pid_loop.simps) (simp split: if_splits)
  have on: "pid_step\<^sup>*\<^sup>* (put_pc p (New (Suc i)) t) (put_pc p (Chosen k) (put_ind p k t)) \<and> k < MAX_EXEC_HANGING \<and>
      pi_pid (pid_meta s k) = 0" if "new_pid_loop (Suc i) s = Inr (k, s')" "pi_pid (pid_meta s i) = 0 \<longrightarrow> pi_lock (pid_meta s i)"
  proof (cases "pi_pid (pid_meta s i) = 0")
    case True
    with that have "(- 1, s) = trylock_pid_info i s" by (simp add: trylock_pid_info_def)
    from "1.IH"(1) [OF i True this refl that(1), of "put_pc p (New (Suc i)) t"] "1.prems"(2)
    show ?thesis by (simp add: put_pc_ind)
  next
    case False
    from "1.IH"(2) [OF i False that(1), of "put_pc p (New (Suc i)) t"] "1.prems"(2)
    show ?thesis by (simp add: put_pc_ind)
  qed
  show ?case
  proof (cases "pi_pid (pid_meta s i) = 0")
    case False
    with "1.prems"(1) i have "new_pid_loop (Suc i) s = Inr (k, s')" by (subst (asm) new_pid_loop.simps) simp
    moreover have "pid_step t (put_pc p (New (Suc i)) t)"
      by (rule pid_taken [OF "1.prems"(3) i]) (use False "1.prems"(2) in simp)
    ultimately show ?thesis using on False by (meson converse_rtranclp_into_rtranclp)
  next
    case zero: True
    have a: "pid_step t (put_pc p (Try i) t)"
      by (rule pid_free [OF "1.prems"(3) i]) (use zero "1.prems"(2) in simp)
    show ?thesis
    proof (cases "pi_lock (pid_meta s i)")
      case True
      with "1.prems"(1) i zero have "new_pid_loop (Suc i) s = Inr (k, s')"
        by (subst (asm) new_pid_loop.simps) (simp add: trylock_pid_info_def)
      moreover have "pid_step (put_pc p (Try i) t) (put_pc p (New (Suc i)) t)"
        using pid_busy [of "put_pc p (Try i) t" p i] True "1.prems"(2) by simp
      ultimately show ?thesis using on True a by (meson converse_rtranclp_into_rtranclp)
    next
      case False
      with "1.prems"(1) i zero have k: "k = i"
        by (subst (asm) new_pid_loop.simps) (simp add: trylock_pid_info_def)
      let ?b = "put_pc p (Locked i) (upd_slot i (\<lambda>x. x\<lparr>pi_lock := True\<rparr>) t)"
      have "pid_step (put_pc p (Try i) t) ?b"
        using pid_lock [of "put_pc p (Try i) t" p i] False "1.prems"(2) by (simp add: put_pc_def upd_slot_def)
      moreover have "put_pc p (Chosen i) (put_ind p i (upd_slot i (\<lambda>x. x\<lparr>pi_lock := False\<rparr>) ?b)) =
          put_pc p (Chosen k) (put_ind p k t)"
        using False "1.prems"(2) k by (simp add: put_pc_def put_ind_def upd_slot_def fun_upd_idem)
      then have "pid_step ?b (put_pc p (Chosen k) (put_ind p k t))"
        using pid_unlock [of ?b p i] by simp
      ultimately show ?thesis using a i k zero by (meson converse_rtranclp_into_rtranclp rtranclp.rtrancl_refl)
    qed
  qed
qed

lemma choose_path:
  assumes "get_new_pid_meta_ind s = Inr (i, s')" "tab t = pid_meta s" "ppc t p = Enter" "ind t p = None"
    "find_pid p 0 (pid_meta s) = None"
  shows "pid_step\<^sup>*\<^sup>* t (put_pc p (Chosen i) (put_ind p i t))"
proof -
  have "pid_step t (put_pc p (Own 0) t)" by (rule pid_search) (use assms(3,4) in simp_all)
  moreover have "pid_step\<^sup>*\<^sup>* (put_pc p (Own 0) t) (put_pc p (New 0) t)"
    using own_path [of p 0 "put_pc p (Own 0) t"] assms(2,5) by simp
  moreover have "pid_step\<^sup>*\<^sup>* (put_pc p (New 0) t) (put_pc p (Chosen i) (put_ind p i t))"
    using new_path [OF assms(1) [unfolded get_new_pid_meta_ind_def], of "put_pc p (New 0) t" p] assms(2)
    by (simp add: put_pc_ind)
  ultimately show ?thesis by (meson converse_rtranclp_into_rtranclp rtranclp_trans)
qed

text \<open>
  (C35) Two processes can be given the same slot of \<open>pid_meta\<close>. The lock is released before the pid is
  stored, and nobody looks at the pid again under the lock: in any table, two processes without slot
  that call \<open>get_pid_meta_ind\<close> at the same time can both end up with the slot that
  \<open>get_new_pid_meta_ind\<close> gives to one alone. The slot then carries the pid of the later one only, and
  the pid of the other is nowhere in the table.
\<close>

theorem pid_slot_given_twice:
  assumes "get_new_pid_meta_ind s = Inr (i, s')" "find_pid p 0 (pid_meta s) = None" "find_pid q 0 (pid_meta s) = None" "p \<noteq> q"
  shows "\<exists>t. pid_step\<^sup>*\<^sup>* (pid_init (pid_meta s)) t \<and> ppc t p = Registered i \<and> ppc t q = Registered i \<and>
    pi_pid (tab t i) = q \<and> find_pid p 0 (tab t) = None"
proof -
  let ?s = "pid_init (pid_meta s)"
  let ?a = "put_pc p (Chosen i) (put_ind p i ?s)"
  let ?b = "put_pc q (Chosen i) (put_ind q i ?a)"
  let ?c = "put_pc p (Registered i) (upd_slot i (\<lambda>x. x\<lparr>pi_pid := p\<rparr>) ?b)"
  let ?d = "put_pc q (Registered i) (upd_slot i (\<lambda>x. x\<lparr>pi_pid := q\<rparr>) ?c)"
  have "pid_step\<^sup>*\<^sup>* ?s ?a" using assms(2) by (intro choose_path [OF assms(1)]) (simp_all add: pid_init_def)
  moreover have "pid_step\<^sup>*\<^sup>* ?a ?b"
    using assms(3,4) by (intro choose_path [OF assms(1)]) (simp_all add: pid_init_def)
  moreover have "pid_step ?b ?c" by (rule pid_store) (use assms(4) in simp)
  moreover have "pid_step ?c ?d" by (rule pid_store) (use assms(4) in simp)
  ultimately have "pid_step\<^sup>*\<^sup>* ?s ?d" by (meson rtranclp.rtrancl_into_rtrancl rtranclp_trans)
  moreover have "find_pid p 0 (tab ?d) = None"
    using assms(2,4) by (auto simp: find_pid_none_iff pid_init_def)
  ultimately show ?thesis using assms(4) by (intro exI [of _ ?d]) simp
qed

text \<open>Two processes on a table in which slot 0 belongs to process 5.\<close>

definition two_starts :: "unit pstate" where
  "two_starts = upd_pid 0 (\<lambda>x. x\<lparr>pi_pid := 5\<rparr>) boot_pstate"

theorem pid_slot_given_twice_witness:
  "\<exists>t. pid_step\<^sup>*\<^sup>* (pid_init (pid_meta two_starts)) t \<and> ppc t 7 = Registered 1 \<and> ppc t 9 = Registered 1 \<and>
     pi_pid (tab t 1) = 9 \<and> find_pid 7 0 (tab t) = None"
proof -
  have m: "pi_pid (pid_meta two_starts j) = (if j = 0 then 5 else 0)" "\<not> pi_lock (pid_meta two_starts j)" for j
    by (simp_all add: two_starts_def upd_pid_def boot_pstate_proc)
  obtain s' where "get_new_pid_meta_ind two_starts = Inr (1, s')"
    unfolding get_new_pid_meta_ind_def
    by (simp add: new_pid_loop.simps [of 0] new_pid_loop.simps [of "Suc 0"] m trylock_pid_info_def MAX_EXEC_HANGING_def)
  moreover have "find_pid 7 0 (pid_meta two_starts) = None" "find_pid 9 0 (pid_meta two_starts) = None"
    by (auto simp: find_pid_none_iff m)
  ultimately show ?thesis using pid_slot_given_twice [of two_starts 1 s' 7 9] by auto
qed

end
