(* ===== verification/Spec2Isabelle.thy ===== *)
theory Spec2Isabelle
  imports Ufs_Preload Ufs_Load Ufs_Background Ufs_Metro Ufs_Vfork Ufs_Claim
begin

text \<open>
  \<^bold>\<open>SpaceFish\<close>, a file system in shared memory for one user.

  \<^bold>\<open>The program.\<close> A library (\<open>system/lib\<close>, \<open>system/util\<close>) is loaded in front of the C library and
  takes over the calls on files; it reaches the C library's own functions of the same names through the
  wrappers of \<open>glibccall.h\<close>. Names, attributes and contents live in shared segments: a hash table
  whose rows are lists of metadata buckets (\<open>meta_shm.c\<close>), and an array of data buckets of 4096 bytes
  (\<open>data_shm.c\<close>) that the metadata buckets point into; a file is a chain of data buckets. Each process
  has a table of descriptors (\<open>fd.c\<close>); descriptors below 1024 are the system's, those above are the
  library's. A daemon (\<open>daemon.c\<close>) creates the segments, loads a directory into them and at its end
  writes changed files back. Over \<open>exec\<close> a process hands its descriptors to its successor through
  a shared segment and a slot in the array \<open>pid_meta\<close> (\<open>process.c\<close>, \<open>file_proc.c\<close>, \<open>ufs.c\<close>).

  \<^bold>\<open>State.\<close> The records grow the way the code is layered: \<open>dstate\<close> (the data memory and the sources
  of \<open>rand\<close> and \<open>sched_getcpu\<close>), \<open>mstate\<close> (the hash table and the metadata buckets), \<open>ustate\<close> (the
  descriptors, \<open>errno\<close>, the clock, the disk) and \<open>pstate\<close> (the segments, \<open>pid_meta\<close>, the identity of the
  process). Every operation is a function from a state to a result \<open>abort + value \<times> state\<close>; \<open>Exit\<close>,
  \<open>Hang\<close>, \<open>Fault\<close> and \<open>Abort\<close> are the ways a call does not return. Operations are written for all extensions of
  the record they need. What the library takes from the operating system is the record \<open>os\<close>, an
  argument over an abstract disk; no assumption is made on it unless a theorem states one.

  \<^bold>\<open>Definitions.\<close>
  \<^item> \<open>Ufs_Prelude\<close>: outcomes, machine integers, byte buffers, \<open>string.h\<close>.
  \<^item> \<open>Ufs_Rwlock\<close> (\<open>rwlock.c\<close>): the lock of a row, run alone and as interleaved steps.
  \<^item> \<open>Ufs_Data\<close> (\<open>data_shm.c\<close>): steps of data buckets, index to pointer, the five allocators in both
    variants, release, core slots; with the locales \<open>free_walk\<close> (a walk that visits each index of a
    range once) and \<open>bucket_allocator\<close> (what a client may rely on), both interpreted there.
  \<^item> \<open>Ufs_Hash\<close>, \<open>Ufs_Metro\<close> (\<open>util.c\<close>): the two hash functions.
  \<^item> \<open>Ufs_Meta\<close> (\<open>meta_shm.c\<close>): lookup, creation, release and rename under the row locks.
  \<^item> \<open>Ufs_Path\<close> (\<open>util.c\<close>, \<open>utility.h\<close>): the key of a path. \<open>Ufs_Fd\<close> (\<open>fd.c\<close>): descriptors.
  \<^item> \<open>Ufs_File\<close>, \<open>Ufs_Syscalls\<close> (\<open>file_syscalls.c\<close>): the loops over the buckets and the calls \<open>open\<close>,
    \<open>close\<close>, \<open>read\<close>, \<open>write\<close>, \<open>pread\<close>, \<open>pwrite\<close>, \<open>unlink\<close>, \<open>rename\<close>, \<open>fsync\<close>. \<open>Ufs_Stat\<close> (\<open>file_meta.c\<close>):
    the \<open>stat\<close> calls. \<open>Ufs_Util\<close> (\<open>util.c\<close>): time stamps, loading and writing back.
  \<^item> \<open>Ufs_Process\<close> (\<open>process.c\<close>, \<open>file_proc.c\<close>, \<open>ufs.c\<close>): slots, \<open>exec\<close>, constructor and destructor.
    \<open>Ufs_Vfork\<close>: \<open>vfork\<close> as built with \<open>VFORK_SIGNALING\<close>. \<open>Ufs_Daemon\<close> (\<open>daemon.c\<close>, \<open>upload_dir\<close>): the
    daemon. \<open>Ufs_Claim\<close>: the claims of buckets and slots as interleaved steps.
  \<^item> \<open>Ufs_Glibc\<close> (\<open>glibccall.h\<close>): the link map of a process, \<open>dlsym\<close> with \<open>RTLD_NEXT\<close>, formatted output and
    every wrapper \<open>real_f\<close>. \<open>Ufs_Log\<close> (\<open>dlog.h\<close>, \<open>fdlog.h\<close>, \<open>profile.h\<close>): messages, the macros that end the
    process, the counters. \<open>Ufs_Background\<close> (\<open>daemon.c\<close>): the end of the daemon's \<open>main\<close>.
  \<^item> \<open>Ufs_Spec\<close> is not code but the contract of the calls: an abstract file system of two maps, paths to
    bytes with a position and descriptors to paths, with \<open>a_call\<close> for each call.

  \<^bold>\<open>Theorems.\<close>
  \<^item> The whole. \<open>models\<close> (\<open>Ufs_Sim\<close>) relates a state of the library to an abstract file system; every
    call within the contract preserves it and gives the abstract answer, and the locale \<open>simulation\<close>
    carries this over to programs (\<open>Ufs_Refine\<close>), also from the mount of the daemon on. Outside the
    contract are descriptors and paths that go to the operating system, files on disk (\<open>models\<close> has an
    operating system without files; loading one is treated in \<open>Ufs_Disk\<close>), and the calls with the
    defects below: \<open>O_APPEND\<close>, truncation of a file of more than one bucket, offsets behind the end of
    the file and \<open>pwrite\<close> at an end on a bucket boundary, removal of a file that is open, renaming inside
    a row or of a missing file, and opening with no descriptor left.
  \<^item> Names. \<open>rows_ok\<close> is the invariant of the hash table and \<open>look\<close> the map it stands for
    (\<open>Ufs_Directory\<close>); every operation refines an operation on the map (locale \<open>name_service\<close>,
    \<open>Ufs_Names\<close>). Renaming inside one row deadlocks, and a failed rename keeps its locks.
  \<^item> Data. Allocation gives a fresh bucket and finds one if there is one; allocations never collide,
    run alone (\<open>Ufs_Alloc\<close>) or interleaved (\<open>Ufs_Claim\<close>, locale \<open>claim_protocol\<close> with three
    interpretations); a per-core allocation stays in its slice.
  \<^item> Files. \<open>file_ok\<close> relates a metadata bucket to its chain and \<open>content\<close> is the list of bytes it holds
    (\<open>Ufs_Files\<close>, \<open>Ufs_Offset\<close>); the reading calls return a part of that list and the writing calls splice
    into it (\<open>Ufs_Posix\<close>). \<open>stat\<close> reports its length (\<open>Ufs_Attr\<close>). Loading a file is writing it, and what is
    written back is characterised exactly (\<open>Ufs_Disk\<close>).
  \<^item> Sessions. \<open>Ufs_Frame\<close> says what each call leaves alone and gives an invariant of the descriptor
    table that any sequence of calls keeps; \<open>Ufs_Open\<close> composes creation, writing, closing, opening and
    reading into one round trip.
  \<^item> Processes. A process has one slot, and \<open>exec\<close> followed by the constructor restores the descriptors
    (\<open>Ufs_Exec\<close>). The daemon's start and a process's start establish all invariants above, and the
    daemon's end allows the next start (\<open>Ufs_Mount\<close>). A directory tree the daemon mounts is in the name
    table file by file, and a process that starts then reads from each what is on disk (\<open>Ufs_Load\<close>).
  \<^item> Linkage. \<open>Ufs_Preload\<close> puts an application, the library and the C library into one link map: a
    program that calls by name gets the library's calls and with them the answers of the abstract file
    system, and each wrapper is the call of \<open>os\<close> that the definitions above make in its place; a call the
    library does not define, \<open>lseek\<close> for one, goes past it. \<open>EHANDLE\<close> and \<open>UEHANDLE\<close> are the outcome \<open>Exit\<close>
    (\<open>Ufs_Log\<close>), and the profile's counters are sums in any order of the processes.
  \<^item> Where the code does something else than it means to, a theorem says what it does: the lock lets a
    reader in beside a writer, \<open>open\<close> with \<open>O_APPEND\<close> does not return, a second \<open>open\<close> moves the position of
    the first, \<open>pread\<close> returns stale bytes behind the end, \<open>unlink\<close> keeps the data, a second \<open>exec\<close> ends
    the process, two processes get one slot, \<open>vfork\<close> loses wake-ups, files of more than one bucket are
    written back wrongly, messages are formatted twice, a failed \<open>fork\<close> of the daemon leaves its segments.

  \<^bold>\<open>Bounds and fuel.\<close> The constants are those of \<open>config.h\<close>. Walks over a row carry \<open>META_BUCKETS\<close> as
  fuel, reading loops the number of rounds after which they must have come back to a bucket
  (\<open>loop_fuel\<close>), and the \<open>O_APPEND\<close> loop two more rounds than there are buckets; running out is \<open>Hang\<close>,
  which is what the C loop does then, and the invariants exclude it. All other loops end by a measure.
  File sizes and offsets are unbounded numbers except where the code subtracts in \<open>size_t\<close>.

  \<^bold>\<open>Build.\<close> As the Makefile and \<open>config.h\<close> have it: \<open>WRITE_TO_DISK\<close>, \<open>UNLINK_IGNORE_DISK\<close>,
  \<open>DEFER_TIMESTAMP_CLOSE\<close> and \<open>OFFSET_PROCESS_CACHE\<close> are defined, \<open>O_TRUNC_FREE\<close> is not. The alternatives
  \<open>USE_METROHASH\<close> and \<open>VFORK_SIGNALING\<close> and all five \<open>ALLOC_\<close> methods are modelled.

  \<^bold>\<open>Not modelled.\<close> What the functions of the C library and the kernel do: they are the fields of \<open>os\<close>, and
  the tables of exported symbols in \<open>Ufs_Preload\<close> only give those fields their names. Of \<open>printf\<close> only the
  conversions the sources use with the wrappers. The messages of \<open>dlog\<close> are not repeated at their places
  in the other theories: as the Makefile builds the library it prints none of them. \<open>fork\<close> of the library,
  which only calls the system's. Memory exhaustion in \<open>malloc\<close> and \<open>mmap\<close>, which the code does not test for
  in most places. The system calls run atomically with respect to each other; interleavings are modelled
  for the row lock, the claims and \<open>vfork\<close>.
\<close>

end
